(* ===== verification/Prelude.thy ===== *)
theory Prelude
  imports Main
    "HOL-Library.Word"
    "HOL-Library.Char_ord"
    "HOL-Library.List_Lexorder"
    "HOL-Library.Sublist"
    "HOL-Library.Multiset"
begin

text \<open>
  Shared vocabulary of the development.

  A Go \<^verbatim>\<open>string\<close> or \<^verbatim>\<open>[]byte\<close> is a sequence of bytes; the model uses \<^typ>\<open>string\<close>,
  since an Isabelle \<^typ>\<open>char\<close> is exactly one byte.  Go's \<^verbatim>\<open>int\<close>, \<^verbatim>\<open>int64\<close> are \<^typ>\<open>int\<close> with the
  wrap-around written out (\<open>wrap64\<close>) wherever a value can leave the 64-bit range.  A function
  returning \<^verbatim>\<open>(T, error)\<close> is a function into a sum, \<open>Inl\<close> carrying the error.
\<close>

named_theorems go_simps "defining equations of the Go standard library model"
named_theorems go_len "length facts used by termination and bound proofs"

type_synonym bytes = string
type_synonym byte = char

abbreviation NL :: char where "NL \<equiv> CHR 0x0A"
abbreviation TAB :: char where "TAB \<equiv> CHR 0x09"

subsection \<open>Results\<close>

fun res_bind :: "'e + 'a \<Rightarrow> ('a \<Rightarrow> 'e + 'b) \<Rightarrow> 'e + 'b" where
  "res_bind (Inl e) f = Inl e"
| "res_bind (Inr x) f = f x"

fun is_ok :: "'e + 'a \<Rightarrow> bool" where
  "is_ok (Inl e) = False"
| "is_ok (Inr x) = True"

lemma res_bind_Inr_iff: "res_bind m f = Inr y \<longleftrightarrow> (\<exists>x. m = Inr x \<and> f x = Inr y)"
  by (cases m) auto

lemma res_bind_Inl_iff: "res_bind m f = Inl e \<longleftrightarrow> m = Inl e \<or> (\<exists>x. m = Inr x \<and> f x = Inl e)"
  by (cases m) auto

lemma is_ok_iff: "is_ok m \<longleftrightarrow> (\<exists>x. m = Inr x)"
  by (cases m) auto

subsection \<open>Machine integers\<close>

definition MaxInt64 :: int where "MaxInt64 = 9223372036854775807"

definition MinInt64 :: int where "MinInt64 = - 9223372036854775808"

text \<open>Go's signed 64-bit arithmetic: the mathematical result reduced to two's complement.\<close>

definition wrap64 :: "int \<Rightarrow> int" where
  "wrap64 n = (n + 9223372036854775808) mod 18446744073709551616 - 9223372036854775808"

lemma wrap64_range: "MinInt64 \<le> wrap64 n \<and> wrap64 n \<le> MaxInt64"
  by (simp add: wrap64_def MinInt64_def MaxInt64_def)

lemma wrap64_id: "MinInt64 \<le> n \<Longrightarrow> n \<le> MaxInt64 \<Longrightarrow> wrap64 n = n"
  by (simp add: wrap64_def MinInt64_def MaxInt64_def)

text \<open>Go's \<^verbatim>\<open>/\<close> and \<^verbatim>\<open>%\<close> truncate towards zero.\<close>

definition go_div :: "int \<Rightarrow> int \<Rightarrow> int" where
  "go_div a b = wrap64 (sgn a * sgn b * (\<bar>a\<bar> div \<bar>b\<bar>))"

definition go_mod :: "int \<Rightarrow> int \<Rightarrow> int" where
  "go_mod a b = sgn a * (\<bar>a\<bar> mod \<bar>b\<bar>)"

subsection \<open>Lists\<close>

lemma subseq_snoc: "subseq xs ys \<Longrightarrow> subseq (xs @ [a]) (ys @ [a])"
  by (simp add: list_emb_append_mono)

lemma prefix_drop_append: "prefix xs ys \<Longrightarrow> xs @ drop (length xs) ys = ys"
  by (auto simp: prefix_def)

lemma drop_Cons_nth: "i < length xs \<Longrightarrow> drop i xs = xs ! i # drop (Suc i) xs"
  by (rule Cons_nth_drop_Suc [symmetric])

lemma filter_not_None: "filter (\<lambda>x. x \<noteq> None) (map Some xs) = map Some xs"
  by (induction xs) auto

end
