(* ===== verification/Gostd.thy ===== *)
theory Gostd
  imports Prelude
begin

text \<open>
  The part of the Go language and standard library that the modelled sources use, on byte
  strings: decimal conversion (\<^verbatim>\<open>strconv\<close>), UTF-8 (\<^verbatim>\<open>unicode/utf8\<close>), \<^verbatim>\<open>strings\<close> and the line
  scanner of \<^verbatim>\<open>bufio\<close>.  These are models of library behaviour, shared by every component.
\<close>

subsection \<open>strconv\<close>

definition code :: "char \<Rightarrow> nat" where
  "code c = of_char c"

definition isDecDigit :: "char \<Rightarrow> bool" where
  "isDecDigit c \<longleftrightarrow> 48 \<le> code c \<and> code c \<le> 57"

definition digit_char :: "nat \<Rightarrow> char" where
  "digit_char d = char_of (48 + d)"

fun itoa_nat :: "nat \<Rightarrow> string" where
  "itoa_nat n = (if n < 10 then [digit_char n] else itoa_nat (n div 10) @ [digit_char (n mod 10)])"

declare itoa_nat.simps [simp del]

text \<open>\<^verbatim>\<open>strconv.Itoa\<close> and \<^verbatim>\<open>strconv.FormatInt(_, 10)\<close>.\<close>

definition Itoa :: "int \<Rightarrow> string" where
  "Itoa n = (if n < 0 then CHR ''-'' # itoa_nat (nat (- n)) else itoa_nat (nat n))"

definition dec_value :: "string \<Rightarrow> nat" where
  "dec_value s = foldl (\<lambda>acc c. 10 * acc + (code c - 48)) 0 s"

definition parse_digits :: "string \<Rightarrow> nat option" where
  "parse_digits s = (if s \<noteq> [] \<and> list_all isDecDigit s then Some (dec_value s) else None)"

text \<open>\<^verbatim>\<open>strconv.ParseInt(s, 10, 64)\<close>, and \<^verbatim>\<open>strconv.Atoi\<close> on a 64-bit platform: an optional sign,
  at least one digit, a value in range; \<^const>\<open>None\<close> is any error.\<close>

definition ParseInt :: "string \<Rightarrow> int option" where
  "ParseInt s =
     (let neg = (s \<noteq> [] \<and> hd s = CHR ''-'');
          body = (if s \<noteq> [] \<and> (hd s = CHR ''-'' \<or> hd s = CHR ''+'') then tl s else s)
      in case parse_digits body of
           None \<Rightarrow> None
         | Some n \<Rightarrow>
             (let v = (if neg then - int n else int n)
              in if MinInt64 \<le> v \<and> v \<le> MaxInt64 then Some v else None))"

definition hex_value :: "char \<Rightarrow> nat option" where
  "hex_value c =
     (if 48 \<le> code c \<and> code c \<le> 57 then Some (code c - 48)
      else if 97 \<le> code c \<and> code c \<le> 102 then Some (code c - 87)
      else if 65 \<le> code c \<and> code c \<le> 70 then Some (code c - 55)
      else None)"

fun digits_value :: "nat \<Rightarrow> nat \<Rightarrow> string \<Rightarrow> nat option" where
  "digits_value base acc [] = Some acc"
| "digits_value base acc (c # cs) =
     (case hex_value c of
        None \<Rightarrow> None
      | Some d \<Rightarrow> if d < base then digits_value base (base * acc + d) cs else None)"

text \<open>\<^verbatim>\<open>strconv.ParseUint(s, base, 8)\<close> for base 8 and 16: a range error above 255.\<close>

definition ParseUint8 :: "nat \<Rightarrow> string \<Rightarrow> nat option" where
  "ParseUint8 base s =
     (if s = [] then None
      else case digits_value base 0 s of
             None \<Rightarrow> None
           | Some v \<Rightarrow> if v \<le> 255 then Some v else None)"

subsection \<open>unicode/utf8\<close>

definition RuneError :: nat where "RuneError = 65533"

definition is_cont :: "nat \<Rightarrow> bool" where
  "is_cont b \<longleftrightarrow> 128 \<le> b \<and> b \<le> 191"

definition decode_multi :: "nat \<Rightarrow> nat list \<Rightarrow> nat \<times> nat" where
  "decode_multi b0 bs =
     (if b0 < 128 then (b0, 1)
      else if 194 \<le> b0 \<and> b0 \<le> 223 then
        (case bs of
           b1 # _ \<Rightarrow> if is_cont b1 then ((b0 - 192) * 64 + (b1 - 128), 2) else (RuneError, 1)
         | _ \<Rightarrow> (RuneError, 1))
      else if 224 \<le> b0 \<and> b0 \<le> 239 then
        (case bs of
           b1 # b2 # _ \<Rightarrow>
             if is_cont b1 \<and> is_cont b2 \<and> (b0 = 224 \<longrightarrow> 160 \<le> b1) \<and> (b0 = 237 \<longrightarrow> b1 \<le> 159)
             then ((b0 - 224) * 4096 + (b1 - 128) * 64 + (b2 - 128), 3) else (RuneError, 1)
         | _ \<Rightarrow> (RuneError, 1))
      else if 240 \<le> b0 \<and> b0 \<le> 244 then
        (case bs of
           b1 # b2 # b3 # _ \<Rightarrow>
             if is_cont b1 \<and> is_cont b2 \<and> is_cont b3 \<and> (b0 = 240 \<longrightarrow> 144 \<le> b1)
                \<and> (b0 = 244 \<longrightarrow> b1 \<le> 143)
             then ((b0 - 240) * 262144 + (b1 - 128) * 4096 + (b2 - 128) * 64 + (b3 - 128), 4)
             else (RuneError, 1)
         | _ \<Rightarrow> (RuneError, 1))
      else (RuneError, 1))"

text \<open>\<^verbatim>\<open>utf8.DecodeRuneInString\<close>: the rune and its width; an invalid or truncated encoding is
  \<^const>\<open>RuneError\<close> of width 1.\<close>

fun decodeRune :: "string \<Rightarrow> nat \<times> nat" where
  "decodeRune [] = (RuneError, 0)"
| "decodeRune (c # cs) = decode_multi (code c) (map code (take 3 cs))"

definition valid_rune :: "nat \<Rightarrow> bool" where
  "valid_rune r \<longleftrightarrow> r < 55296 \<or> 57344 \<le> r \<and> r \<le> 1114111"

text \<open>\<^verbatim>\<open>utf8.AppendRune\<close>: an invalid rune is written as \<^const>\<open>RuneError\<close>.\<close>

definition encodeRune :: "nat \<Rightarrow> string" where
  "encodeRune r0 =
     (let r = (if valid_rune r0 then r0 else RuneError)
      in map char_of
           (if r < 128 then [r]
            else if r < 2048 then [192 + r div 64, 128 + r mod 64]
            else if r < 65536 then [224 + r div 4096, 128 + r div 64 mod 64, 128 + r mod 64]
            else [240 + r div 262144, 128 + r div 4096 mod 64, 128 + r div 64 mod 64,
                  128 + r mod 64]))"

lemma decode_multi_width: "1 \<le> snd (decode_multi b0 bs) \<and> snd (decode_multi b0 bs) \<le> Suc (length bs)"
  by (simp add: decode_multi_def split: list.split)

lemma decodeRune_width: "s \<noteq> [] \<Longrightarrow> 1 \<le> snd (decodeRune s) \<and> snd (decodeRune s) \<le> length s"
  using decode_multi_width [of "code (hd s)" "map code (take 3 (tl s))"] by (cases s) auto

text \<open>\<^verbatim>\<open>[]rune(s)\<close>, and the pairs of byte offset and rune that \<^verbatim>\<open>range s\<close> visits.\<close>

function range_runes :: "nat \<Rightarrow> string \<Rightarrow> (nat \<times> nat) list" where
  "range_runes off s =
     (if s = [] then []
      else (off, fst (decodeRune s))
           # range_runes (off + snd (decodeRune s)) (drop (snd (decodeRune s)) s))"
  by pat_completeness auto
termination
proof (relation "measure (\<lambda>(off, s). length s)", goal_cases)
  case 1
  show ?case by simp
next
  case (2 off s)
  then show ?case using decodeRune_width [of s] by (cases s) auto
qed

declare range_runes.simps [simp del]

definition runes :: "string \<Rightarrow> nat list" where
  "runes s = map snd (range_runes 0 s)"

definition of_runes :: "nat list \<Rightarrow> string" where
  "of_runes rs = concat (map encodeRune rs)"

subsection \<open>strings\<close>

definition TrimPrefix :: "string \<Rightarrow> string \<Rightarrow> string" where
  "TrimPrefix s p = (if prefix p s then drop (length p) s else s)"

fun IndexByte :: "string \<Rightarrow> char \<Rightarrow> nat option" where
  "IndexByte [] c = None"
| "IndexByte (x # xs) c = (if x = c then Some 0 else map_option Suc (IndexByte xs c))"

text \<open>\<^verbatim>\<open>strings.Index\<close> and \<^verbatim>\<open>strings.Contains\<close>: the first position where the substring starts.\<close>

fun Index :: "string \<Rightarrow> string \<Rightarrow> nat option" where
  "Index [] sub = (if sub = [] then Some 0 else None)"
| "Index (x # xs) sub = (if prefix sub (x # xs) then Some 0 else map_option Suc (Index xs sub))"

definition Contains :: "string \<Rightarrow> string \<Rightarrow> bool" where
  "Contains s sub \<longleftrightarrow> Index s sub \<noteq> None"

text \<open>\<^verbatim>\<open>strings.Split(s, sep)\<close> for a separator that is not empty.\<close>

function split_aux :: "string \<Rightarrow> string \<Rightarrow> string \<Rightarrow> string list" where
  "split_aux sep acc s =
     (if s = [] \<or> sep = [] then [rev acc]
      else if prefix sep s then rev acc # split_aux sep [] (drop (length sep) s)
      else split_aux sep (hd s # acc) (tl s))"
  by pat_completeness auto
termination
  by (relation "measure (\<lambda>(sep, acc, s). length s)") auto

declare split_aux.simps [simp del]

definition Split :: "string \<Rightarrow> string \<Rightarrow> string list" where
  "Split s sep = split_aux sep [] s"

text \<open>Splitting at one byte, by structural recursion; it agrees with \<^const>\<open>split_aux\<close> (see below).\<close>

fun split_char :: "char \<Rightarrow> string \<Rightarrow> string list" where
  "split_char c [] = [[]]"
| "split_char c (x # xs) =
     (if x = c then [] # split_char c xs
      else (case split_char c xs of [] \<Rightarrow> [[x]] | h # t \<Rightarrow> (x # h) # t))"

fun Join :: "string list \<Rightarrow> string \<Rightarrow> string" where
  "Join [] sep = []"
| "Join [x] sep = x"
| "Join (x # y # ys) sep = x @ sep @ Join (y # ys) sep"

text \<open>\<^verbatim>\<open>strings.ReplaceAll\<close> for a non-empty old string.\<close>

function ReplaceAll :: "string \<Rightarrow> string \<Rightarrow> string \<Rightarrow> string" where
  "ReplaceAll s old new =
     (if s = [] \<or> old = [] then s
      else if prefix old s then new @ ReplaceAll (drop (length old) s) old new
      else hd s # ReplaceAll (tl s) old new)"
  by pat_completeness auto
termination
  by (relation "measure (\<lambda>(s, old, new). length s)") auto

declare ReplaceAll.simps [simp del]

text \<open>\<^verbatim>\<open>unicode.IsSpace\<close>.\<close>

definition isSpaceRune :: "nat \<Rightarrow> bool" where
  "isSpaceRune r \<longleftrightarrow>
     9 \<le> r \<and> r \<le> 13 \<or> r = 32 \<or> r = 133 \<or> r = 160 \<or> r = 5760 \<or> 8192 \<le> r \<and> r \<le> 8202
     \<or> r = 8232 \<or> r = 8233 \<or> r = 8239 \<or> r = 8287 \<or> r = 12288"

text \<open>The string cut into its encoded runes (an invalid byte is a piece of its own), and
  \<^verbatim>\<open>strings.Fields\<close> over them.\<close>

function rune_pieces :: "string \<Rightarrow> (nat \<times> string) list" where
  "rune_pieces s =
     (if s = [] then []
      else (fst (decodeRune s), take (snd (decodeRune s)) s)
           # rune_pieces (drop (snd (decodeRune s)) s))"
  by pat_completeness auto
termination
proof (relation "measure length", goal_cases)
  case 1
  show ?case by simp
next
  case (2 s)
  then show ?case using decodeRune_width [of s] by (cases s) auto
qed

declare rune_pieces.simps [simp del]

fun fields_aux :: "string \<Rightarrow> (nat \<times> string) list \<Rightarrow> string list" where
  "fields_aux cur [] = (if cur = [] then [] else [cur])"
| "fields_aux cur ((r, p) # ps) =
     (if isSpaceRune r then (if cur = [] then fields_aux [] ps else cur # fields_aux [] ps)
      else fields_aux (cur @ p) ps)"

definition Fields :: "string \<Rightarrow> string list" where
  "Fields s = fields_aux [] (rune_pieces s)"

text \<open>\<^verbatim>\<open>strings.TrimSpace\<close>.\<close>

definition TrimSpace :: "string \<Rightarrow> string" where
  "TrimSpace s =
     (let sp = (\<lambda>rp. isSpaceRune (fst rp))
      in concat (map snd (rev (dropWhile sp (rev (dropWhile sp (rune_pieces s)))))))"

subsection \<open>bufio.Scanner\<close>

text \<open>The default line scanner: the text between newlines, one trailing carriage return dropped,
  and no empty token after a final newline.\<close>

definition drop_cr :: "string \<Rightarrow> string" where
  "drop_cr l = (if l \<noteq> [] \<and> last l = CHR 0x0D then butlast l else l)"

definition text_lines :: "string \<Rightarrow> string list" where
  "text_lines s = (let ps = split_aux [NL] [] s in if last ps = [] then butlast ps else ps)"

definition scan_lines :: "string \<Rightarrow> string list" where
  "scan_lines s = map drop_cr (text_lines s)"

subsection \<open>Facts about the library\<close>

lemma code_less: "code c < 256"
  by (simp add: code_def)

lemma code_char_of: "n < 256 \<Longrightarrow> code (char_of n) = n"
  by (simp add: code_def)

lemma char_of_code [simp]: "char_of (code c) = c"
  by (simp add: code_def)

lemma code_inject [simp]: "code c = code d \<longleftrightarrow> c = d"
  by (metis char_of_code)

lemma char_of_eq_iff: "n < 256 \<Longrightarrow> char_of n = c \<longleftrightarrow> n = code c"
  by (metis char_of_code code_char_of)

lemma encodeRune_ascii: "code c < 128 \<Longrightarrow> encodeRune (code c) = [c]"
  by (simp add: encodeRune_def valid_rune_def)

lemma code_digit_char: "d < 10 \<Longrightarrow> code (digit_char d) = 48 + d"
  by (simp add: digit_char_def code_char_of)

lemma isDecDigit_digit_char: "d < 10 \<Longrightarrow> isDecDigit (digit_char d)"
  by (simp add: isDecDigit_def code_digit_char)

lemma itoa_nat_digits: "itoa_nat n \<noteq> [] \<and> list_all isDecDigit (itoa_nat n)"
proof (induction n rule: itoa_nat.induct)
  case (1 n)
  then show ?case
    by (cases "n < 10") (simp_all add: itoa_nat.simps [of n] isDecDigit_digit_char)
qed

lemma dec_value_snoc: "dec_value (s @ [c]) = 10 * dec_value s + (code c - 48)"
  by (simp add: dec_value_def)

lemma dec_value_itoa: "dec_value (itoa_nat n) = n"
proof (induction n rule: itoa_nat.induct)
  case (1 n)
  then show ?case
    by (cases "n < 10")
       (simp_all add: itoa_nat.simps [of n] dec_value_snoc code_digit_char, simp add: dec_value_def code_digit_char)
qed

lemma itoa_hd_digit: "isDecDigit (hd (itoa_nat n))"
  using itoa_nat_digits [of n] by (cases "itoa_nat n") auto

lemma not_isDecDigit_sign: "\<not> isDecDigit (CHR ''-'')" "\<not> isDecDigit (CHR ''+'')"
  by (simp_all add: isDecDigit_def code_def)

lemma itoa_hd_not_sign: "hd (itoa_nat n) \<noteq> CHR ''-''" "hd (itoa_nat n) \<noteq> CHR ''+''"
  using itoa_hd_digit [of n] not_isDecDigit_sign by metis+

lemma parse_digits_itoa: "parse_digits (itoa_nat n) = Some n"
  using itoa_nat_digits by (simp add: parse_digits_def dec_value_itoa)

text \<open>Printing then parsing an in-range integer gives it back.\<close>

lemma ParseInt_Itoa:
  assumes "MinInt64 \<le> n" and "n \<le> MaxInt64"
  shows "ParseInt (Itoa n) = Some n"
proof (cases "n < 0")
  case True
  then show ?thesis using assms
    by (simp add: ParseInt_def Itoa_def parse_digits_itoa Let_def)
next
  case False
  then show ?thesis using assms itoa_nat_digits [of "nat n"] itoa_hd_not_sign [of "nat n"]
    by (simp add: ParseInt_def Itoa_def parse_digits_itoa Let_def)
qed

lemma ParseInt_range: "ParseInt s = Some v \<Longrightarrow> MinInt64 \<le> v \<and> v \<le> MaxInt64"
  by (auto simp: ParseInt_def Let_def split: option.splits if_splits)

lemma split_char_not_Nil [simp]: "split_char c s \<noteq> []"
  by (induction s) (auto split: list.split)

lemma split_aux_char:
  "split_aux [c] acc s = (rev acc @ hd (split_char c s)) # tl (split_char c s)"
proof (induction s arbitrary: acc)
  case Nil
  show ?case by (simp add: split_aux.simps)
next
  case (Cons x xs)
  then show ?case
    by (cases "split_char c xs") (auto simp: split_aux.simps [of "[c]" acc "x # xs"])
qed

lemma Split_char: "Split s [c] = split_char c s"
  using split_aux_char [of c "[]" s] by (cases "split_char c s") (simp_all add: Split_def)

lemma Join_Cons: "xs \<noteq> [] \<Longrightarrow> Join (x # xs) sep = x @ sep @ Join xs sep"
  by (cases xs) simp_all

lemma Join_split_char: "Join (split_char c s) [c] = s"
proof (induction s)
  case Nil
  show ?case by simp
next
  case (Cons x xs)
  show ?case
  proof (cases "split_char c xs")
    case Nil
    then show ?thesis by simp
  next
    case (Cons h t)
    with Cons.IH show ?thesis by (cases t) (simp_all add: Join_Cons)
  qed
qed

lemma split_char_no_sep: "x \<in> set (split_char c s) \<Longrightarrow> c \<notin> set x"
proof (induction s arbitrary: x)
  case Nil
  then show ?case by simp
next
  case (Cons y ys)
  then show ?case by (cases "split_char c ys") (auto split: if_splits)
qed

lemma split_char_append_sep: "c \<notin> set x \<Longrightarrow> split_char c (x @ c # s) = x # split_char c s"
  by (induction x) auto

lemma split_char_id: "c \<notin> set x \<Longrightarrow> split_char c x = [x]"
  by (induction x) auto

text \<open>Joining pieces without the separator and splitting again gives them back.\<close>

lemma split_char_Join:
  "xs \<noteq> [] \<Longrightarrow> \<forall>x \<in> set xs. c \<notin> set x \<Longrightarrow> split_char c (Join xs [c]) = xs"
proof (induction xs)
  case Nil
  then show ?case by simp
next
  case (Cons x xs)
  then show ?case
    by (cases "xs = []") (simp_all add: Join_Cons split_char_append_sep split_char_id)
qed

lemma text_lines_split:
  "text_lines s = (let ps = split_char NL s in if last ps = [] then butlast ps else ps)"
  using split_aux_char [of NL "[]" s] by (cases "split_char NL s") (simp_all add: text_lines_def)

end
