(* ===== verification/Float64.thy ===== *)
theory Float64
  imports Gostd
begin

text \<open>
  The numbers of \<^verbatim>\<open>encoding/json\<close> in a value of type \<^verbatim>\<open>interface{}\<close>: the literal becomes a \<^verbatim>\<open>float64\<close>, and the encoder prints the shortest
  decimal that is read back as the same \<^verbatim>\<open>float64\<close>.  Values are fractions of natural numbers, and a \<^verbatim>\<open>float64\<close> is a fraction
  \<open>m\<close> below \<open>2 ^ 53\<close> with a binary exponent \<open>e\<close>, of the value \<open>m * 2 ^ e\<close>.
\<close>

section \<open>Reading\<close>

fun bit_length :: "nat \<Rightarrow> nat" where
  "bit_length n = (if n = 0 then 0 else Suc (bit_length (n div 2)))"

declare bit_length.simps [simp del]

text \<open>The integer next to \<open>a / b\<close>, the even one of two.\<close>

definition div_even :: "nat \<Rightarrow> nat \<Rightarrow> nat" where
  "div_even a b =
     (let q = a div b; r = a mod b in if 2 * r < b \<or> 2 * r = b \<and> even q then q else q + 1)"

text \<open>The \<^verbatim>\<open>float64\<close> next to \<open>a / b\<close> for a positive \<open>a\<close>, with the exponent of the subnormal numbers at least; \<^const>\<open>None\<close> is an overflow.\<close>

definition float64_of :: "nat \<Rightarrow> nat \<Rightarrow> (nat \<times> int) option" where
  "float64_of a b =
     (let k = int (bit_length a) - int (bit_length b);
          above = b * 2 ^ nat k \<le> a * 2 ^ nat (- k);
          e = max (- 1074) (if above then k - 52 else k - 53);
          m = div_even (a * 2 ^ nat (- e)) (b * 2 ^ nat e);
          (m', e') = (if m = 2 ^ 53 then (2 ^ 52, e + 1) else (m, e))
      in if e' > 971 then None else Some (m', e'))"

text \<open>An integer below \<open>2 ^ 53\<close> is read exactly.\<close>

lemma bit_length_bounds: "0 < n \<Longrightarrow> 0 < bit_length n \<and> 2 ^ (bit_length n - 1) \<le> n \<and> n < 2 ^ bit_length n"
proof (induction n rule: bit_length.induct)
  case (1 n)
  show ?case
  proof (cases "n = 1")
    case False
    have *: "n \<noteq> 0" "0 < n div 2" "bit_length n = Suc (bit_length (n div 2))" using "1.prems" False by (auto simp: bit_length.simps [of n])
    have ih: "0 < bit_length (n div 2)" "2 ^ (bit_length (n div 2) - 1) \<le> n div 2" "n div 2 < 2 ^ bit_length (n div 2)" using "1.IH" [OF *(1,2)] by auto
    then obtain j where j: "bit_length (n div 2) = Suc j" by (cases "bit_length (n div 2)") auto
    have "2 * 2 ^ j \<le> n" "n < 2 * (2 * 2 ^ j)" using ih(2,3) j by auto
    then show ?thesis using *(3) j by simp
  qed (simp add: bit_length.simps)
qed

lemma div_even_exact [simp]: "div_even a (Suc 0) = a"
  by (simp add: div_even_def Let_def)

lemma float64_exact:
  assumes "0 < n" and "n < 2 ^ 53"
  shows "\<exists>m e. float64_of n 1 = Some (m, e) \<and> m * 2 ^ nat e = n * 2 ^ nat (- e)"
proof -
  obtain j where b1: "bit_length n = Suc j" using bit_length_bounds [OF assms(1)] by (cases "bit_length n") auto
  then have b: "bit_length n = Suc j" "2 ^ j \<le> n" "n < 2 * 2 ^ j" using bit_length_bounds [OF assms(1)] by simp_all
  have "(2::nat) ^ j < 2 ^ 53" using b(2) assms(2) by linarith
  then have j: "j \<le> 52" using power_less_imp_less_exp [of "2::nat" j 53] by simp
  have one: "bit_length (Suc 0) = 1" by (simp add: bit_length.simps)
  have k: "int (bit_length n) - int (bit_length 1) = int j" using b(1) one by simp
  have e: "max (- 1074) (int j - 52) = int j - 52" "nat (- (int j - 52)) = 52 - j" "nat (int j - 52) = 0" "nat (52 - int j) = 52 - j" using j by auto
  have "n * 2 ^ (52 - j) < 2 * 2 ^ j * 2 ^ (52 - j)" using b(3) by simp
  also have "\<dots> = 2 ^ 53" using j by (simp flip: power_add power_Suc)
  finally have "n * 2 ^ (52 - j) \<noteq> 2 ^ 53" by simp
  then have "float64_of n 1 = Some (n * 2 ^ (52 - j), int j - 52)"
    using b(2) j unfolding float64_of_def k Let_def by (simp add: e)
  then show ?thesis by (simp add: e)
qed

section \<open>Printing\<close>

function lead_zeros :: "nat \<Rightarrow> nat \<Rightarrow> nat" where
  "lead_zeros p q = (if p = 0 \<or> q \<le> 10 * p then 0 else Suc (lead_zeros (10 * p) q))"
  by pat_completeness auto
termination by (relation "measure (\<lambda>(p, q). q - p)") auto

declare lead_zeros.simps [simp del]

text \<open>The decimal \<open>c * 10 ^ s\<close> as a fraction, and the places before the decimal point of \<open>p / q\<close>.\<close>

definition dec_ratio :: "nat \<Rightarrow> int \<Rightarrow> nat \<times> nat" where
  "dec_ratio c s = (c * 10 ^ nat s, 10 ^ nat (- s))"

definition dec_places :: "nat \<Rightarrow> nat \<Rightarrow> int" where
  "dec_places p q = (if q \<le> p then int (length (itoa_nat (p div q))) else - int (lead_zeros p q))"

text \<open>A decimal of \<open>n\<close> digits that is read back as the given number: the nearer of the two around it, or else the other.\<close>

definition n_digits :: "nat \<times> int \<Rightarrow> nat \<Rightarrow> (nat \<times> int) option" where
  "n_digits x n =
     (let p = fst x * 2 ^ nat (snd x); q = 2 ^ nat (- snd x);
          s = dec_places p q - int n;
          num = p * 10 ^ nat (- s); den = q * 10 ^ nat s;
          c = div_even num den; lo = num div den;
          back = (\<lambda>c. c > 0 \<and> (case dec_ratio c s of (a, b) \<Rightarrow> float64_of a b = Some x))
      in map_option (\<lambda>c. (c, s)) (find back [c, if c = lo then lo + 1 else lo]))"

definition shortest_digits :: "nat \<times> int \<Rightarrow> nat \<times> int" where
  "shortest_digits x = (case List.map_filter (n_digits x) [1..<18] of [] \<Rightarrow> (0, 0) | d # _ \<Rightarrow> d)"

text \<open>The number with the digits \<open>ds\<close> and \<open>d\<close> places before the point.\<close>

definition number_layout :: "string \<Rightarrow> int \<Rightarrow> string" where
  "number_layout ds d =
     (if - 5 \<le> d \<and> d \<le> 21 then
        (if d \<le> 0 then ''0.'' @ replicate (nat (- d)) CHR ''0'' @ ds
         else if int (length ds) \<le> d then ds @ replicate (nat d - length ds) CHR ''0''
         else take (nat d) ds @ ''.'' @ drop (nat d) ds)
      else
        take 1 ds @ (if length ds > 1 then CHR ''.'' # drop 1 ds else []) @ ''e'' @ (if d > 0 then ''+'' else []) @ Itoa (d - 1))"

definition float_text :: "bool \<Rightarrow> nat \<Rightarrow> nat \<Rightarrow> string option" where
  "float_text neg a b =
     map_option (\<lambda>t. (if neg then ''-'' else []) @ t)
       (if a = 0 then Some ''0''
        else
          (case float64_of a b of
             None \<Rightarrow> None
           | Some x \<Rightarrow>
               if fst x = 0 then Some ''0''
               else
                 (case shortest_digits x of (c, s) \<Rightarrow>
                    let t = itoa_nat c in Some (number_layout (rev (dropWhile (\<lambda>c. c = CHR ''0'') (rev t))) (int (length t) + s)))))"

section \<open>Literals\<close>

text \<open>Sign and value of a number literal: digits, a fraction and an exponent.\<close>

definition literal_value :: "string \<Rightarrow> bool \<times> nat \<times> nat" where
  "literal_value l =
     (let neg = prefix ''-'' l; t = (if neg then tl l else l);
          is_e = (\<lambda>c. c = CHR ''e'' \<or> c = CHR ''E'');
          mant = takeWhile (\<lambda>c. \<not> is_e c) t; ex = drop 1 (dropWhile (\<lambda>c. \<not> is_e c) t);
          ip = takeWhile (\<lambda>c. c \<noteq> CHR ''.'') mant; fp = drop 1 (dropWhile (\<lambda>c. c \<noteq> CHR ''.'') mant);
          ds = (if ex \<noteq> [] \<and> (hd ex = CHR ''+'' \<or> hd ex = CHR ''-'') then tl ex else ex);
          e = (if prefix ''-'' ex then - int (dec_value ds) else int (dec_value ds)) - int (length fp)
      in (neg, dec_ratio (dec_value (ip @ fp)) e))"

definition literal_text :: "string \<Rightarrow> string option" where
  "literal_text l = (case literal_value l of (neg, a, b) \<Rightarrow> float_text neg a b)"

end
