(* ===== verification/Json.thy ===== *)
theory Json
  imports Float64
begin

text \<open>
  The part of \<^verbatim>\<open>encoding/json\<close> the program uses: values, encoding with and without HTML escaping,
  decoding of a text, and decoding into the fields of a struct.  Numbers are integers, or the literal
  of a number with a fraction or an exponent; in a value of type \<^verbatim>\<open>interface{}\<close> they become \<^verbatim>\<open>float64\<close> numbers, and are
  printed as such.  The decoder's limit of 10000 nesting levels is not modelled.
\<close>

section \<open>Values and their encoding\<close>

datatype json =
    JNull | JBool bool | JInt int | JNum string | JStr string
  | JArr "json list" | JObj "(string \<times> json) list"

abbreviation QUOTE :: char where "QUOTE \<equiv> CHR 0x22"
abbreviation BSL :: char where "BSL \<equiv> CHR 0x5C"

definition hex_digit :: "nat \<Rightarrow> char" where
  "hex_digit d = (if d < 10 then char_of (48 + d) else char_of (87 + d))"

definition json_escape_rune :: "bool \<Rightarrow> nat \<times> string \<Rightarrow> string" where
  "json_escape_rune html rp =
     (case rp of (r, p) \<Rightarrow>
        if p = [QUOTE] then [BSL, QUOTE]
        else if p = [BSL] then [BSL, BSL]
        else if r = 8 then [BSL, CHR ''b'']
        else if r = 12 then [BSL, CHR ''f'']
        else if r = 10 then [BSL, CHR ''n'']
        else if r = 13 then [BSL, CHR ''r'']
        else if r = 9 then [BSL, CHR ''t'']
        else if r < 32 \<or> html \<and> (r = 60 \<or> r = 62 \<or> r = 38)
        then [BSL, CHR ''u'', CHR ''0'', CHR ''0'', hex_digit (r div 16), hex_digit (r mod 16)]
        else if r = RuneError \<and> length p = 1 then BSL # ''ufffd''
        else if r = 8232 then BSL # ''u2028''
        else if r = 8233 then BSL # ''u2029''
        else p)"

definition json_string :: "bool \<Rightarrow> string \<Rightarrow> string" where
  "json_string html s = [QUOTE] @ concat (map (json_escape_rune html) (rune_pieces s)) @ [QUOTE]"

fun json_encode :: "bool \<Rightarrow> json \<Rightarrow> string" where
  "json_encode html JNull = ''null''"
| "json_encode html (JBool b) = (if b then ''true'' else ''false'')"
| "json_encode html (JInt n) = Itoa n"
| "json_encode html (JNum l) = l"
| "json_encode html (JStr s) = json_string html s"
| "json_encode html (JArr js) = ''['' @ Join (map (json_encode html) js) '','' @ '']''"
| "json_encode html (JObj kvs) =
     ''{'' @ Join (map (\<lambda>kv. json_string html (fst kv) @ '':'' @ json_encode html (snd kv)) kvs) '',''
     @ ''}''"

section \<open>Decoding a text\<close>

definition is_ws :: "char \<Rightarrow> bool" where
  "is_ws c \<longleftrightarrow> c = CHR '' '' \<or> c = TAB \<or> c = NL \<or> c = CHR 0x0D"

definition skip_ws :: "string \<Rightarrow> string" where
  "skip_ws s = dropWhile is_ws s"

definition hex4 :: "string \<Rightarrow> nat option" where
  "hex4 s = (if 4 \<le> length s then digits_value 16 0 (take 4 s) else None)"

text \<open>A \<^verbatim>\<open>\u\<close> escape after the \<open>u\<close>: the rune and the bytes used; two escapes that form a surrogate
  pair are one rune, a lone surrogate is \<^const>\<open>RuneError\<close>.\<close>

definition unicode_escape :: "string \<Rightarrow> (nat \<times> nat) option" where
  "unicode_escape s =
     (case hex4 s of
        None \<Rightarrow> None
      | Some r \<Rightarrow>
          if 55296 \<le> r \<and> r < 57344 then
            (case (if take 2 (drop 4 s) = [BSL, CHR ''u''] then hex4 (drop 6 s) else None) of
               None \<Rightarrow> Some (RuneError, 4)
             | Some r1 \<Rightarrow>
                 if r < 56320 \<and> 56320 \<le> r1 \<and> r1 < 57344
                 then Some ((r - 55296) * 1024 + (r1 - 56320) + 65536, 10)
                 else Some (RuneError, 4))
          else Some (r, 4))"

text \<open>An escape after its backslash: what it stands for and the bytes it uses.\<close>

definition json_unescape :: "string \<Rightarrow> (string \<times> nat) option" where
  "json_unescape s =
     (case s of
        [] \<Rightarrow> None
      | c # cs \<Rightarrow>
          if c = QUOTE \<or> c = BSL \<or> c = CHR ''/'' then Some ([c], 1)
          else if c = CHR ''b'' then Some ([CHR 0x08], 1)
          else if c = CHR ''f'' then Some ([CHR 0x0C], 1)
          else if c = CHR ''n'' then Some ([NL], 1)
          else if c = CHR ''r'' then Some ([CHR 0x0D], 1)
          else if c = CHR ''t'' then Some ([TAB], 1)
          else if c = CHR ''u'' then map_option (\<lambda>(r, n). (encodeRune r, Suc n)) (unicode_escape cs)
          else None)"

text \<open>The rest of a string after its opening quote; invalid UTF-8 is replaced.\<close>

function jstr :: "string \<Rightarrow> (string \<times> string) option" where
  "jstr s =
     (case s of
        [] \<Rightarrow> None
      | c # cs \<Rightarrow>
          if c = QUOTE then Some ([], cs)
          else if c = BSL then
            (case json_unescape cs of
               None \<Rightarrow> None
             | Some (out, n) \<Rightarrow> map_option (\<lambda>(o', r). (out @ o', r)) (jstr (drop n cs)))
          else if code c < 32 then None
          else
            (let (r, w) = decodeRune s;
                 out = (if r = RuneError \<and> w = 1 then encodeRune RuneError else take w s)
             in map_option (\<lambda>(o', q). (out @ o', q)) (jstr (drop (max 1 w) s))))"
  by pat_completeness auto
termination
  by (relation "measure length") auto

declare jstr.simps [simp del]

definition opt_digits :: "string \<Rightarrow> (string \<times> string) option" where
  "opt_digits s =
     (let ds = takeWhile isDecDigit s in if ds = [] then None else Some (ds, dropWhile isDecDigit s))"

definition jfrac :: "string \<Rightarrow> (string \<times> string) option" where
  "jfrac s =
     (if s \<noteq> [] \<and> hd s = CHR ''.''
      then map_option (\<lambda>(ds, r). (CHR ''.'' # ds, r)) (opt_digits (tl s))
      else Some ([], s))"

definition jexp :: "string \<Rightarrow> (string \<times> string) option" where
  "jexp s =
     (if s \<noteq> [] \<and> (hd s = CHR ''e'' \<or> hd s = CHR ''E'') then
        (let t = tl s;
             (sg, u) = (if t \<noteq> [] \<and> (hd t = CHR ''+'' \<or> hd t = CHR ''-'') then ([hd t], tl t) else ([], t))
         in map_option (\<lambda>(ds, r). (hd s # sg @ ds, r)) (opt_digits u))
      else Some ([], s))"

definition int_digits :: "string \<Rightarrow> string" where
  "int_digits s = (if s \<noteq> [] \<and> hd s = CHR ''0'' then ''0'' else takeWhile isDecDigit s)"

definition jnumber :: "string \<Rightarrow> (json \<times> string) option" where
  "jnumber s =
     (let neg = (s \<noteq> [] \<and> hd s = CHR ''-'');
          s1 = (if neg then tl s else s);
          ds = int_digits s1
      in if ds = [] then None
         else
           (case jfrac (drop (length ds) s1) of
              None \<Rightarrow> None
            | Some (f, s2) \<Rightarrow>
                (case jexp s2 of
                   None \<Rightarrow> None
                 | Some (e, s3) \<Rightarrow>
                     Some (if f = [] \<and> e = [] \<and> \<not> (neg \<and> ds = ''0'')
                           then JInt (if neg then - int (dec_value ds) else int (dec_value ds))
                           else JNum ((if neg then ''-'' else []) @ ds @ f @ e), s3))))"

fun jvalue :: "nat \<Rightarrow> string \<Rightarrow> (json \<times> string) option"
  and jelems :: "nat \<Rightarrow> string \<Rightarrow> (json list \<times> string) option"
  and jmembers :: "nat \<Rightarrow> string \<Rightarrow> ((string \<times> json) list \<times> string) option" where
  "jvalue 0 s = None"
| "jvalue (Suc n) s =
     (case skip_ws s of
        [] \<Rightarrow> None
      | c # cs \<Rightarrow>
          if c = CHR ''{'' then
            (if skip_ws cs \<noteq> [] \<and> hd (skip_ws cs) = CHR ''}'' then Some (JObj [], tl (skip_ws cs))
             else map_option (\<lambda>(kvs, r). (JObj kvs, r)) (jmembers n cs))
          else if c = CHR ''['' then
            (if skip_ws cs \<noteq> [] \<and> hd (skip_ws cs) = CHR '']'' then Some (JArr [], tl (skip_ws cs))
             else map_option (\<lambda>(js, r). (JArr js, r)) (jelems n cs))
          else if c = QUOTE then map_option (\<lambda>(t, r). (JStr t, r)) (jstr cs)
          else if prefix ''true'' (c # cs) then Some (JBool True, drop 3 cs)
          else if prefix ''false'' (c # cs) then Some (JBool False, drop 4 cs)
          else if prefix ''null'' (c # cs) then Some (JNull, drop 3 cs)
          else jnumber (c # cs))"
| "jelems 0 s = None"
| "jelems (Suc n) s =
     (case jvalue n s of
        None \<Rightarrow> None
      | Some (v, r) \<Rightarrow>
          (case skip_ws r of
             [] \<Rightarrow> None
           | c # cs \<Rightarrow>
               if c = CHR '','' then map_option (\<lambda>(vs, q). (v # vs, q)) (jelems n cs)
               else if c = CHR '']'' then Some ([v], cs)
               else None))"
| "jmembers 0 s = None"
| "jmembers (Suc n) s =
     (case skip_ws s of
        [] \<Rightarrow> None
      | q # qs \<Rightarrow>
          if q \<noteq> QUOTE then None
          else
            (case jstr qs of
               None \<Rightarrow> None
             | Some (k, r) \<Rightarrow>
                 if skip_ws r \<noteq> [] \<and> hd (skip_ws r) = CHR '':'' then
                   (case jvalue n (tl (skip_ws r)) of
                      None \<Rightarrow> None
                    | Some (v, r2) \<Rightarrow>
                        (case skip_ws r2 of
                           [] \<Rightarrow> None
                         | c # cs \<Rightarrow>
                             if c = CHR '','' then map_option (\<lambda>(kvs, t). ((k, v) # kvs, t)) (jmembers n cs)
                             else if c = CHR ''}'' then Some ([(k, v)], cs)
                             else None))
                 else None))"

text \<open>The fuel: every nesting level and every element uses at least one byte, and a call on an element
  or a member uses one unit more.\<close>

definition json_parse :: "string \<Rightarrow> json option" where
  "json_parse s =
     (case jvalue (2 * length s + 2) s of
        None \<Rightarrow> None
      | Some (v, r) \<Rightarrow> if skip_ws r = [] then Some v else None)"

text \<open>Reading a value uses up at least one byte.\<close>

lemma length_skip_ws: "length (skip_ws s) \<le> length s"
  by (simp add: skip_ws_def length_dropWhile_le)

lemma jstr_shorter: "jstr s = Some (t, r) \<Longrightarrow> length r < length s"
proof (induction s arbitrary: t rule: jstr.induct)
  case (1 s)
  show ?case
  proof (cases s)
    case Nil
    then show ?thesis using "1.prems" by (simp add: jstr.simps)
  next
    case (Cons c cs)
    show ?thesis
    proof (cases "c = QUOTE \<or> c = BSL")
      case True
      then show ?thesis using "1.prems" "1.IH"(1) [OF Cons] Cons
        by (auto simp: jstr.simps [of "c # cs"] split: option.splits if_splits) fastforce
    next
      case False
      then show ?thesis using "1.prems" "1.IH"(2) [OF Cons] Cons
        by (fastforce simp: jstr.simps [of "c # cs"] Let_def split: prod.splits if_splits)
    qed
  qed
qed

lemma opt_digits_shorter: "opt_digits s = Some (ds, r) \<Longrightarrow> length r < length s"
  by (cases s) (auto simp: opt_digits_def Let_def le_imp_less_Suc length_dropWhile_le split: if_splits)

lemma jfrac_shorter: "jfrac s = Some (f, r) \<Longrightarrow> length r \<le> length s"
  by (cases s) (auto simp: jfrac_def split: if_splits dest: opt_digits_shorter)

lemma jexp_shorter: "jexp s = Some (f, r) \<Longrightarrow> length r \<le> length s"
  by (cases s; cases "tl s") (auto simp: jexp_def Let_def split: if_splits dest!: opt_digits_shorter)

lemma jnumber_shorter:
  assumes "jnumber s = Some (v, r)"
  shows "length r < length s"
proof -
  define s1 where "s1 = (if s \<noteq> [] \<and> hd s = CHR ''-'' then tl s else s)"
  obtain f s2 e where *: "int_digits s1 \<noteq> []" "jfrac (drop (length (int_digits s1)) s1) = Some (f, s2)" "jexp s2 = Some (e, r)"
    using assms by (auto simp: jnumber_def Let_def s1_def split: option.splits if_splits)
  have "s1 \<noteq> []" using *(1) by (auto simp: int_digits_def)
  then have "length (drop (length (int_digits s1)) s1) < length s1" using *(1) by simp
  moreover have "length s1 \<le> length s" by (simp add: s1_def)
  ultimately show ?thesis using jfrac_shorter [OF *(2)] jexp_shorter [OF *(3)] by simp
qed

lemma jvalue_shorter:
  "jvalue n s = Some (v, r) \<Longrightarrow> length r < length s"
  "jelems n s = Some (vs, r) \<Longrightarrow> length r < length s"
  "jmembers n s = Some (kvs, r) \<Longrightarrow> length r < length s"
proof (induction n s and n s and n s arbitrary: v r and vs r and kvs r rule: jvalue_jelems_jmembers.induct)
  case (2 n s)
  obtain c cs where sk: "skip_ws s = c # cs" using "2.prems" by (cases "skip_ws s") auto
  have l: "Suc (length cs) \<le> length s" using length_skip_ws [of s] sk by simp
  have t: "length (tl (skip_ws cs)) \<le> length cs" using length_skip_ws [of cs] by simp
  have d: "length (drop k cs) \<le> length cs" for k by simp
  note ih = "2.IH" [OF sk]
  consider "r = tl (skip_ws cs)" | "\<exists>x. jmembers n cs = Some (x, r)" "c = CHR ''{''" "\<not> (skip_ws cs \<noteq> [] \<and> hd (skip_ws cs) = CHR ''}'')"
    | "\<exists>x. jelems n cs = Some (x, r)" "c = CHR ''[''" "\<not> (skip_ws cs \<noteq> [] \<and> hd (skip_ws cs) = CHR '']'')"
    | "\<exists>x. jstr cs = Some (x, r)" | "\<exists>k. r = drop k cs" | "jnumber (c # cs) = Some (v, r)"
    using "2.prems" sk by (auto split: if_splits)
  then show ?case
  proof cases
    case 2
    then show ?thesis using ih(1) l by force
  next
    case 3
    then show ?thesis using ih(2) l by force
  next
    case 4
    then show ?thesis using jstr_shorter l by force
  next
    case 6
    then show ?thesis using jnumber_shorter l by force
  qed (use l t d in force)+
next
  case (4 n s)
  obtain v1 r1 c cs where *: "jvalue n s = Some (v1, r1)" "skip_ws r1 = c # cs"
    using "4.prems" by (auto split: option.splits list.splits)
  have l: "Suc (length cs) < length s" using "4.IH"(1) [OF *(1)] length_skip_ws [of r1] *(2) by simp
  show ?case
  proof (cases "c = CHR '',''")
    case True
    then show ?thesis using "4.prems" * "4.IH"(2) [OF *(1) refl *(2) True] l by fastforce
  qed (use "4.prems" * l in \<open>auto split: if_splits\<close>)
next
  case (6 n s)
  obtain q qs where q: "skip_ws s = q # qs" "q = QUOTE"
    using "6.prems" by (auto split: option.splits list.splits if_splits)
  obtain k r0 where k: "jstr qs = Some (k, r0)" "skip_ws r0 \<noteq> [] \<and> hd (skip_ws r0) = CHR '':''"
    using "6.prems" q by (auto split: option.splits list.splits if_splits)
  obtain v1 r2 c cs where v: "jvalue n (tl (skip_ws r0)) = Some (v1, r2)" "skip_ws r2 = c # cs"
    using "6.prems" q k by (auto split: option.splits list.splits if_splits)
  have nq: "\<not> q \<noteq> QUOTE" using q(2) by simp
  have "length r2 < length (tl (skip_ws r0))" using "6.IH"(1) [OF q(1) nq k(1) refl k(2) v(1)] .
  then have l: "Suc (length cs) < length s"
    using jstr_shorter [OF k(1)] length_skip_ws [of s] length_skip_ws [of r0] length_skip_ws [of r2] q(1) v(2) by simp
  show ?case
  proof (cases "c = CHR '',''")
    case True
    then show ?thesis using "6.prems" q k v "6.IH"(2) [OF q(1) nq k(1) refl k(2) v(1) refl v(2) True] l by fastforce
  qed (use "6.prems" q k v l in \<open>auto split: if_splits\<close>)
qed simp_all

section \<open>Decoding into struct fields\<close>

text \<open>
  A key matches a field name up to case.  Besides the ASCII letters, the long s (U+017F) and the
  Kelvin sign (U+212A) fold onto ASCII letters.
\<close>

definition fold_rune :: "nat \<Rightarrow> nat" where
  "fold_rune r =
     (if 97 \<le> r \<and> r \<le> 122 then r - 32 else if r = 383 then 83 else if r = 8490 then 75 else r)"

definition key_matches :: "string \<Rightarrow> string \<Rightarrow> bool" where
  "key_matches name k \<longleftrightarrow> map fold_rune (runes k) = map fold_rune (runes name)"

text \<open>Each member whose key matches is decoded in turn over the value the field has; any mismatch of
  types makes the whole decoding fail.\<close>

fun decode_field :: "('a \<Rightarrow> json \<Rightarrow> 'a option) \<Rightarrow> string \<Rightarrow> 'a \<Rightarrow> (string \<times> json) list \<Rightarrow> 'a option" where
  "decode_field dec name old [] = Some old"
| "decode_field dec name old ((k, v) # kvs) =
     (if key_matches name k
      then (case dec old v of None \<Rightarrow> None | Some new \<Rightarrow> decode_field dec name new kvs)
      else decode_field dec name old kvs)"

fun dec_string :: "string \<Rightarrow> json \<Rightarrow> string option" where
  "dec_string old (JStr s) = Some s"
| "dec_string old JNull = Some old"
| "dec_string old _ = None"

fun dec_bool :: "bool \<Rightarrow> json \<Rightarrow> bool option" where
  "dec_bool old (JBool b) = Some b"
| "dec_bool old JNull = Some old"
| "dec_bool old _ = None"

fun dec_int :: "int \<Rightarrow> json \<Rightarrow> int option" where
  "dec_int old (JInt n) = (if MinInt64 \<le> n \<and> n \<le> MaxInt64 then Some n else None)"
| "dec_int old JNull = Some old"
| "dec_int old _ = None"

fun dec_strings :: "string list \<Rightarrow> json \<Rightarrow> string list option" where
  "dec_strings old (JArr js) = those (map (dec_string []) js)"
| "dec_strings old JNull = Some []"
| "dec_strings old _ = None"

text \<open>A value of type \<^verbatim>\<open>interface{}\<close>: objects become maps, which have one value per key (the last) and are encoded in the order of
  their keys; a number becomes the \<^verbatim>\<open>float64\<close> next to it, an error (\<^const>\<open>None\<close>) when it is too large.  An integer of at most
  \<open>2 ^ 53\<close> is a \<^verbatim>\<open>float64\<close> and is printed as it is; any other number as the text of \<open>Float64\<close>.\<close>

fun map_insert :: "string \<Rightarrow> json \<Rightarrow> (string \<times> json) list \<Rightarrow> (string \<times> json) list" where
  "map_insert k v [] = [(k, v)]"
| "map_insert k v ((k', v') # m) =
     (if k = k' then (k, v) # m
      else if k < k' then (k, v) # (k', v') # m
      else (k', v') # map_insert k v m)"

definition go_map :: "(string \<times> json) list \<Rightarrow> json" where
  "go_map kvs = JObj (fold (\<lambda>kv m. map_insert (fst kv) (snd kv) m) kvs [])"

fun to_any :: "json \<Rightarrow> json option" where
  "to_any (JArr js) = map_option JArr (those (map to_any js))"
| "to_any (JObj kvs) = map_option (\<lambda>vs. go_map (zip (map fst kvs) vs)) (those (map (\<lambda>kv. to_any (snd kv)) kvs))"
| "to_any (JInt n) =
     (if \<bar>n\<bar> \<le> 2 ^ 53 then Some (JInt n) else map_option JNum (float_text (n < 0) (nat \<bar>n\<bar>) 1))"
| "to_any (JNum l) = map_option JNum (literal_text l)"
| "to_any v = Some v"

definition dec_any :: "json \<Rightarrow> json \<Rightarrow> json option" where
  "dec_any old v = to_any v"

definition dec_raw :: "json option \<Rightarrow> json \<Rightarrow> json option option" where
  "dec_raw old v = Some (Some v)"

text \<open>The members a struct is decoded from: an object has its members, null none, and every other
  value is an error.\<close>

fun struct_members :: "json \<Rightarrow> (string \<times> json) list option" where
  "struct_members (JObj kvs) = Some kvs"
| "struct_members JNull = Some []"
| "struct_members _ = None"

section \<open>Round trip\<close>

definition ascii :: "string \<Rightarrow> bool" where
  "ascii s \<longleftrightarrow> list_all (\<lambda>c. code c < 128) s"

fun json_ascii :: "json \<Rightarrow> bool" where
  "json_ascii (JStr s) = ascii s"
| "json_ascii (JNum l) = False"
| "json_ascii (JArr js) = list_all json_ascii js"
| "json_ascii (JObj kvs) = list_all (\<lambda>kv. ascii (fst kv) \<and> json_ascii (snd kv)) kvs"
| "json_ascii _ = True"

lemma rune_pieces_ascii: "code c < 128 \<Longrightarrow> rune_pieces (c # cs) = (code c, [c]) # rune_pieces cs"
  by (simp add: rune_pieces.simps [of "c # cs"] decode_multi_def)

lemma rune_pieces_Nil [simp]: "rune_pieces [] = []"
  by (simp add: rune_pieces.simps)

lemma hex_value_digit: "d < 16 \<Longrightarrow> hex_value (hex_digit d) = Some d"
  by (auto simp: hex_digit_def hex_value_def code_char_of)

lemma hex_value_0: "hex_value CHR ''0'' = Some 0"
  by code_simp

lemma take4: "take 4 (a # b # c # d # t) = [a, b, c, d]"
  by (simp add: eval_nat_numeral)

lemma hex4_low:
  assumes "r < 256"
  shows "hex4 (CHR ''0'' # CHR ''0'' # hex_digit (r div 16) # hex_digit (r mod 16) # t) = Some r"
proof -
  have d: "r div 16 < 16" using assms by presburger
  have m: "r mod 16 < 16" by simp
  from d show ?thesis
    by (simp add: hex4_def take4 hex_value_0 hex_value_digit [OF d] hex_value_digit [OF m])
qed

lemma unescape_unicode_low:
  assumes "code c < 128"
  shows "json_unescape (CHR ''u'' # CHR ''0'' # CHR ''0'' # hex_digit (code c div 16) # hex_digit (code c mod 16) # t)
         = Some ([c], 5)"
  using assms by (simp add: json_unescape_def unicode_escape_def hex4_low encodeRune_ascii)

lemma jstr_plain: "c \<noteq> QUOTE \<Longrightarrow> c \<noteq> BSL \<Longrightarrow> 32 \<le> code c \<Longrightarrow> code c < 128 \<Longrightarrow>
   jstr (c # s) = map_option (\<lambda>(o', q). (c # o', q)) (jstr s)"
  by (simp add: jstr.simps [of "c # s"] decode_multi_def RuneError_def)

lemma jstr_escape: "jstr (BSL # cs) =
  (case json_unescape cs of None \<Rightarrow> None | Some (out, n) \<Rightarrow> map_option (\<lambda>(o', r). (out @ o', r)) (jstr (drop n cs)))"
  by (simp add: jstr.simps [of "BSL # cs"])

lemma code_ctl:
  "code c = 8 \<longleftrightarrow> c = CHR 0x08" "code c = 9 \<longleftrightarrow> c = TAB" "code c = 10 \<longleftrightarrow> c = NL"
  "code c = 12 \<longleftrightarrow> c = CHR 0x0C" "code c = 13 \<longleftrightarrow> c = CHR 0x0D"
proof -
  have "code (CHR 0x08) = 8" "code TAB = 9" "code NL = 10" "code (CHR 0x0C) = 12" "code (CHR 0x0D) = 13"
    by code_simp+
  then show "code c = 8 \<longleftrightarrow> c = CHR 0x08" "code c = 9 \<longleftrightarrow> c = TAB" "code c = 10 \<longleftrightarrow> c = NL"
    "code c = 12 \<longleftrightarrow> c = CHR 0x0C" "code c = 13 \<longleftrightarrow> c = CHR 0x0D"
    by (metis code_inject)+
qed

lemma jstr_simple_escape:
  assumes "e \<in> {(QUOTE, QUOTE), (BSL, BSL), (CHR ''b'', CHR 0x08), (CHR ''f'', CHR 0x0C), (CHR ''n'', NL),
                (CHR ''r'', CHR 0x0D), (CHR ''t'', TAB)}"
  shows "jstr (BSL # fst e # t) = map_option (\<lambda>(o', q). (snd e # o', q)) (jstr t)"
  using assms by (auto simp: jstr_escape json_unescape_def)

lemma jstr_char:
  assumes "code c < 128"
  shows "jstr (json_escape_rune h (code c, [c]) @ t) = map_option (\<lambda>(o', q). (c # o', q)) (jstr t)"
proof -
  let ?U = "code c < 32 \<or> h \<and> (code c = 60 \<or> code c = 62 \<or> code c = 38)"
  show ?thesis
  proof (cases "c \<in> {QUOTE, BSL, CHR 0x08, TAB, NL, CHR 0x0C, CHR 0x0D}")
    case True
    then show ?thesis
      using jstr_simple_escape [of "(QUOTE, QUOTE)" t] jstr_simple_escape [of "(BSL, BSL)" t]
        jstr_simple_escape [of "(CHR ''b'', CHR 0x08)" t] jstr_simple_escape [of "(CHR ''f'', CHR 0x0C)" t]
        jstr_simple_escape [of "(CHR ''n'', NL)" t] jstr_simple_escape [of "(CHR ''r'', CHR 0x0D)" t]
        jstr_simple_escape [of "(CHR ''t'', TAB)" t]
      by (auto simp: json_escape_rune_def code_ctl)
  next
    case False
    show ?thesis
    proof (cases ?U)
      case True
      with False have "json_escape_rune h (code c, [c]) =
        [BSL, CHR ''u'', CHR ''0'', CHR ''0'', hex_digit (code c div 16), hex_digit (code c mod 16)]"
        by (simp add: json_escape_rune_def code_ctl)
      then show ?thesis by (simp add: jstr_escape unescape_unicode_low [OF assms])
    next
      case nu: False
      with False assms have "json_escape_rune h (code c, [c]) = [c]"
        by (simp add: json_escape_rune_def code_ctl RuneError_def)
      then show ?thesis using False nu assms by (simp add: jstr_plain)
    qed
  qed
qed

lemma jstr_json_string:
  "ascii s \<Longrightarrow> jstr (concat (map (json_escape_rune h) (rune_pieces s)) @ QUOTE # t) = Some (s, t)"
proof (induction s)
  case Nil
  show ?case by (simp add: jstr.simps)
next
  case (Cons c s)
  then show ?case by (simp add: ascii_def rune_pieces_ascii jstr_char)
qed

lemma itoa_nat_hd: "0 < n \<Longrightarrow> hd (itoa_nat n) \<noteq> CHR ''0''"
proof (induction n rule: itoa_nat.induct)
  case (1 n)
  show ?case
  proof (cases "n < 10")
    case True
    have "code CHR ''0'' = 48" by code_simp
    with True 1 have "code (digit_char n) \<noteq> code CHR ''0''" by (simp add: code_digit_char)
    with True show ?thesis by (auto simp: itoa_nat.simps [of n])
  next
    case False
    with 1 have "hd (itoa_nat (n div 10)) \<noteq> CHR ''0''" by simp
    then show ?thesis using False itoa_nat_digits [of "n div 10"]
      by (simp add: itoa_nat.simps [of n] hd_append)
  qed
qed

text \<open>What may follow a number: nothing that would continue it.\<close>

definition stops :: "string \<Rightarrow> bool" where
  "stops r \<longleftrightarrow> r = [] \<or> \<not> isDecDigit (hd r) \<and> hd r \<noteq> CHR ''.'' \<and> hd r \<noteq> CHR ''e'' \<and> hd r \<noteq> CHR ''E''"

lemma stops_simps [simp]: "stops []" "stops (CHR '','' # r)" "stops (CHR '']'' # r)" "stops (CHR ''}'' # r)" "stops (NL # r)"
  by (simp_all add: stops_def isDecDigit_def code_def)

lemma itoa_lead:
  assumes "stops r"
  shows "int_digits (itoa_nat n @ r) = itoa_nat n"
proof (cases "n = 0")
  case True
  have "digit_char 0 = CHR ''0''" by code_simp
  then show ?thesis using True by (simp add: itoa_nat.simps int_digits_def)
next
  case False
  have "takeWhile isDecDigit (itoa_nat n @ r) = itoa_nat n"
    using itoa_nat_digits [of n] assms
    by (cases r) (auto simp: stops_def list_all_iff takeWhile_append2 takeWhile_tail)
  then show ?thesis using itoa_nat_hd [of n] False itoa_nat_digits [of n]
    by (simp add: hd_append int_digits_def)
qed

lemma isDecDigit_neq: "isDecDigit c \<Longrightarrow> c \<noteq> CHR ''-'' \<and> c \<noteq> CHR ''{'' \<and> c \<noteq> CHR ''['' \<and> c \<noteq> QUOTE
   \<and> c \<noteq> CHR ''t'' \<and> c \<noteq> CHR ''f'' \<and> c \<noteq> CHR ''n'' \<and> \<not> is_ws c"
  by (auto simp: isDecDigit_def code_def is_ws_def)

lemma itoa_nat_Cons: "\<exists>c cs. itoa_nat n = c # cs \<and> isDecDigit c"
  using itoa_nat_digits [of n] by (cases "itoa_nat n") auto

lemma itoa_nat_neq0: "0 < n \<Longrightarrow> itoa_nat n \<noteq> ''0''"
  using itoa_nat_hd [of n] by auto

lemma jnumber_Itoa:
  assumes "stops r"
  shows "jnumber (Itoa n @ r) = Some (JInt n, r)"
proof -
  have f: "jfrac r = Some ([], r)" and e: "jexp r = Some ([], r)"
    using assms by (auto simp: jfrac_def jexp_def stops_def)
  have ne: "itoa_nat m \<noteq> []" for m using itoa_nat_digits by blast
  show ?thesis
  proof (cases "n < 0")
    case True
    then have "itoa_nat (nat (- n)) \<noteq> ''0''" by (intro itoa_nat_neq0) simp
    then show ?thesis using True f e ne itoa_lead [OF assms, of "nat (- n)"]
      by (simp add: jnumber_def Itoa_def Let_def dec_value_itoa)
  next
    case False
    obtain c cs where "itoa_nat (nat n) = c # cs" "isDecDigit c" using itoa_nat_Cons by blast
    then have "hd (itoa_nat (nat n) @ r) \<noteq> CHR ''-''" by (auto simp: isDecDigit_def code_def)
    then show ?thesis using False f e ne itoa_lead [OF assms, of "nat n"]
      by (simp add: jnumber_def Itoa_def Let_def dec_value_itoa)
  qed
qed

lemma Itoa_Cons: "\<exists>c cs. Itoa n = c # cs \<and> (c = CHR ''-'' \<or> isDecDigit c)"
  using itoa_nat_Cons [of "nat n"] by (auto simp: Itoa_def)

lemma num_start:
  assumes "c = CHR ''-'' \<or> isDecDigit c"
  shows "c \<noteq> CHR ''{'' \<and> c \<noteq> CHR ''['' \<and> c \<noteq> QUOTE \<and> CHR ''t'' \<noteq> c \<and> CHR ''f'' \<noteq> c \<and> CHR ''n'' \<noteq> c \<and> \<not> is_ws c"
proof (cases "isDecDigit c")
  case True
  then show ?thesis using isDecDigit_neq [OF True] by blast
next
  case False
  with assms have "c = CHR ''-''" by simp
  then show ?thesis by (simp add: is_ws_def)
qed

lemma jvalue_Itoa: "stops r \<Longrightarrow> jvalue (Suc n) (Itoa i @ r) = Some (JInt i, r)"
proof -
  assume s: "stops r"
  obtain c cs where c: "Itoa i = c # cs" "c = CHR ''-'' \<or> isDecDigit c" using Itoa_Cons by blast
  have n: "c \<noteq> CHR ''{''" "c \<noteq> CHR ''[''" "c \<noteq> QUOTE" "CHR ''t'' \<noteq> c" "CHR ''f'' \<noteq> c" "CHR ''n'' \<noteq> c" "\<not> is_ws c"
    using num_start [OF c(2)] by simp_all
  then have p: "\<not> prefix ''true'' (c # x)" "\<not> prefix ''false'' (c # x)" "\<not> prefix ''null'' (c # x)" for x
    by simp_all
  have "skip_ws (c # x) = c # x" for x using n by (simp add: skip_ws_def)
  then have "jvalue (Suc n) (c # x) = jnumber (c # x)" for x
    using n(1-3) p by (simp only: jvalue.simps list.case if_False)
  then show ?thesis using jnumber_Itoa [OF s, of i] c(1) by simp
qed

lemma json_string_Cons: "json_string h s @ r = QUOTE # (concat (map (json_escape_rune h) (rune_pieces s)) @ QUOTE # r)"
  by (simp add: json_string_def)

lemma skip_ws_quote [simp]: "skip_ws (QUOTE # s) = QUOTE # s"
  by (simp add: skip_ws_def is_ws_def)

lemma skip_ws_punct [simp]: "skip_ws (CHR '','' # s) = CHR '','' # s" "skip_ws (CHR '']'' # s) = CHR '']'' # s"
  "skip_ws (CHR ''}'' # s) = CHR ''}'' # s" "skip_ws (CHR '':'' # s) = CHR '':'' # s"
  "skip_ws (CHR ''['' # s) = CHR ''['' # s" "skip_ws (CHR ''{'' # s) = CHR ''{'' # s" "skip_ws [] = []"
  by (simp_all add: skip_ws_def is_ws_def)

definition reads :: "bool \<Rightarrow> json \<Rightarrow> bool" where
  "reads h v \<longleftrightarrow> (\<forall>n r. 2 * length (json_encode h v) \<le> n \<longrightarrow> stops r \<longrightarrow> jvalue n (json_encode h v @ r) = Some (v, r))"

lemma readsD: "reads h v \<Longrightarrow> 2 * length (json_encode h v) \<le> n \<Longrightarrow> stops r \<Longrightarrow> jvalue n (json_encode h v @ r) = Some (v, r)"
  by (simp add: reads_def)

lemma Join_Cons2: "ys \<noteq> [] \<Longrightarrow> Join (x # ys) sep = x @ sep @ Join ys sep"
  by (cases ys) auto

lemma jelems_encode:
  "js \<noteq> [] \<Longrightarrow> \<forall>v \<in> set js. reads h v \<Longrightarrow> 2 * length (Join (map (json_encode h) js) '','') + 1 \<le> n
   \<Longrightarrow> jelems n (Join (map (json_encode h) js) '','' @ CHR '']'' # r) = Some (js, r)"
proof (induction js arbitrary: n)
  case (Cons v js)
  then obtain m where n: "n = Suc m" by (cases n) auto
  show ?case
  proof (cases "js = []")
    case True
    then show ?thesis using Cons n by (simp add: readsD)
  next
    case False
    then show ?thesis using Cons n by (simp add: readsD Join_Cons2)
  qed
qed simp

abbreviation member :: "bool \<Rightarrow> string \<times> json \<Rightarrow> string" where
  "member h \<equiv> \<lambda>kv. json_string h (fst kv) @ '':'' @ json_encode h (snd kv)"

lemma jmembers_encode:
  "kvs \<noteq> [] \<Longrightarrow> \<forall>kv \<in> set kvs. ascii (fst kv) \<and> reads h (snd kv) \<Longrightarrow> 2 * length (Join (map (member h) kvs) '','') + 1 \<le> n
   \<Longrightarrow> jmembers n (Join (map (member h) kvs) '','' @ CHR ''}'' # r) = Some (kvs, r)"
proof (induction kvs arbitrary: n)
  case (Cons kv kvs)
  then obtain m where n: "n = Suc m" by (cases n) auto
  obtain k v where kv: "kv = (k, v)" by (cases kv)
  show ?case
  proof (cases "kvs = []")
    case True
    then show ?thesis using Cons n kv by (simp add: readsD json_string_Cons jstr_json_string)
  next
    case False
    then show ?thesis using Cons n kv by (simp add: readsD Join_Cons2 json_string_Cons jstr_json_string)
  qed
qed simp

lemma encode_not_ws: "json_ascii v \<Longrightarrow> \<exists>c cs. json_encode h v = c # cs \<and> \<not> is_ws c \<and> c \<noteq> CHR '']'' \<and> c \<noteq> CHR ''}''"
proof (cases v)
  case (JInt n)
  obtain c cs where c: "Itoa n = c # cs" "c = CHR ''-'' \<or> isDecDigit c" using Itoa_Cons by blast
  have "\<not> isDecDigit (CHR '']'')" "\<not> isDecDigit (CHR ''}'')" by code_simp+
  then have "c \<noteq> CHR '']''" "c \<noteq> CHR ''}''" using c(2) by auto
  then show ?thesis using JInt c num_start [OF c(2)] by simp
qed (auto simp: is_ws_def json_string_def)

lemma Join_hd:
  "js \<noteq> [] \<Longrightarrow> \<forall>v \<in> set js. json_ascii v \<Longrightarrow>
   \<exists>c cs. Join (map (json_encode h) js) '','' = c # cs \<and> \<not> is_ws c \<and> c \<noteq> CHR '']''"
  using encode_not_ws [of "hd js" h] by (cases js; cases "tl js") auto

lemma Join_member_hd: "kvs \<noteq> [] \<Longrightarrow> \<exists>cs. Join (map (member h) kvs) '','' = QUOTE # cs"
  by (cases kvs; cases "tl kvs") (auto simp: json_string_def)

lemma reads_arr:
  assumes "list_all json_ascii js" and "\<forall>v \<in> set js. reads h v"
  shows "reads h (JArr js)"
  unfolding reads_def
proof (intro allI impI)
  fix n r
  assume n: "2 * length (json_encode h (JArr js)) \<le> n" and "stops r"
  then obtain m where m: "n = Suc m" by (cases n) auto
  show "jvalue n (json_encode h (JArr js) @ r) = Some (JArr js, r)"
  proof (cases "js = []")
    case True
    then show ?thesis using m by simp
  next
    case False
    let ?b = "Join (map (json_encode h) js) '',''"
    have "\<exists>c cs. ?b = c # cs \<and> \<not> is_ws c \<and> c \<noteq> CHR '']''"
      using Join_hd [OF False] assms(1) by (simp add: list_all_iff)
    then have "skip_ws (?b @ t) = ?b @ t" "hd (?b @ t) \<noteq> CHR '']''" for t by (auto simp: skip_ws_def)
    moreover have "jelems m (?b @ CHR '']'' # r) = Some (js, r)"
      using n m by (intro jelems_encode [OF False assms(2)]) simp
    ultimately show ?thesis using m by simp
  qed
qed

lemma reads_obj:
  assumes "\<forall>kv \<in> set kvs. ascii (fst kv) \<and> reads h (snd kv)"
  shows "reads h (JObj kvs)"
  unfolding reads_def
proof (intro allI impI)
  fix n r
  assume n: "2 * length (json_encode h (JObj kvs)) \<le> n" and "stops r"
  then obtain m where m: "n = Suc m" by (cases n) auto
  show "jvalue n (json_encode h (JObj kvs) @ r) = Some (JObj kvs, r)"
  proof (cases "kvs = []")
    case True
    then show ?thesis using m by simp
  next
    case False
    let ?b = "Join (map (member h) kvs) '',''"
    obtain cs where "?b = QUOTE # cs" using Join_member_hd [OF False] by blast
    then have "skip_ws (?b @ t) = ?b @ t" "hd (?b @ t) \<noteq> CHR ''}''" for t by simp_all
    moreover have "jmembers m (?b @ CHR ''}'' # r) = Some (kvs, r)"
      using n m by (intro jmembers_encode [OF False assms]) simp
    ultimately show ?thesis using m by simp
  qed
qed

lemma reads_str:
  assumes "ascii s"
  shows "reads h (JStr s)"
  unfolding reads_def
proof (intro allI impI)
  fix n r
  assume "2 * length (json_encode h (JStr s)) \<le> n"
  then obtain m where "n = Suc m" by (cases n) (auto simp: json_string_def)
  then show "jvalue n (json_encode h (JStr s) @ r) = Some (JStr s, r)"
    using assms by (simp add: json_string_Cons jstr_json_string)
qed

lemma reads_null: "reads h JNull"
  unfolding reads_def
proof (intro allI impI)
  fix n r
  assume "2 * length (json_encode h JNull) \<le> n"
  then obtain m where "n = Suc m" by (cases n) auto
  then show "jvalue n (json_encode h JNull @ r) = Some (JNull, r)" by (simp add: skip_ws_def is_ws_def)
qed

lemma reads_bool: "reads h (JBool b)"
  unfolding reads_def
proof (intro allI impI)
  fix n r
  assume "2 * length (json_encode h (JBool b)) \<le> n"
  then obtain m where "n = Suc m" by (cases n) (auto split: if_splits)
  then show "jvalue n (json_encode h (JBool b) @ r) = Some (JBool b, r)"
    by (cases b) (simp_all add: skip_ws_def is_ws_def)
qed

lemma reads_int: "reads h (JInt i)"
  unfolding reads_def
proof (intro allI impI)
  fix n r
  assume a: "2 * length (json_encode h (JInt i)) \<le> n" "stops r"
  moreover obtain c cs where "Itoa i = c # cs" using Itoa_Cons by blast
  ultimately obtain m where "n = Suc m" by (cases n) auto
  then show "jvalue n (json_encode h (JInt i) @ r) = Some (JInt i, r)" using a jvalue_Itoa by simp
qed

lemma reads_all: "json_ascii v \<Longrightarrow> reads h v"
proof (induction v rule: json_ascii.induct)
  case (3 js)
  then show ?case by (intro reads_arr) (auto simp: list_all_iff)
next
  case (4 kvs)
  then show ?case by (intro reads_obj) (auto simp: list_all_iff)
qed (simp_all add: reads_str reads_null reads_bool reads_int)

lemma json_parse_encode: "json_ascii v \<Longrightarrow> json_parse (json_encode h v @ [NL]) = Some v"
proof -
  assume "json_ascii v"
  then have "jvalue (2 * length (json_encode h v @ [NL]) + 2) (json_encode h v @ [NL]) = Some (v, [NL])"
    by (intro readsD [OF reads_all]) simp_all
  then show ?thesis by (simp add: json_parse_def skip_ws_def is_ws_def)
qed

section \<open>Keys\<close>

definition fold_char :: "char \<Rightarrow> nat" where
  "fold_char c = fold_rune (code c)"

lemma range_runes_ascii: "ascii s \<Longrightarrow> map snd (range_runes off s) = map code s"
proof (induction s arbitrary: off)
  case Nil
  show ?case by (simp add: range_runes.simps)
next
  case (Cons c s)
  then show ?case by (simp add: range_runes.simps [of off "c # s"] decode_multi_def ascii_def)
qed

lemma runes_ascii: "ascii s \<Longrightarrow> map fold_rune (runes s) = map fold_char s"
  by (simp add: runes_def range_runes_ascii fold_char_def)

lemma key_matches_refl [simp]: "key_matches a a"
  by (simp add: key_matches_def)

text \<open>Different lengths or different first letters tell two keys apart.\<close>

lemma key_matches_neq:
  assumes "ascii a" and "ascii b" and "length a \<noteq> length b \<or> fold_char (hd a) \<noteq> fold_char (hd b)" and "a \<noteq> []"
  shows "\<not> key_matches a b"
proof
  assume "key_matches a b"
  then have m: "map fold_char b = map fold_char a" using assms(1,2) by (simp add: key_matches_def runes_ascii)
  then have "length a = length b" by (metis length_map)
  moreover have "fold_char (hd a) = fold_char (hd b)" using m assms(4) by (cases a; cases b) auto
  ultimately show False using assms(3) by simp
qed

lemma fold_char_letters:
  "fold_char CHR ''c'' = 67" "fold_char CHR ''v'' = 86" "fold_char CHR ''s'' = 83" "fold_char CHR ''e'' = 69"
  "fold_char CHR ''d'' = 68" "fold_char CHR ''m'' = 77" "fold_char CHR ''p'' = 80" "fold_char CHR ''t'' = 84"
  "fold_char CHR ''f'' = 70" "fold_char CHR ''r'' = 82" "fold_char CHR ''j'' = 74" "fold_char CHR ''i'' = 73"
  by (simp_all add: fold_char_def fold_rune_def code_def)

lemma json_string_length: "ascii s \<Longrightarrow> length (json_string h s) \<le> 6 * length s + 2"
proof -
  have e: "length (json_escape_rune h (code c, [c])) \<le> 6" for c
    by (simp add: json_escape_rune_def)
  assume "ascii s"
  then have "length (concat (map (json_escape_rune h) (rune_pieces s))) \<le> 6 * length s"
  proof (induction s)
    case (Cons c s)
    then have "rune_pieces (c # s) = (code c, [c]) # rune_pieces s"
      by (simp add: ascii_def rune_pieces_ascii)
    then show ?case using Cons e [of c] by (simp add: ascii_def)
  qed simp
  then show ?thesis by (simp add: json_string_def)
qed

end
