(* ===== verification/Flags.thy ===== *)
theory Flags
  imports Gostd
begin

text \<open>
  The POSIX flag parser shared by the utilities: \<^verbatim>\<open>pkg/common/flags.go\<close>, \<^verbatim>\<open>compiled.go\<close> and the
  flag-error rendering of \<^verbatim>\<open>flagerr.go\<close>.  A Go map whose readers never test for presence is a total
  function holding the zero value outside its keys.
\<close>

section \<open>Data\<close>

datatype FlagType = FlagBool | FlagValue | FlagOptionalValue

record FlagDef =
  Short :: string
  Long :: string
  FlagTyp :: FlagType

record longEntry =
  entry_name :: string
  entry_index :: nat

record compiledSpec =
  shortIdx :: "int list"
  longIdx :: "longEntry list"
  cdefs :: "FlagDef list"
  stopAtFirst :: bool

record FlagError =
  ExitCode :: int
  Msg :: string

record FlagSpec =
  Defs :: "FlagDef list"
  StopAtFirstNonFlag :: bool
  PreProcess :: "(string list \<Rightarrow> FlagError + string list) option"
  compiled :: "compiledSpec option"

record ParseResult =
  Bools :: "string \<Rightarrow> bool"
  Values :: "string \<Rightarrow> string"
  ValuesList :: "string \<Rightarrow> string list"
  Count :: "string \<Rightarrow> int"
  Positional :: "string list"
  Stdin :: bool

definition newParseResult :: ParseResult where
  "newParseResult = \<lparr>Bools = (\<lambda>_. False), Values = (\<lambda>_. []), ValuesList = (\<lambda>_. []),
     Count = (\<lambda>_. 0), Positional = [], Stdin = False\<rparr>"

definition Has :: "ParseResult \<Rightarrow> string \<Rightarrow> bool" where
  "Has r name = Bools r name"

definition Get :: "ParseResult \<Rightarrow> string \<Rightarrow> string" where
  "Get r name = Values r name"

definition GetAll :: "ParseResult \<Rightarrow> string \<Rightarrow> string list" where
  "GetAll r name = ValuesList r name"

definition errf :: "int \<Rightarrow> string \<Rightarrow> FlagError" where
  "errf c msg = \<lparr>ExitCode = c, Msg = msg\<rparr>"

text \<open>The specification most utilities declare: no pre-processing, nothing compiled yet.\<close>

definition mkSpec :: "FlagDef list \<Rightarrow> FlagSpec" where
  "mkSpec ds = \<lparr>Defs = ds, StopAtFirstNonFlag = False, PreProcess = None, compiled = None\<rparr>"

definition mkFlag :: "string \<Rightarrow> string \<Rightarrow> FlagType \<Rightarrow> FlagDef" where
  "mkFlag s l t = \<lparr>Short = s, Long = l, FlagTyp = t\<rparr>"

section \<open>Compilation of a specification\<close>

definition int8 :: "nat \<Rightarrow> int" where
  "int8 i = (int i + 128) mod 256 - 128"

definition uint8 :: "nat \<Rightarrow> nat" where
  "uint8 i = i mod 256"

fun compile_defs :: "nat \<Rightarrow> FlagDef list \<Rightarrow> int list \<Rightarrow> longEntry list \<Rightarrow> int list \<times> longEntry list" where
  "compile_defs i [] sh lg = (sh, lg)"
| "compile_defs i (d # ds) sh lg =
     compile_defs (Suc i) ds
       (if Short d \<noteq> [] \<and> code (hd (Short d)) < 128 then sh[code (hd (Short d)) := int8 i] else sh)
       (if Long d \<noteq> [] then lg @ [\<lparr>entry_name = Long d, entry_index = uint8 i\<rparr>] else lg)"

definition compile :: "FlagSpec \<Rightarrow> compiledSpec" where
  "compile s =
     (let (sh, lg) = compile_defs 0 (Defs s) (replicate 128 (- 1)) []
      in \<lparr>shortIdx = sh, longIdx = lg, cdefs = Defs s, stopAtFirst = StopAtFirstNonFlag s\<rparr>)"

text \<open>The compiled table together with the specification whose cache field was written.\<close>

definition getOrCompile :: "FlagSpec \<Rightarrow> compiledSpec \<times> FlagSpec" where
  "getOrCompile s =
     (case compiled s of
        Some cs \<Rightarrow> (cs, s)
      | None \<Rightarrow> (let cs = compile s in (cs, s\<lparr>compiled := Some cs\<rparr>)))"

definition lookupShort :: "compiledSpec \<Rightarrow> char \<Rightarrow> FlagDef option" where
  "lookupShort cs b =
     (if 128 \<le> code b then None
      else let idx = shortIdx cs ! code b
           in if idx < 0 then None else Some (cdefs cs ! nat idx))"

definition lookupLong :: "compiledSpec \<Rightarrow> string \<Rightarrow> FlagDef option" where
  "lookupLong cs name =
     map_option (\<lambda>e. cdefs cs ! entry_index e) (find (\<lambda>e. entry_name e = name) (longIdx cs))"

section \<open>Parsing\<close>

definition mark_bool :: "string \<Rightarrow> ParseResult \<Rightarrow> ParseResult" where
  "mark_bool k r = r\<lparr>Bools := (Bools r)(k := True), Count := (Count r)(k := Count r k + 1)\<rparr>"

definition put_value :: "string \<Rightarrow> string \<Rightarrow> ParseResult \<Rightarrow> ParseResult" where
  "put_value k v r =
     r\<lparr>Values := (Values r)(k := v),
       ValuesList := (ValuesList r)(k := ValuesList r k @ [v]),
       Bools := (Bools r)(k := True)\<rparr>"

definition record_bool :: "FlagDef \<Rightarrow> ParseResult \<Rightarrow> ParseResult" where
  "record_bool cf r =
     (let r1 = mark_bool (Short cf) r
      in if Long cf \<noteq> [] then mark_bool (Long cf) r1 else r1)"

definition record_value :: "FlagDef \<Rightarrow> string \<Rightarrow> ParseResult \<Rightarrow> ParseResult" where
  "record_value cf v r =
     (let r1 = (if Short cf \<noteq> [] then put_value (Short cf) v r else r)
      in if Long cf \<noteq> [] then put_value (Long cf) v r1 else r1)"

text \<open>The scan for an inline equals sign: the name, and the value when there is one.\<close>

fun scan_eq :: "string \<Rightarrow> string \<times> string option" where
  "scan_eq [] = ([], None)"
| "scan_eq (c # cs) =
     (if c = CHR ''='' then ([], Some cs)
      else (let (n, v) = scan_eq cs in (c # n, v)))"

definition parseLong :: "compiledSpec \<Rightarrow> string list \<Rightarrow> nat \<Rightarrow> ParseResult \<Rightarrow> FlagError + nat \<times> ParseResult" where
  "parseLong cs args i res =
     (let (name, inline) = scan_eq (drop 2 (args ! i))
      in case lookupLong cs name of
           None \<Rightarrow> Inl (errf 2 (''unknown flag: --'' @ name))
         | Some cf \<Rightarrow>
             if FlagTyp cf = FlagBool then Inr (i + 1, record_bool cf res)
             else
               (let store = (\<lambda>v. put_value (Long cf) v
                                 (if Short cf \<noteq> [] then put_value (Short cf) v res else res))
                in case inline of
                     Some v \<Rightarrow> Inr (i + 1, store v)
                   | None \<Rightarrow>
                       if FlagTyp cf = FlagOptionalValue then Inr (i + 1, store [])
                       else if length args \<le> i + 1
                       then Inl (errf 2 (''flag --'' @ name @ '' requires a value''))
                       else Inr (i + 2, store (args ! (i + 1)))))"

fun parseShort_chars ::
  "compiledSpec \<Rightarrow> string list \<Rightarrow> nat \<Rightarrow> string \<Rightarrow> ParseResult \<Rightarrow> FlagError + nat \<times> ParseResult" where
  "parseShort_chars cs args i [] res = Inr (i + 1, res)"
| "parseShort_chars cs args i (b # remainder) res =
     (case lookupShort cs b of
        None \<Rightarrow> Inl (errf 2 (''unknown flag: -'' @ encodeRune (code b)))
      | Some cf \<Rightarrow>
          if FlagTyp cf = FlagBool then parseShort_chars cs args i remainder (record_bool cf res)
          else if remainder \<noteq> [] then Inr (i + 1, record_value cf remainder res)
          else if FlagTyp cf = FlagOptionalValue then Inr (i + 1, record_value cf [] res)
          else if length args \<le> i + 1
          then Inl (errf 2 (''flag -'' @ Short cf @ '' requires a value''))
          else Inr (i + 2, record_value cf (args ! (i + 1)) res))"

definition parseShort :: "compiledSpec \<Rightarrow> string list \<Rightarrow> nat \<Rightarrow> ParseResult \<Rightarrow> FlagError + nat \<times> ParseResult" where
  "parseShort cs args i res = parseShort_chars cs args i (drop 1 (args ! i)) res"

definition add_pos :: "string list \<Rightarrow> ParseResult \<Rightarrow> ParseResult" where
  "add_pos xs r = r\<lparr>Positional := Positional r @ xs\<rparr>"

lemma parseLong_progress: "parseLong cs args i res = Inr (ni, r) \<Longrightarrow> ni = i + 1 \<or> ni = i + 2"
  by (auto simp: parseLong_def Let_def split: prod.splits option.splits if_splits)

lemma parseShort_chars_progress:
  "parseShort_chars cs args i chars res = Inr (ni, r) \<Longrightarrow> ni = i + 1 \<or> ni = i + 2"
  by (induction chars arbitrary: res) (auto split: option.splits if_splits)

lemma parseShort_progress: "parseShort cs args i res = Inr (ni, r) \<Longrightarrow> ni = i + 1 \<or> ni = i + 2"
  unfolding parseShort_def by (rule parseShort_chars_progress)

function parse_loop :: "compiledSpec \<Rightarrow> string list \<Rightarrow> nat \<Rightarrow> ParseResult \<Rightarrow> FlagError + ParseResult" where
  "parse_loop cs args i res =
     (if length args \<le> i then Inr res
      else
        (let arg = args ! i
         in if arg = ''--'' then Inr (add_pos (drop (i + 1) args) res)
            else if arg = ''-'' then parse_loop cs args (i + 1) (add_pos [''-''] (res\<lparr>Stdin := True\<rparr>))
            else if length arg < 2 \<or> hd arg \<noteq> CHR ''-'' then
              (if stopAtFirst cs then Inr (add_pos (drop i args) res)
               else parse_loop cs args (i + 1) (add_pos [arg] res))
            else if arg ! 1 = CHR ''-'' then
              (case parseLong cs args i res of
                 Inl e \<Rightarrow> Inl e
               | Inr (ni, r) \<Rightarrow> parse_loop cs args ni r)
            else
              (case parseShort cs args i res of
                 Inl e \<Rightarrow> Inl e
               | Inr (ni, r) \<Rightarrow> parse_loop cs args ni r)))"
  by pat_completeness auto
termination
  by (relation "measure (\<lambda>(cs, args, i, res). length args - i)")
     (auto dest: parseLong_progress parseShort_progress)

declare parse_loop.simps [simp del]

definition ParseFlags :: "string list \<Rightarrow> FlagSpec \<Rightarrow> FlagError + ParseResult" where
  "ParseFlags args spec =
     (case (case PreProcess spec of None \<Rightarrow> Inr args | Some f \<Rightarrow> f args) of
        Inl e \<Rightarrow> Inl e
      | Inr args' \<Rightarrow> parse_loop (fst (getOrCompile spec)) args' 0 newParseResult)"

definition HasJSONFlag :: "string list \<Rightarrow> bool" where
  "HasJSONFlag args = list_ex (\<lambda>a. a = ''--json'') args"

section \<open>Compilation is safe\<close>

lemma int8_less: "0 \<le> int8 i \<Longrightarrow> int8 i \<le> int i"
  using zmod_le_nonneg_dividend [of "int i + 128" 256] by (simp add: int8_def)

definition short_ok :: "nat \<Rightarrow> int list \<Rightarrow> bool" where
  "short_ok n sh \<longleftrightarrow> length sh = 128 \<and> (\<forall>x \<in> set sh. x < int n)"

definition long_ok :: "nat \<Rightarrow> longEntry list \<Rightarrow> bool" where
  "long_ok n lg \<longleftrightarrow> (\<forall>e \<in> set lg. entry_index e < n)"

lemma short_ok_update: "short_ok n sh \<Longrightarrow> i < n \<Longrightarrow> short_ok n (sh[k := int8 i])"
proof -
  assume ok: "short_ok n sh" and i: "i < n"
  have "int8 i < int n" using i int8_less [of i] by (cases "0 \<le> int8 i") auto
  then show ?thesis using ok set_update_subset_insert [of sh k "int8 i"]
    by (auto simp: short_ok_def)
qed

lemma long_ok_snoc: "long_ok n lg \<Longrightarrow> i < n \<Longrightarrow> long_ok n (lg @ [\<lparr>entry_name = l, entry_index = uint8 i\<rparr>])"
  by (auto simp: long_ok_def uint8_def intro: le_less_trans [OF mod_less_eq_dividend])

lemma compile_defs_ok:
  "compile_defs i ds sh lg = (sh', lg') \<Longrightarrow> short_ok n sh \<Longrightarrow> long_ok n lg \<Longrightarrow> i + length ds \<le> n
   \<Longrightarrow> short_ok n sh' \<and> long_ok n lg'"
proof (induction ds arbitrary: i sh lg)
  case Nil
  then show ?case by simp
next
  case (Cons d ds)
  let ?sh = "if Short d \<noteq> [] \<and> code (hd (Short d)) < 128 then sh[code (hd (Short d)) := int8 i] else sh"
  let ?lg = "if Long d \<noteq> [] then lg @ [\<lparr>entry_name = Long d, entry_index = uint8 i\<rparr>] else lg"
  have "short_ok n ?sh" and "long_ok n ?lg"
    using Cons.prems by (auto intro: short_ok_update long_ok_snoc)
  with Cons.IH [of "Suc i" ?sh ?lg] Cons.prems show ?case by simp
qed

lemma compile_ok:
  "short_ok (Suc (length (Defs s))) (shortIdx (compile s)) \<and>
   (Defs s \<noteq> [] \<longrightarrow> short_ok (length (Defs s)) (shortIdx (compile s))) \<and>
   long_ok (length (Defs s)) (longIdx (compile s))"
proof -
  obtain sh lg where c: "compile_defs 0 (Defs s) (replicate 128 (- 1)) [] = (sh, lg)"
    by fastforce
  have s0: "short_ok m (replicate 128 (- 1))" for m by (simp add: short_ok_def)
  have l0: "long_ok m []" for m by (simp add: long_ok_def)
  show ?thesis
    using compile_defs_ok [OF c s0 l0, of "length (Defs s)"]
      compile_defs_ok [OF c s0 l0, of "Suc (length (Defs s))"] c
    by (simp add: compile_def)
qed

lemma compile_cdefs [simp]: "cdefs (compile s) = Defs s" "stopAtFirst (compile s) = StopAtFirstNonFlag s"
  by (simp_all add: compile_def split: prod.split)

lemma lookupShort_in_Defs: "lookupShort (compile s) b = Some cf \<Longrightarrow> cf \<in> set (Defs s)"
proof -
  assume l: "lookupShort (compile s) b = Some cf"
  then have b: "code b < 128" and idx: "0 \<le> shortIdx (compile s) ! code b"
    and cf: "cf = Defs s ! nat (shortIdx (compile s) ! code b)"
    by (auto simp: lookupShort_def Let_def split: if_splits)
  have mem: "shortIdx (compile s) ! code b \<in> set (shortIdx (compile s))"
    using b compile_ok [of s] by (simp add: short_ok_def)
  have "Defs s \<noteq> []"
  proof
    assume "Defs s = []"
    then have "shortIdx (compile s) ! code b = -1" using b by (simp add: compile_def)
    with idx show False by simp
  qed
  with mem compile_ok [of s] have "shortIdx (compile s) ! code b < int (length (Defs s))"
    by (simp add: short_ok_def)
  with idx cf show ?thesis by (simp add: nat_less_iff)
qed

lemma lookupLong_in_Defs: "lookupLong (compile s) n = Some cf \<Longrightarrow> cf \<in> set (Defs s)"
  using compile_ok [of s]
  by (auto simp: lookupLong_def long_ok_def find_Some_iff)

section \<open>The parser reads its arguments from left to right\<close>

abbreviation is_long_arg :: "string \<Rightarrow> bool" where
  "is_long_arg a \<equiv> 2 \<le> length a \<and> hd a = CHR ''-'' \<and> a ! 1 = CHR ''-'' \<and> a \<noteq> ''--''"

abbreviation is_short_arg :: "string \<Rightarrow> bool" where
  "is_short_arg a \<equiv> 2 \<le> length a \<and> hd a = CHR ''-'' \<and> a ! 1 \<noteq> CHR ''-''"

definition shift :: "nat \<Rightarrow> FlagError + nat \<times> ParseResult \<Rightarrow> FlagError + nat \<times> ParseResult" where
  "shift k m = (case m of Inl e \<Rightarrow> Inl e | Inr (n, r) \<Rightarrow> Inr (n + k, r))"

lemma nth_drop_0: "i < length xs \<Longrightarrow> drop i xs ! 0 = xs ! i"
  by simp

lemma parseLong_drop:
  assumes "i < length args"
  shows "parseLong cs args i res = shift i (parseLong cs (drop i args) 0 res)"
proof -
  have le: "length args - i \<le> Suc 0 \<longleftrightarrow> length args \<le> Suc i" by arith
  obtain name inline where sc: "scan_eq (drop 2 (args ! i)) = (name, inline)" by fastforce
  show ?thesis
  proof (cases "lookupLong cs name")
    case None
    with sc assms show ?thesis by (simp add: parseLong_def shift_def)
  next
    case (Some cf)
    with sc assms show ?thesis
      by (cases inline; cases "FlagTyp cf") (simp_all add: parseLong_def shift_def Let_def le)
  qed
qed

lemma parseShort_chars_drop:
  assumes "i < length args"
  shows "parseShort_chars cs args i chars res = shift i (parseShort_chars cs (drop i args) 0 chars res)"
proof (induction chars arbitrary: res)
  case Nil
  show ?case by (simp add: shift_def)
next
  case (Cons b chars)
  have le: "length args - i \<le> Suc 0 \<longleftrightarrow> length args \<le> Suc i" by arith
  show ?case
  proof (cases "lookupShort cs b")
    case None
    then show ?thesis by (simp add: shift_def)
  next
    case (Some cf)
    with Cons assms show ?thesis by (cases "FlagTyp cf") (simp_all add: shift_def le)
  qed
qed

lemma parseShort_drop:
  "i < length args \<Longrightarrow> parseShort cs args i res = shift i (parseShort cs (drop i args) 0 res)"
  using parseShort_chars_drop [of i args] by (simp add: parseShort_def)

lemma parse_loop_end [simp]: "length args \<le> i \<Longrightarrow> parse_loop cs args i res = Inr res"
  by (simp add: parse_loop.simps)

lemma parse_loop_drop: "parse_loop cs args i res = parse_loop cs (drop i args) 0 res"
proof (induction "length args - i" arbitrary: args i res rule: less_induct)
  case less
  show ?case
  proof (cases "i < length args")
    case False
    then show ?thesis by simp
  next
    case True
    let ?a = "drop i args"
    have step: "parse_loop cs args (n + i) r = parse_loop cs ?a n r" if "0 < n" for n r
    proof -
      have "parse_loop cs args (n + i) r = parse_loop cs (drop (n + i) args) 0 r"
        using that True by (intro less) simp
      moreover have "parse_loop cs ?a n r = parse_loop cs (drop n ?a) 0 r"
      proof (cases "i = 0")
        case True
        with \<open>i < length args\<close> that show ?thesis using less [of args n r] by simp
      next
        case False
        with \<open>i < length args\<close> that show ?thesis using less [of ?a n r] by simp
      qed
      ultimately show ?thesis by (simp add: add.commute)
    qed
    have step1: "parse_loop cs args (Suc i) r = parse_loop cs ?a (Suc 0) r" for r
      using step [of 1] by simp
    have long: "(case shift i (parseLong cs ?a 0 res) of Inl e \<Rightarrow> Inl e | Inr (ni, r) \<Rightarrow> parse_loop cs args ni r)
      = (case parseLong cs ?a 0 res of Inl e \<Rightarrow> Inl e | Inr (ni, r) \<Rightarrow> parse_loop cs ?a ni r)"
      by (auto simp: shift_def split: sum.split dest!: parseLong_progress intro!: step)
    have short: "(case shift i (parseShort cs ?a 0 res) of Inl e \<Rightarrow> Inl e | Inr (ni, r) \<Rightarrow> parse_loop cs args ni r)
      = (case parseShort cs ?a 0 res of Inl e \<Rightarrow> Inl e | Inr (ni, r) \<Rightarrow> parse_loop cs ?a ni r)"
      by (auto simp: shift_def split: sum.split dest!: parseShort_progress intro!: step)
    have "parse_loop cs ?a 0 res =
       (let arg = args ! i
         in if arg = ''--'' then Inr (add_pos (drop (i + 1) args) res)
            else if arg = ''-'' then parse_loop cs ?a (0 + 1) (add_pos [''-''] (res\<lparr>Stdin := True\<rparr>))
            else if length arg < 2 \<or> hd arg \<noteq> CHR ''-'' then
              (if stopAtFirst cs then Inr (add_pos (drop i args) res)
               else parse_loop cs ?a (0 + 1) (add_pos [arg] res))
            else if arg ! 1 = CHR ''-'' then
              (case parseLong cs ?a 0 res of
                 Inl e \<Rightarrow> Inl e
               | Inr (ni, r) \<Rightarrow> parse_loop cs ?a ni r)
            else
              (case parseShort cs ?a 0 res of
                 Inl e \<Rightarrow> Inl e
               | Inr (ni, r) \<Rightarrow> parse_loop cs ?a ni r))"
      using True by (subst parse_loop.simps) (simp add: Let_def)
    then show ?thesis
      using True by (subst parse_loop.simps)
        (simp add: Let_def parseLong_drop [OF True] parseShort_drop [OF True] long short step1)
  qed
qed

lemma parse_loop_unfold:
  "parse_loop cs (a # rest) 0 res =
     (if a = ''--'' then Inr (add_pos rest res)
      else if a = ''-'' then parse_loop cs rest 0 (add_pos [''-''] (res\<lparr>Stdin := True\<rparr>))
      else if length a < 2 \<or> hd a \<noteq> CHR ''-'' then
        (if stopAtFirst cs then Inr (add_pos (a # rest) res)
         else parse_loop cs rest 0 (add_pos [a] res))
      else
        (case (if a ! 1 = CHR ''-'' then parseLong cs (a # rest) 0 res
               else parseShort cs (a # rest) 0 res) of
           Inl e \<Rightarrow> Inl e
         | Inr (n, r) \<Rightarrow> parse_loop cs (drop n (a # rest)) 0 r))"
proof -
  have d: "parse_loop cs (x # rest) (Suc 0) r = parse_loop cs rest 0 r" for x r
    using parse_loop_drop [of cs "x # rest" "Suc 0"] by simp
  have c: "(case m of Inl e \<Rightarrow> Inl e | Inr (n, r) \<Rightarrow> parse_loop cs (a # rest) n r)
         = (case m of Inl e \<Rightarrow> Inl e | Inr (n, r) \<Rightarrow> parse_loop cs (drop n (a # rest)) 0 r)" for m
    by (cases m) (auto intro: parse_loop_drop)
  show ?thesis
    by (subst parse_loop.simps) (simp add: Let_def c d)
qed

text \<open>One option argument, short or long, at the head of the argument list.\<close>

definition parse_opt :: "compiledSpec \<Rightarrow> string list \<Rightarrow> ParseResult \<Rightarrow> FlagError + nat \<times> ParseResult" where
  "parse_opt cs args res =
     (if hd args ! 1 = CHR ''-'' then parseLong cs args 0 res else parseShort cs args 0 res)"

definition is_opt :: "string \<Rightarrow> bool" where
  "is_opt a \<longleftrightarrow> 2 \<le> length a \<and> hd a = CHR ''-'' \<and> a \<noteq> ''--''"

lemma parse_loop_opt:
  "is_opt a \<Longrightarrow> parse_loop cs (a # rest) 0 res =
     (case parse_opt cs (a # rest) res of
        Inl e \<Rightarrow> Inl e
      | Inr (n, r) \<Rightarrow> parse_loop cs (drop n (a # rest)) 0 r)"
  by (subst parse_loop_unfold) (auto simp: is_opt_def parse_opt_def)

text \<open>An operand is recorded and parsing goes on after it; a lone dash also marks standard input.\<close>

lemma parse_loop_operand:
  "\<not> is_opt a \<Longrightarrow> a \<noteq> ''--'' \<Longrightarrow> \<not> stopAtFirst cs \<or> a = ''-'' \<Longrightarrow>
   parse_loop cs (a # rest) 0 res = parse_loop cs rest 0 (add_pos [a] (res\<lparr>Stdin := Stdin res \<or> a = ''-''\<rparr>))"
  by (subst parse_loop_unfold) (auto simp: is_opt_def not_le)

lemma parse_loop_dashdash: "parse_loop cs (''--'' # rest) 0 res = Inr (add_pos rest res)"
  by (subst parse_loop_unfold) simp

lemma parse_loop_stop:
  "stopAtFirst cs \<Longrightarrow> \<not> is_opt a \<Longrightarrow> a \<noteq> ''-'' \<Longrightarrow> a \<noteq> ''--'' \<Longrightarrow>
   parse_loop cs (a # rest) 0 res = Inr (add_pos (a # rest) res)"
  by (subst parse_loop_unfold) (auto simp: is_opt_def not_le)

section \<open>Equivalent spellings\<close>

definition bool_short :: "compiledSpec \<Rightarrow> char \<Rightarrow> bool" where
  "bool_short cs b \<longleftrightarrow> (case lookupShort cs b of None \<Rightarrow> False | Some cf \<Rightarrow> FlagTyp cf = FlagBool)"

definition value_short :: "compiledSpec \<Rightarrow> char \<Rightarrow> bool" where
  "value_short cs b \<longleftrightarrow> (case lookupShort cs b of None \<Rightarrow> False | Some cf \<Rightarrow> FlagTyp cf = FlagValue)"

definition value_long :: "compiledSpec \<Rightarrow> string \<Rightarrow> bool" where
  "value_long cs n \<longleftrightarrow> (case lookupLong cs n of None \<Rightarrow> False | Some cf \<Rightarrow> FlagTyp cf = FlagValue)"

definition record_bools :: "compiledSpec \<Rightarrow> string \<Rightarrow> ParseResult \<Rightarrow> ParseResult" where
  "record_bools cs cl = fold (\<lambda>b. record_bool (the (lookupShort cs b))) cl"

lemma parseShort_chars_bools:
  "list_all (bool_short cs) cl \<Longrightarrow>
   parseShort_chars cs args i cl res = Inr (i + 1, record_bools cs cl res)"
  by (induction cl arbitrary: res)
     (auto simp: bool_short_def record_bools_def split: option.splits)

lemma parse_cluster:
  assumes "cl \<noteq> []" and "list_all (bool_short cs) cl" and "hd cl \<noteq> CHR ''-''"
  shows "parse_loop cs ((CHR ''-'' # cl) # rest) 0 res = parse_loop cs rest 0 (record_bools cs cl res)"
proof -
  have "is_opt (CHR ''-'' # cl)" and "(CHR ''-'' # cl) ! 1 \<noteq> CHR ''-''"
    using assms by (cases cl; auto simp: is_opt_def)+
  then show ?thesis
    using assms by (simp add: parse_loop_opt parse_opt_def parseShort_def parseShort_chars_bools)
qed

lemma parse_singles:
  assumes "list_all (\<lambda>b. bool_short cs b \<and> b \<noteq> CHR ''-'') cl"
  shows "parse_loop cs (map (\<lambda>b. [CHR ''-'', b]) cl @ rest) 0 res
         = parse_loop cs rest 0 (record_bools cs cl res)"
  using assms
proof (induction cl arbitrary: res)
  case Nil
  then show ?case by (simp add: record_bools_def)
next
  case (Cons b cl)
  then have "parse_loop cs ((CHR ''-'' # [b]) # (map (\<lambda>b. [CHR ''-'', b]) cl @ rest)) 0 res
      = parse_loop cs (map (\<lambda>b. [CHR ''-'', b]) cl @ rest) 0 (record_bools cs [b] res)"
    by (intro parse_cluster) auto
  with Cons show ?case by (simp add: record_bools_def)
qed

text \<open>
  Grouped boolean options are the separate options: wherever the parser stands, an argument
  \<^verbatim>\<open>-abc\<close> made of boolean flags leads to the same outcome as \<^verbatim>\<open>-a -b -c\<close>, whatever follows it and
  whatever has been parsed before.
\<close>

theorem ParseFlags_cluster:
  assumes "cl \<noteq> []" and "list_all (\<lambda>b. bool_short cs b \<and> b \<noteq> CHR ''-'') cl"
  shows "parse_loop cs ((CHR ''-'' # cl) # rest) 0 res
         = parse_loop cs (map (\<lambda>b. [CHR ''-'', b]) cl @ rest) 0 res"
proof -
  have "list_all (bool_short cs) cl" and "hd cl \<noteq> CHR ''-''"
    using assms by (auto simp: list_all_iff)
  with assms show ?thesis by (simp add: parse_cluster parse_singles)
qed

lemma scan_eq_no_eq: "CHR ''='' \<notin> set n \<Longrightarrow> scan_eq n = (n, None)"
  by (induction n) auto

lemma scan_eq_eq: "CHR ''='' \<notin> set n \<Longrightarrow> scan_eq (n @ CHR ''='' # v) = (n, Some v)"
  by (induction n) auto

lemma parse_long_attached:
  assumes "value_long cs n" and "CHR ''='' \<notin> set n" and "n \<noteq> []"
  shows "parse_loop cs ((''--'' @ n @ ''='' @ v) # rest) 0 res = parse_loop cs ((''--'' @ n) # v # rest) 0 res"
proof -
  obtain cf where cf: "lookupLong cs n = Some cf" "FlagTyp cf = FlagValue"
    using assms(1) by (auto simp: value_long_def split: option.splits)
  show ?thesis
    using assms cf
    by (simp add: parse_loop_opt is_opt_def parse_opt_def parseLong_def scan_eq_no_eq scan_eq_eq Let_def)
qed

lemma parse_short_attached:
  assumes "value_short cs b" and "b \<noteq> CHR ''-''" and "v \<noteq> []"
  shows "parse_loop cs ((CHR ''-'' # b # v) # rest) 0 res = parse_loop cs ([CHR ''-'', b] # v # rest) 0 res"
proof -
  obtain cf where cf: "lookupShort cs b = Some cf" "FlagTyp cf = FlagValue"
    using assms(1) by (auto simp: value_short_def split: option.splits)
  show ?thesis
    using assms cf by (simp add: parse_loop_opt is_opt_def parse_opt_def parseShort_def)
qed

section \<open>End of options, positional arguments and errors\<close>

lemma parseLong_append:
  assumes "parseLong cs (a # rest) 0 res = Inr (n, r)"
  shows "parseLong cs (a # rest @ xs) 0 res = Inr (n, r) \<and> 0 < n \<and> n \<le> Suc (length rest)"
proof -
  obtain name inline where sc: "scan_eq (drop 2 a) = (name, inline)" by fastforce
  from assms sc obtain cf where cf: "lookupLong cs name = Some cf"
    by (cases "lookupLong cs name") (simp_all add: parseLong_def)
  show ?thesis
    using assms sc cf
    by (cases rest; cases inline; cases "FlagTyp cf") (simp_all add: parseLong_def Let_def, auto)
qed

lemma parseShort_chars_append:
  assumes "parseShort_chars cs (a # rest) 0 chars res = Inr (n, r)"
  shows "parseShort_chars cs (a # rest @ xs) 0 chars res = Inr (n, r) \<and> 0 < n \<and> n \<le> Suc (length rest)"
  using assms
proof (induction chars arbitrary: res)
  case Nil
  then show ?case by auto
next
  case (Cons c chars)
  then obtain cf where cf: "lookupShort cs c = Some cf"
    by (cases "lookupShort cs c") simp_all
  with Cons show ?case
    by (cases rest) (auto split: if_splits)
qed

lemma parse_opt_append:
  "parse_opt cs (a # rest) res = Inr (n, r) \<Longrightarrow>
   parse_opt cs (a # rest @ xs) res = Inr (n, r) \<and> 0 < n \<and> n \<le> Suc (length rest)"
  by (auto simp: parse_opt_def parseShort_def
      dest: parseLong_append [where xs = xs] parseShort_chars_append [where xs = xs] split: if_splits)

lemma not_in_set_drop: "x \<notin> set xs \<Longrightarrow> x \<notin> set (drop n xs)"
  by (meson in_set_dropD)

lemma parse_loop_terminator:
  assumes "parse_loop cs args 0 res = Inr r" and "''--'' \<notin> set args" and "\<not> stopAtFirst cs"
  shows "parse_loop cs (args @ ''--'' # xs) 0 res = Inr (add_pos xs r)"
  using assms(1,2)
proof (induction "length args" arbitrary: args res rule: less_induct)
  case less
  show ?case
  proof (cases args)
    case Nil
    with less.prems show ?thesis by (simp add: parse_loop_unfold)
  next
    case (Cons a rest)
    show ?thesis
    proof (cases "is_opt a")
      case True
      with less.prems Cons obtain n s where
        o: "parse_opt cs args res = Inr (n, s)" and l: "parse_loop cs (drop n args) 0 s = Inr r"
        by (auto simp: parse_loop_opt split: sum.splits)
      from parse_opt_append [OF o [unfolded Cons], of "''--'' # xs"] Cons
      have o': "parse_opt cs (args @ ''--'' # xs) res = Inr (n, s)" and n: "0 < n" "n \<le> length args"
        by auto
      have "parse_loop cs (drop n args @ ''--'' # xs) 0 s = Inr (add_pos xs r)"
        using less.hyps [OF _ l] n less.prems(2) by (simp add: not_in_set_drop)
      with o' n True Cons show ?thesis by (cases n) (simp_all add: parse_loop_opt)
    next
      case False
      moreover have "a \<noteq> ''--''" using less.prems(2) Cons by auto
      ultimately show ?thesis
        using less.hyps [of rest] less.prems Cons assms(3) by (simp add: parse_loop_operand)
    qed
  qed
qed

text \<open>
  The end-of-options marker: if an argument list parses on its own, then appending \<^verbatim>\<open>--\<close> and any
  further arguments parses too, and adds exactly those arguments, untouched, as operands; no flag in
  them is recognised.
\<close>

theorem ParseFlags_end_of_options:
  assumes "ParseFlags args spec = Inr r" and "PreProcess spec = None"
    and "\<not> stopAtFirst (fst (getOrCompile spec))" and "''--'' \<notin> set args"
  shows "ParseFlags (args @ [''--''] @ xs) spec = Inr (add_pos xs r)"
  using assms parse_loop_terminator [of "fst (getOrCompile spec)" args newParseResult r xs]
  by (simp add: ParseFlags_def)

text \<open>Facts kept by every recording step: the operands are only ever extended.\<close>

lemma Positional_record [simp]:
  "Positional (mark_bool k r) = Positional r" "Positional (put_value k v r) = Positional r"
  "Positional (record_bool cf r) = Positional r" "Positional (record_value cf v r) = Positional r"
  by (simp_all add: mark_bool_def put_value_def record_bool_def record_value_def Let_def)

lemma parseLong_Positional: "parseLong cs args i res = Inr (n, r) \<Longrightarrow> Positional r = Positional res"
  by (auto simp: parseLong_def Let_def split: prod.splits option.splits if_splits)

lemma parseShort_Positional:
  "parseShort_chars cs args i chars res = Inr (n, r) \<Longrightarrow> Positional r = Positional res"
  by (induction chars arbitrary: res) (auto split: option.splits if_splits)

lemma parse_opt_Positional: "parse_opt cs args res = Inr (n, r) \<Longrightarrow> Positional r = Positional res"
  by (auto simp: parse_opt_def parseShort_def dest: parseLong_Positional parseShort_Positional
      split: if_splits)

text \<open>
  C35. An option's value may be attached or separate: for a short and a long option that require a value, \<^verbatim>\<open>-ovalue\<close> parses
  as \<^verbatim>\<open>-o value\<close> (for a non-empty value), and \<^verbatim>\<open>--name=value\<close> parses as \<^verbatim>\<open>--name value\<close> (for any
  value), in any parser state and whatever follows.
\<close>

theorem ParseFlags_attached_value:
  assumes "value_short cs b" and "b \<noteq> CHR ''-''" and "v \<noteq> []"
    and "value_long cs n" and "CHR ''='' \<notin> set n" and "n \<noteq> []"
  shows "parse_loop cs ((CHR ''-'' # b # v) # rest) 0 res = parse_loop cs ([CHR ''-'', b] # v # rest) 0 res
    \<and> parse_loop cs ((''--'' @ n @ ''='' @ w) # rest) 0 res = parse_loop cs ((''--'' @ n) # w # rest) 0 res"
  using parse_short_attached [OF assms(1-3)] parse_long_attached [OF assms(4-6)] by blast

text \<open>The reference for mixed arguments: how many arguments an option takes, and the arguments taken apart into the options with
  their values, the operands in their order, and whether a lone dash is among them.\<close>

fun short_width :: "compiledSpec \<Rightarrow> string \<Rightarrow> nat" where
  "short_width cs [] = 1"
| "short_width cs (b # bs) =
     (case lookupShort cs b of
        None \<Rightarrow> 1
      | Some cf \<Rightarrow> if FlagTyp cf = FlagBool then short_width cs bs else if FlagTyp cf = FlagValue \<and> bs = [] then 2 else 1)"

definition opt_width :: "compiledSpec \<Rightarrow> string \<Rightarrow> nat" where
  "opt_width cs a =
     (if a ! 1 = CHR ''-'' then (if value_long cs (drop 2 a) \<and> CHR ''='' \<notin> set a then 2 else 1) else short_width cs (tl a))"

function split_args :: "compiledSpec \<Rightarrow> string list \<Rightarrow> string list \<times> string list \<times> bool" where
  "split_args cs [] = ([], [], False)"
| "split_args cs (a # rest) =
     (if a = ''--'' then ([], rest, False)
      else if is_opt a then
        (let n = opt_width cs a - 1; (os, ps, d) = split_args cs (drop n rest) in (a # take n rest @ os, ps, d))
      else if stopAtFirst cs \<and> a \<noteq> ''-'' then ([], a # rest, False)
      else (let (os, ps, d) = split_args cs rest in (os, a # ps, a = ''-'' \<or> d)))"
  by pat_completeness auto
termination by (relation "measure (\<lambda>(cs, args). length args)") auto

declare split_args.simps(2) [simp del]

lemma scan_eq_split: "scan_eq s = (if CHR ''='' \<in> set s then (takeWhile (\<lambda>c. c \<noteq> CHR ''='') s, Some (tl (dropWhile (\<lambda>c. c \<noteq> CHR ''='') s))) else (s, None))"
  by (induction s) (auto simp: Let_def)

lemma short_width_pos: "short_width cs bs = 1 \<or> short_width cs bs = 2"
  by (induction bs) (auto split: option.splits)

lemma opt_width_pos: "opt_width cs a = 1 \<or> opt_width cs a = 2"
  using short_width_pos [of cs "tl a"] by (simp add: opt_width_def)

text \<open>An option reads no further than its width, and a successful one reads exactly that far.\<close>

lemma parseShort_chars_width:
  assumes "rest = [] \<Longrightarrow> us = []"
  shows "parseShort_chars cs (a # take (short_width cs bs - 1) rest @ us) 0 bs res = parseShort_chars cs (a # rest) 0 bs res
    \<and> (\<forall>n r. parseShort_chars cs (a # rest) 0 bs res = Inr (n, r) \<longrightarrow> n = short_width cs bs \<and> n \<le> Suc (length rest))"
proof (induction bs arbitrary: res)
  case (Cons b bs)
  show ?case
  proof (cases "lookupShort cs b")
    case (Some cf)
    then show ?thesis using Cons.IH assms by (cases rest; cases "FlagTyp cf") (auto split: if_splits)
  qed simp
qed simp

lemma parseLong_width:
  assumes "rest = [] \<Longrightarrow> us = []" and "is_opt a" and "a ! 1 = CHR ''-''"
  shows "parseLong cs (a # take (opt_width cs a - 1) rest @ us) 0 res = parseLong cs (a # rest) 0 res
    \<and> (\<forall>n r. parseLong cs (a # rest) 0 res = Inr (n, r) \<longrightarrow> n = opt_width cs a \<and> n \<le> Suc (length rest))"
proof -
  obtain t where a: "a = ''--'' @ t" using assms(2,3) by (cases a; cases "tl a") (auto simp: is_opt_def)
  show ?thesis
  proof (cases "lookupLong cs (fst (scan_eq t))")
    case None
    then show ?thesis by (auto simp: a parseLong_def Let_def split: prod.splits)
  next
    case (Some cf)
    then show ?thesis using assms(1)
      by (cases rest; cases "FlagTyp cf")
        (auto simp: a parseLong_def opt_width_def value_long_def scan_eq_split Let_def split: if_splits option.splits)
  qed
qed

lemma parse_opt_width:
  assumes "rest = [] \<Longrightarrow> us = []" and "is_opt a"
  shows "parse_opt cs (a # take (opt_width cs a - 1) rest @ us) res = parse_opt cs (a # rest) res
    \<and> (\<forall>n r. parse_opt cs (a # rest) res = Inr (n, r) \<longrightarrow> n = opt_width cs a \<and> n \<le> Suc (length rest))"
proof (cases "a ! 1 = CHR ''-''")
  case True
  then show ?thesis using parseLong_width [where rest = rest and us = us and a = a and cs = cs and res = res] assms by (simp add: parse_opt_def)
next
  case False
  moreover have "drop (Suc 0) a = tl a" by (simp add: drop_Suc)
  ultimately show ?thesis using parseShort_chars_width [where rest = rest and us = us and cs = cs and a = a and bs = "tl a" and res = res] assms(1)
    by (simp add: parse_opt_def parseShort_def opt_width_def)
qed

lemma add_pos_add [simp]: "add_pos xs (add_pos ys r) = add_pos (ys @ xs) r" "add_pos [] r = r"
  by (simp_all add: add_pos_def)

definition with_operands :: "string list \<Rightarrow> bool \<Rightarrow> ParseResult \<Rightarrow> ParseResult" where
  "with_operands ps d r = add_pos ps (r\<lparr>Stdin := Stdin r \<or> d\<rparr>)"

lemma with_operands_record [simp]:
  "mark_bool k (with_operands ps d r) = with_operands ps d (mark_bool k r)"
  "put_value k v (with_operands ps d r) = with_operands ps d (put_value k v r)"
  "record_bool cf (with_operands ps d r) = with_operands ps d (record_bool cf r)"
  "record_value cf v (with_operands ps d r) = with_operands ps d (record_value cf v r)"
  by (simp_all add: with_operands_def add_pos_def mark_bool_def put_value_def record_bool_def record_value_def Let_def)

lemma parse_opt_operands:
  "parse_opt cs args (with_operands ps d r) = map_sum id (map_prod id (with_operands ps d)) (parse_opt cs args r)"
proof -
  have "parseShort_chars cs args i bs (with_operands ps d r) = map_sum id (map_prod id (with_operands ps d)) (parseShort_chars cs args i bs r)" for i bs
    by (induction bs arbitrary: r) (auto split: option.split)
  moreover have "parseLong cs args i (with_operands ps d r) = map_sum id (map_prod id (with_operands ps d)) (parseLong cs args i r)" for i
    by (auto simp: parseLong_def Let_def split: option.split prod.split)
  ultimately show ?thesis by (simp add: parse_opt_def parseShort_def)
qed

lemma split_args_rest: "rest = [] \<Longrightarrow> split_args cs (drop n rest) = (us, ps, d) \<Longrightarrow> us = []"
  by simp

lemma parse_loop_split:
  "parse_loop cs args 0 (with_operands xs d0 res) =
     (case split_args cs args of (us, ps, d) \<Rightarrow>
        (case parse_loop cs us 0 res of Inl e \<Rightarrow> Inl e | Inr r \<Rightarrow> Inr (with_operands (xs @ ps) (d0 \<or> d) r)))"
proof (induction "length args" arbitrary: args xs d0 res rule: less_induct)
  case less
  show ?case
  proof (cases args)
    case (Cons a rest)
    show ?thesis
    proof (cases "is_opt a")
      case True
      let ?n = "opt_width cs a - 1"
      obtain us ps d where sp: "split_args cs (drop ?n rest) = (us, ps, d)" by (cases "split_args cs (drop ?n rest)")
      have w: "parse_opt cs (a # take ?n rest @ us) res = parse_opt cs (a # rest) res"
        "\<And>n r. parse_opt cs (a # rest) res = Inr (n, r) \<Longrightarrow> n = opt_width cs a \<and> n \<le> Suc (length rest)"
        using parse_opt_width [of rest us a cs res] split_args_rest [OF _ sp] True by blast+
      have ne: "a \<noteq> ''--''" using True by (simp add: is_opt_def)
      show ?thesis
      proof (cases "parse_opt cs (a # rest) res")
        case (Inl e)
        then show ?thesis using True Cons sp w(1) ne
          by (simp add: split_args.simps(2) parse_loop_opt parse_opt_operands Let_def)
      next
        case (Inr p)
        then obtain n r where p: "parse_opt cs (a # rest) res = Inr (n, r)" by (cases p) auto
        have n: "n = Suc ?n" "?n \<le> length rest" using w(2) [OF p] opt_width_pos [of cs a] by auto
        then have d: "drop n (a # rest) = drop ?n rest" "drop n (a # take ?n rest @ us) = us" by simp_all
        have "parse_loop cs (drop ?n rest) 0 (with_operands xs d0 r) =
            (case parse_loop cs us 0 r of Inl e \<Rightarrow> Inl e | Inr r \<Rightarrow> Inr (with_operands (xs @ ps) (d0 \<or> d) r))"
          using less.hyps [of "drop ?n rest"] Cons sp by simp
        then show ?thesis using True Cons sp w(1) ne p d
          by (simp add: split_args.simps(2) parse_loop_opt parse_opt_operands Let_def del: drop_Suc_Cons)
      qed
    next
      case False
      have op: "add_pos [a] ((with_operands xs d0 res)\<lparr>Stdin := Stdin (with_operands xs d0 res) \<or> a = ''-''\<rparr>)
          = with_operands (xs @ [a]) (d0 \<or> a = ''-'') res"
        by (simp add: with_operands_def add_pos_def)
      consider "a = ''--''" | "a \<noteq> ''--''" "stopAtFirst cs" "a \<noteq> ''-''" | "a \<noteq> ''--''" "\<not> stopAtFirst cs \<or> a = ''-''" by blast
      then show ?thesis
      proof cases
        case 1
        then show ?thesis using Cons by (simp add: split_args.simps(2) parse_loop_dashdash with_operands_def)
      next
        case 2
        then show ?thesis using Cons False by (simp add: split_args.simps(2) parse_loop_stop with_operands_def)
      next
        case 3
        then show ?thesis using less.hyps [of rest "xs @ [a]" "d0 \<or> a = ''-''" res] Cons False
          by (auto simp: split_args.simps(2) parse_loop_operand op Let_def disj_assoc split: prod.split sum.split)
      qed
    qed
  qed simp
qed

lemma Stdin_record [simp]:
  "Stdin (mark_bool k r) = Stdin r" "Stdin (put_value k v r) = Stdin r"
  "Stdin (record_bool cf r) = Stdin r" "Stdin (record_value cf v r) = Stdin r"
  by (simp_all add: mark_bool_def put_value_def record_bool_def record_value_def Let_def)

lemma parse_opt_Stdin: "parse_opt cs args res = Inr (n, r) \<Longrightarrow> Stdin r = Stdin res"
proof -
  have "parseShort_chars cs args i bs res = Inr (n, r) \<Longrightarrow> Stdin r = Stdin res" for i bs
    by (induction bs arbitrary: res) (auto split: option.splits if_splits)
  moreover have "parseLong cs args i res = Inr (n, r) \<Longrightarrow> Stdin r = Stdin res" for i
    by (auto simp: parseLong_def Let_def split: prod.splits option.splits if_splits)
  ultimately show "parse_opt cs args res = Inr (n, r) \<Longrightarrow> Stdin r = Stdin res"
    by (auto simp: parse_opt_def parseShort_def split: if_splits)
qed

lemma split_options_only:
  "split_args cs args = (us, ps, d) \<Longrightarrow> parse_loop cs us 0 res = Inr r \<Longrightarrow> Positional r = Positional res \<and> Stdin r = Stdin res"
proof (induction "length args" arbitrary: args us ps d res rule: less_induct)
  case less
  show ?case
  proof (cases args)
    case (Cons a rest)
    show ?thesis
    proof (cases "is_opt a")
      case True
      let ?n = "opt_width cs a - 1"
      obtain us1 ps1 d1 where sp: "split_args cs (drop ?n rest) = (us1, ps1, d1)" by (cases "split_args cs (drop ?n rest)")
      have ne: "a \<noteq> ''--''" using True by (simp add: is_opt_def)
      have us: "us = a # take ?n rest @ us1" using less.prems(1) Cons True sp ne by (simp add: split_args.simps(2) Let_def)
      obtain n s where o: "parse_opt cs us res = Inr (n, s)" "parse_loop cs (drop n us) 0 s = Inr r"
        using less.prems(2) True unfolding us by (auto simp: parse_loop_opt split: sum.splits)
      have w: "parse_opt cs us res = parse_opt cs (a # rest) res"
        "\<And>n r. parse_opt cs (a # rest) res = Inr (n, r) \<Longrightarrow> n = opt_width cs a \<and> n \<le> Suc (length rest)"
        using parse_opt_width [of rest us1 a cs res] split_args_rest [OF _ sp] True unfolding us by blast+
      have "n = Suc ?n" "?n \<le> length rest" using w(2) [OF o(1) [unfolded w(1)]] opt_width_pos [of cs a] by auto
      then have "drop n us = us1" by (simp add: us)
      then have "Positional r = Positional s \<and> Stdin r = Stdin s" using less.hyps [OF _ sp] o(2) Cons by simp
      then show ?thesis using parse_opt_Positional [OF o(1)] parse_opt_Stdin [OF o(1)] by simp
    next
      case False
      consider "us = []" | "split_args cs rest = (us, tl ps, snd (snd (split_args cs rest)))"
        using less.prems(1) Cons False by (auto simp: split_args.simps(2) Let_def split: if_splits prod.splits)
      then show ?thesis
      proof cases
        case 1
        then show ?thesis using less.prems(2) by simp
      next
        case 2
        then show ?thesis using less.hyps [of rest] less.prems(2) Cons by simp
      qed
    qed
  qed (use less.prems in auto)
qed

text \<open>
  C34. Options and operands may be mixed: an argument list parses as the options in it with their values would parse without the
  operands, errors included, and the operands are kept in their order.  How many arguments an option takes depends on its
  own text only; \<^verbatim>\<open>--\<close>, or the first operand for a utility that stops there, makes the rest of the arguments operands; and a lone
  dash marks standard input.
\<close>

theorem ParseFlags_operands:
  assumes "PreProcess spec = None" and "split_args (fst (getOrCompile spec)) args = (us, ps, d)"
  shows "ParseFlags args spec =
    (case ParseFlags us spec of Inl e \<Rightarrow> Inl e | Inr r \<Rightarrow> Inr (r\<lparr>Positional := ps, Stdin := d\<rparr>))"
proof -
  let ?cs = "fst (getOrCompile spec)"
  have n: "with_operands [] False newParseResult = newParseResult" by (simp add: with_operands_def newParseResult_def)
  have s: "parse_loop ?cs args 0 newParseResult =
      (case parse_loop ?cs us 0 newParseResult of Inl e \<Rightarrow> Inl e | Inr r \<Rightarrow> Inr (with_operands ps d r))"
    using parse_loop_split [of ?cs args "[]" False newParseResult] assms(2)
    unfolding n by (cases "parse_loop ?cs us 0 newParseResult") simp_all
  have "with_operands ps d r = r\<lparr>Positional := ps, Stdin := d\<rparr>" if "parse_loop ?cs us 0 newParseResult = Inr r" for r
    using split_options_only [OF assms(2) that] by (simp add: with_operands_def add_pos_def newParseResult_def)
  then show ?thesis using s assms(1) by (simp add: ParseFlags_def split: sum.split)
qed

lemma parse_opt_error: "parse_opt cs args res = Inl e \<Longrightarrow> ExitCode e = 2"
proof -
  have long: "parseLong cs args 0 res = Inl e \<Longrightarrow> ExitCode e = 2"
    by (auto simp: parseLong_def Let_def errf_def split: prod.splits option.splits if_splits)
  have short: "parseShort_chars cs args 0 ch s = Inl e \<Longrightarrow> ExitCode e = 2" for ch s
    by (induction ch arbitrary: s) (auto simp: errf_def split: option.splits if_splits)
  show "parse_opt cs args res = Inl e \<Longrightarrow> ExitCode e = 2"
    by (auto simp: parse_opt_def parseShort_def dest: long short split: if_splits)
qed

lemma parse_loop_error: "parse_loop cs args 0 res = Inl e \<Longrightarrow> ExitCode e = 2 \<and> list_ex is_opt args"
proof (induction "length args" arbitrary: args res rule: less_induct)
  case less
  show ?case
  proof (cases args)
    case Nil
    with less.prems show ?thesis by simp
  next
    case (Cons a rest)
    show ?thesis
    proof (cases "is_opt a")
      case True
      show ?thesis
      proof (cases "parse_opt cs args res")
        case (Inl e')
        with True less.prems Cons show ?thesis by (auto simp: parse_loop_opt dest: parse_opt_error)
      next
        case (Inr p)
        then obtain n s where p: "parse_opt cs (a # rest) res = Inr (n, s)" using Cons by (cases p) auto
        with True less.prems Cons have l: "parse_loop cs (drop n args) 0 s = Inl e"
          by (simp add: parse_loop_opt)
        have "ExitCode e = 2" using less.hyps [OF _ l] parse_opt_append [OF p] Cons by simp
        with True Cons show ?thesis by simp
      qed
    next
      case False
      then have "a \<noteq> ''--'' \<and> (\<not> stopAtFirst cs \<or> a = ''-'')"
        using less.prems Cons parse_loop_stop [of cs a rest res]
        by (cases "a = ''--''") (auto simp: parse_loop_dashdash)
      with False less.prems Cons less.hyps [of rest] show ?thesis
        by (auto simp: parse_loop_operand)
    qed
  qed
qed

text \<open>
  A rejected command line: every flag error of the parser carries exit code 2, and arises only
  if some argument has the form of an option; operand-only command lines never fail.
\<close>

theorem ParseFlags_errors:
  assumes "ParseFlags args spec = Inl e" and "PreProcess spec = None"
  shows "ExitCode e = 2 \<and> list_ex is_opt args"
  using assms parse_loop_error [of "fst (getOrCompile spec)" args newParseResult e]
  by (simp add: ParseFlags_def)

section \<open>The compiled table finds every flag\<close>

definition short_key :: "FlagDef \<Rightarrow> nat option" where
  "short_key d = (if Short d \<noteq> [] \<and> code (hd (Short d)) < 128 then Some (code (hd (Short d))) else None)"

lemma compile_defs_untouched:
  "compile_defs i ds sh lg = (sh', lg') \<Longrightarrow> \<forall>d \<in> set ds. short_key d \<noteq> Some c \<Longrightarrow> sh' ! c = sh ! c"
  by (induction ds arbitrary: i sh lg) (auto simp: short_key_def split: if_splits)

lemma compile_defs_found:
  "compile_defs i ds sh lg = (sh', lg') \<Longrightarrow> k < length ds \<Longrightarrow> short_key (ds ! k) = Some c \<Longrightarrow>
   \<forall>j < length ds. j \<noteq> k \<longrightarrow> short_key (ds ! j) \<noteq> Some c \<Longrightarrow> c < length sh \<Longrightarrow> sh' ! c = int8 (i + k)"
proof (induction ds arbitrary: i sh lg k)
  case Nil
  then show ?case by simp
next
  case (Cons d ds)
  show ?case
  proof (cases k)
    case 0
    have "\<forall>x \<in> set ds. short_key x \<noteq> Some c"
      using Cons.prems(4) 0 by (force simp: in_set_conv_nth)
    with 0 Cons.prems show ?thesis
      using compile_defs_untouched [of "Suc i" ds _ _ sh' lg' c]
      by (auto simp: short_key_def split: if_splits)
  next
    case (Suc k')
    have "\<forall>j < length ds. j \<noteq> k' \<longrightarrow> short_key (ds ! j) \<noteq> Some c"
    proof (intro allI impI)
      fix j assume "j < length ds" "j \<noteq> k'"
      then show "short_key (ds ! j) \<noteq> Some c"
        using Cons.prems(4) [rule_format, of "Suc j"] Suc by simp
    qed
    with Suc Cons.prems Cons.IH [of "Suc i" _ _ k'] show ?thesis by simp
  qed
qed

text \<open>
  The compiled table is complete: for a specification of at most 128 flags, each short name is
  found and yields its own definition, provided no other flag starts with the same character.
\<close>

theorem compile_finds_short:
  assumes "length (Defs s) \<le> 128" and "k < length (Defs s)"
    and "short_key (Defs s ! k) = Some (code b)"
    and "\<forall>j < length (Defs s). j \<noteq> k \<longrightarrow> short_key (Defs s ! j) \<noteq> Some (code b)"
  shows "lookupShort (compile s) b = Some (Defs s ! k)"
proof -
  obtain sh lg where c: "compile_defs 0 (Defs s) (replicate 128 (- 1)) [] = (sh, lg)" by fastforce
  have b: "code b < 128" using assms(3) by (auto simp: short_key_def split: if_splits)
  have "sh ! code b = int8 k"
    using compile_defs_found [OF c assms(2,3,4)] b by simp
  moreover have "int8 k = int k" using assms(1,2) by (simp add: int8_def)
  ultimately show ?thesis using b c by (simp add: lookupShort_def compile_def)
qed

text \<open>
  No lookup reads past the table: whatever the number of flags (the stored 8-bit indices wrap
  around), a successful short or long lookup returns one of the declared definitions.
\<close>

theorem lookup_in_bounds:
  "(\<forall>cf. lookupShort (compile s) b = Some cf \<longrightarrow> cf \<in> set (Defs s))
   \<and> (\<forall>cf. lookupLong (compile s) n = Some cf \<longrightarrow> cf \<in> set (Defs s))"
  using lookupShort_in_Defs lookupLong_in_Defs by blast

section \<open>Witnesses\<close>

text \<open>A specification with boolean and value flags, as the utilities declare them.\<close>

definition demo_spec :: FlagSpec where
  "demo_spec = mkSpec [mkFlag ''f'' ''fields'' FlagValue, mkFlag ''s'' ''only-delimited'' FlagBool,
     mkFlag ''D'' ''no-suppress'' FlagBool, mkFlag [] ''json'' FlagBool]"

abbreviation demo_cs :: compiledSpec where
  "demo_cs \<equiv> fst (getOrCompile demo_spec)"

lemmas demo_simps = demo_spec_def mkSpec_def mkFlag_def getOrCompile_def compile_def int8_def
  uint8_def lookupShort_def lookupLong_def code_def Let_def

lemma demo_lookup [simp]:
  "bool_short demo_cs CHR ''s''" "bool_short demo_cs CHR ''D''" "value_short demo_cs CHR ''f''"
  "value_long demo_cs ''fields''"
  by (simp_all add: bool_short_def value_short_def value_long_def demo_simps)

theorem ParseFlags_cluster_witness:
  "parse_loop demo_cs [''-sD'', ''x''] 0 newParseResult
   = parse_loop demo_cs [''-s'', ''-D'', ''x''] 0 newParseResult"
  using ParseFlags_cluster [of "''sD''" demo_cs "[''x'']" newParseResult] by simp

theorem ParseFlags_attached_value_witness:
  "parse_loop demo_cs [''-f1,2'', ''x''] 0 newParseResult
   = parse_loop demo_cs [''-f'', ''1,2'', ''x''] 0 newParseResult
   \<and> parse_loop demo_cs [''--fields=3'', ''x''] 0 newParseResult
   = parse_loop demo_cs [''--fields'', ''3'', ''x''] 0 newParseResult"
  using ParseFlags_attached_value [of demo_cs "CHR ''f''" "''1,2''" "''fields''" "[''x'']" newParseResult "''3''"]
  by simp

lemma demo_parse: "ParseFlags [''a'', ''b''] demo_spec
    = Inr (add_pos [''b''] (add_pos [''a''] (newParseResult\<lparr>Stdin := False\<rparr>)))"
  by (simp add: ParseFlags_def parse_loop_unfold demo_simps newParseResult_def add_pos_def)

theorem ParseFlags_end_of_options_witness:
  "\<exists>r. ParseFlags [''a'', ''b'', ''--'', ''-s''] demo_spec = Inr r \<and> Positional r = [''a'', ''b'', ''-s''] \<and> \<not> Has r ''s''"
  using ParseFlags_end_of_options [OF demo_parse, of "[''-s'']"]
  by (simp add: demo_spec_def mkSpec_def getOrCompile_def Has_def add_pos_def newParseResult_def Let_def)

theorem ParseFlags_operands_witness:
  "ParseFlags [''a'', ''-f'', ''-'', ''b'', ''-s''] demo_spec =
    (case ParseFlags [''-f'', ''-'', ''-s''] demo_spec of Inl e \<Rightarrow> Inl e | Inr r \<Rightarrow> Inr (r\<lparr>Positional := [''a'', ''b''], Stdin := False\<rparr>))"
proof (rule ParseFlags_operands)
  show "PreProcess demo_spec = None" by (simp add: demo_spec_def mkSpec_def)
  have "\<not> stopAtFirst demo_cs" by (simp add: demo_simps)
  moreover have "opt_width demo_cs ''-f'' = 2" "opt_width demo_cs ''-s'' = 1" by (simp_all add: opt_width_def demo_simps)
  ultimately show "split_args demo_cs [''a'', ''-f'', ''-'', ''b'', ''-s''] = ([''-f'', ''-'', ''-s''], [''a'', ''b''], False)"
    by (simp add: split_args.simps(2) is_opt_def)
qed

lemma demo_unknown: "ParseFlags [''a'', ''-z''] demo_spec = Inl (errf 2 ''unknown flag: -z'')"
proof -
  have "encodeRune 122 = ''z''" using encodeRune_ascii [of "CHR ''z''"] by (simp add: code_def)
  then show ?thesis by (simp add: ParseFlags_def parse_loop_unfold parseShort_def demo_simps)
qed

theorem ParseFlags_errors_witness:
  "\<exists>e. ParseFlags [''a'', ''-z''] demo_spec = Inl e \<and> ExitCode e = 2"
  using ParseFlags_errors [OF demo_unknown] demo_unknown by (auto simp: demo_spec_def mkSpec_def)

theorem compile_finds_short_witness:
  "lookupShort (compile demo_spec) CHR ''D'' = Some (mkFlag ''D'' ''no-suppress'' FlagBool)"
proof -
  have k: "short_key (Defs demo_spec ! j) = (if j = 0 then Some 102 else if j = 1 then Some 115 else if j = 2 then Some 68 else None)"
    if "j < 4" for j
  proof -
    from that have "j = 0 \<or> j = 1 \<or> j = 2 \<or> j = 3" by arith
    then show ?thesis
      by (auto simp: short_key_def demo_spec_def mkSpec_def mkFlag_def code_def)
  qed
  have "length (Defs demo_spec) = 4" by (simp add: demo_spec_def mkSpec_def)
  with k compile_finds_short [of demo_spec 2 "CHR ''D''"] show ?thesis
    by (simp add: code_def) (simp add: demo_spec_def mkSpec_def)
qed

theorem lookup_in_bounds_witness:
  "mkFlag ''D'' ''no-suppress'' FlagBool \<in> set (Defs demo_spec)
   \<and> mkFlag [] ''json'' FlagBool \<in> set (Defs demo_spec)"
proof -
  have "lookupShort (compile demo_spec) CHR ''D'' = Some (mkFlag ''D'' ''no-suppress'' FlagBool)"
    and "lookupLong (compile demo_spec) ''json'' = Some (mkFlag [] ''json'' FlagBool)"
    by (simp_all add: demo_simps)
  then show ?thesis using lookup_in_bounds [of demo_spec "CHR ''D''" "''json''"] by blast
qed

end
