(* ===== verification/Output.thy ===== *)
theory Output
  imports Flags Json
begin

text \<open>
  The output side of every utility: the JSON envelope of \<^verbatim>\<open>pkg/common/output.go\<close>, the JSON-RPC constructors of
  \<^verbatim>\<open>jsonrpc.go\<close> and the flag-error rendering of \<^verbatim>\<open>flagerr.go\<close>.  A writer is the string written to it.
\<close>

section \<open>The envelope\<close>

record ErrorInfo =
  EI_Code :: string
  EI_Message :: string

record JSONEnvelope =
  Env_Command :: string
  Env_Version :: string
  Env_SchemaVersion :: string
  Env_ExitCode :: int
  Env_Data :: json
  Env_Error :: "ErrorInfo option"

definition ErrorInfo_json :: "ErrorInfo option \<Rightarrow> json" where
  "ErrorInfo_json e =
     (case e of
        None \<Rightarrow> JNull
      | Some i \<Rightarrow> JObj [(''code'', JStr (EI_Code i)), (''message'', JStr (EI_Message i))])"

definition envelope_json :: "JSONEnvelope \<Rightarrow> json" where
  "envelope_json e =
     JObj [(''command'', JStr (Env_Command e)), (''version'', JStr (Env_Version e)),
           (''schemaVersion'', JStr (Env_SchemaVersion e)), (''exitCode'', JInt (Env_ExitCode e)),
           (''data'', Env_Data e), (''error'', ErrorInfo_json (Env_Error e))]"

text \<open>The release version is a build-time constant: the default of the source.\<close>

definition Version :: string where "Version = ''0.1.0''"

text \<open>\<^verbatim>\<open>Render\<close>: what is written to \<open>out\<close>; \<open>text\<close> is what the text function writes.\<close>

definition Render :: "string \<Rightarrow> json \<Rightarrow> bool \<Rightarrow> string \<Rightarrow> string" where
  "Render cmdName dat jsonMode text =
     (if jsonMode
      then json_encode False (envelope_json
             \<lparr>Env_Command = cmdName, Env_Version = Version, Env_SchemaVersion = ''1.0'',
              Env_ExitCode = 0, Env_Data = dat, Env_Error = None\<rparr>) @ [NL]
      else text)"

definition RenderError :: "string \<Rightarrow> int \<Rightarrow> string \<Rightarrow> string \<Rightarrow> bool \<Rightarrow> string" where
  "RenderError cmdName exitCode errCode message jsonMode =
     (if \<not> jsonMode then []
      else json_encode False (envelope_json
             \<lparr>Env_Command = cmdName, Env_Version = Version, Env_SchemaVersion = ''1.0'',
              Env_ExitCode = exitCode, Env_Data = JNull,
              Env_Error = Some \<lparr>EI_Code = errCode, EI_Message = message\<rparr>\<rparr>) @ [NL])"

text \<open>\<^verbatim>\<open>RenderFlagError\<close>: the returned exit code and what is written to the error stream.\<close>

definition RenderFlagError :: "string \<Rightarrow> string list \<Rightarrow> FlagError \<Rightarrow> int \<Rightarrow> int \<times> string" where
  "RenderFlagError name args err exitCode =
     (if HasJSONFlag args then (exitCode, RenderError name exitCode ''FLAG_ERROR'' (Msg err) True)
      else (exitCode, name @ '': '' @ Msg err @ [NL]))"

section \<open>JSON-RPC objects\<close>

record RPCError =
  RE_Code :: int
  RE_Message :: string
  RE_Data :: json

record RPCRequest =
  RQ_JSONRPC :: string
  RQ_Method :: string
  RQ_Params :: "json option"
  RQ_ID :: json

record RPCResponse =
  RS_JSONRPC :: string
  RS_Result :: "json option"
  RS_Error :: "RPCError option"
  RS_ID :: json

definition ErrParse :: int where "ErrParse = - 32700"
definition ErrInvalidRequest :: int where "ErrInvalidRequest = - 32600"
definition ErrMethodNotFound :: int where "ErrMethodNotFound = - 32601"
definition ErrInvalidParams :: int where "ErrInvalidParams = - 32602"
definition ErrInternal :: int where "ErrInternal = - 32603"
definition ErrPermission :: int where "ErrPermission = 1001"
definition ErrNotFound :: int where "ErrNotFound = 1002"
definition ErrTimeout :: int where "ErrTimeout = 1003"

text \<open>\<^verbatim>\<open>NewRequest\<close> for parameters that encode (a JSON value always does; \<^const>\<open>None\<close> is nil).\<close>

definition NewRequest :: "json \<Rightarrow> string \<Rightarrow> json option \<Rightarrow> RPCRequest" where
  "NewRequest rid method params =
     \<lparr>RQ_JSONRPC = ''2.0'', RQ_Method = method, RQ_Params = params, RQ_ID = rid\<rparr>"

definition NewResult :: "json \<Rightarrow> json \<Rightarrow> RPCResponse" where
  "NewResult rid result = \<lparr>RS_JSONRPC = ''2.0'', RS_Result = Some result, RS_Error = None, RS_ID = rid\<rparr>"

definition NewErrorResponse :: "json \<Rightarrow> int \<Rightarrow> string \<Rightarrow> RPCResponse" where
  "NewErrorResponse rid c message =
     \<lparr>RS_JSONRPC = ''2.0'', RS_Result = None,
      RS_Error = Some \<lparr>RE_Code = c, RE_Message = message, RE_Data = JNull\<rparr>, RS_ID = rid\<rparr>"

section \<open>Facts\<close>

lemma Render_text [simp]: "Render c d False t = t"
  by (simp add: Render_def)

lemma RenderError_text [simp]: "RenderError c x ec m False = []"
  by (simp add: RenderError_def)

lemma RenderFlagError_code [simp]: "fst (RenderFlagError n args e x) = x"
  by (simp add: RenderFlagError_def)

end
