(* ===== verification/Escape.thy ===== *)
theory Escape
  imports Gostd
begin

text \<open>
  Backslash escapes of \<^verbatim>\<open>echo -e\<close> and \<^verbatim>\<open>printf\<close>: \<^verbatim>\<open>pkg/common/escape.go\<close>.  The byte loop over an index
  is a recursion over the remaining suffix.
\<close>

datatype EscapeMode = EscapeFormat | EscapeArg

abbreviation BS :: char where "BS \<equiv> CHR 0x5C"

definition isOctalDigit :: "char \<Rightarrow> bool" where
  "isOctalDigit b \<longleftrightarrow> 48 \<le> code b \<and> code b \<le> 55"

definition isHexDigit :: "char \<Rightarrow> bool" where
  "isHexDigit b \<longleftrightarrow>
     48 \<le> code b \<and> code b \<le> 57 \<or> 97 \<le> code b \<and> code b \<le> 102 \<or> 65 \<le> code b \<and> code b \<le> 70"

fun octal_acc :: "nat \<Rightarrow> string \<Rightarrow> nat" where
  "octal_acc acc [] = acc"
| "octal_acc acc (c # cs) = octal_acc (acc * 8 + (code c - 48)) cs"

text \<open>One escape: what is written for the escape character \<open>c\<close> with \<open>rest\<close> after it, and how many bytes
  of \<open>rest\<close> it consumes.\<close>

definition escape_one :: "EscapeMode \<Rightarrow> char \<Rightarrow> string \<Rightarrow> string \<times> nat" where
  "escape_one mode c rest =
     (if c = CHR ''n'' then ([CHR 0x0A], 0)
      else if c = CHR ''t'' then ([CHR 0x09], 0)
      else if c = CHR ''r'' then ([CHR 0x0D], 0)
      else if c = BS then ([BS], 0)
      else if c = CHR ''a'' then ([CHR 0x07], 0)
      else if c = CHR ''b'' then ([CHR 0x08], 0)
      else if c = CHR ''f'' then ([CHR 0x0C], 0)
      else if c = CHR ''v'' then ([CHR 0x0B], 0)
      else if c = CHR ''c'' then ([BS, CHR ''c''], 0)
      else if c = CHR ''x'' then
        (let ds = takeWhile isHexDigit (take 2 rest)
         in case (if ds = [] then None else ParseUint8 16 ds) of
              Some v \<Rightarrow> ([char_of v], length ds)
            | None \<Rightarrow> ([BS, CHR ''x''], 0))
      else if c = CHR ''0'' then
        (let ds = takeWhile isOctalDigit (take 3 rest)
         in case (if ds = [] then None else ParseUint8 8 ds) of
              Some v \<Rightarrow> ([char_of v], length ds)
            | None \<Rightarrow> ([CHR 0x00], 0))
      else if mode = EscapeArg \<and> 49 \<le> code c \<and> code c \<le> 55 then
        (let ds = takeWhile isOctalDigit (take 2 rest)
         in ([char_of (octal_acc (code c - 48) ds mod 256)], length ds))
      else ([BS, c], 0))"

function ExpandEscapes :: "string \<Rightarrow> EscapeMode \<Rightarrow> string" where
  "ExpandEscapes s mode =
     (case s of
        [] \<Rightarrow> []
      | b # rest \<Rightarrow>
          (case rest of
             [] \<Rightarrow> [b]
           | c # rest' \<Rightarrow>
               if b \<noteq> BS then b # ExpandEscapes rest mode
               else (let (out, n) = escape_one mode c rest'
                     in out @ ExpandEscapes (drop n rest') mode)))"
  by pat_completeness auto
termination
  by (relation "measure (\<lambda>(s, mode). length s)") auto

declare ExpandEscapes.simps [simp del]

lemma Expand_Nil [simp]: "ExpandEscapes [] m = []"
  by (simp add: ExpandEscapes.simps)

lemma Expand_single [simp]: "ExpandEscapes [b] m = [b]"
  by (simp add: ExpandEscapes.simps)

lemma Expand_plain: "b \<noteq> BS \<Longrightarrow> ExpandEscapes (b # rest) m = b # ExpandEscapes rest m"
  by (cases rest) (simp_all add: ExpandEscapes.simps [of "b # _"])

lemma Expand_escape:
  "ExpandEscapes (BS # c # rest) m =
     fst (escape_one m c rest) @ ExpandEscapes (drop (snd (escape_one m c rest)) rest) m"
  by (subst ExpandEscapes.simps) (simp add: split_def Let_def)

text \<open>The quoting that protects a text: every backslash is doubled.\<close>

fun quote :: "string \<Rightarrow> string" where
  "quote [] = []"
| "quote (c # cs) = (if c = BS then [BS, BS] else [c]) @ quote cs"

text \<open>
  Round trip: a text whose backslashes are doubled expands to exactly that text, in both escape
  modes; in particular a text without backslashes is unchanged.
\<close>

theorem ExpandEscapes_quote: "ExpandEscapes (quote s) m = s"
  by (induction s) (simp_all add: Expand_plain Expand_escape escape_one_def)

lemma length_takeWhile_take: "length (takeWhile P (take n xs)) \<le> length xs"
  by (metis dual_order.trans length_take length_takeWhile_le min.cobounded1)

lemma escape_one_length:
  "length (fst (escape_one m c rest)) \<le> 2 + snd (escape_one m c rest)
   \<and> snd (escape_one m c rest) \<le> length rest"
  by (simp add: escape_one_def Let_def length_takeWhile_take split: option.split)

text \<open>
  Expansion never grows the text, so a buffer of the input's size always suffices.
\<close>

theorem ExpandEscapes_length: "length (ExpandEscapes s m) \<le> length s"
proof (induction "length s" arbitrary: s rule: less_induct)
  case less
  show ?case
  proof (cases "\<exists>c rest. s = BS # c # rest")
    case True
    then obtain c rest where s: "s = BS # c # rest" by blast
    let ?n = "snd (escape_one m c rest)"
    have "length (ExpandEscapes (drop ?n rest) m) \<le> length rest - ?n"
      using less [of "drop ?n rest"] s by simp
    moreover have "length (fst (escape_one m c rest)) \<le> 2 + ?n" and "?n \<le> length rest"
      using escape_one_length by blast+
    ultimately show ?thesis using s by (simp add: Expand_escape)
  next
    case False
    then have "s = [] \<or> (\<exists>b. s = [b]) \<or> (\<exists>b rest. s = b # rest \<and> b \<noteq> BS)"
      by (metis list.exhaust)
    with less [of "tl s"] show ?thesis by (auto simp: Expand_plain)
  qed
qed

lemma mod_256_once: "256 \<le> n \<Longrightarrow> n < 512 \<Longrightarrow> n mod 256 = n - (256 :: nat)"
  by (simp add: mod_if)

text \<open>
  Octal escapes above 0377 are not treated alike: a three-digit value after \<^verbatim>\<open>\0\<close> that exceeds a
  byte is not consumed at all (a NUL byte is written and the digits stay as text), whereas in the
  argument mode \<^verbatim>\<open>\4\<close> to \<^verbatim>\<open>\7\<close> with two more octal digits wraps modulo 256.
\<close>

theorem ExpandEscapes_octal_overflow:
  assumes "isOctalDigit a" and "isOctalDigit b" and "isOctalDigit c" and "52 \<le> code a"
  shows "ExpandEscapes [BS, CHR ''0'', a, b, c] m = [CHR 0x00, a, b, c]
    \<and> ExpandEscapes [BS, a, b, c] EscapeArg
      = [char_of (((code a - 48) * 8 + (code b - 48)) * 8 + (code c - 48) - 256)]"
proof -
  have hx: "hex_value d = Some (code d - 48)" if "isOctalDigit d" for d
    using that by (simp add: hex_value_def isOctalDigit_def)
  have lt: "code d - 48 < 8" if "isOctalDigit d" for d
    using that by (simp add: isOctalDigit_def) arith
  have ne: "d \<noteq> BS" "d \<noteq> CHR ''n''" "d \<noteq> CHR ''t''" "d \<noteq> CHR ''r''" "d \<noteq> CHR ''a''" "d \<noteq> CHR ''b''"
    "d \<noteq> CHR ''f''" "d \<noteq> CHR ''v''" "d \<noteq> CHR ''c''" "d \<noteq> CHR ''x''" if "isOctalDigit d" for d
    using that by (auto simp: isOctalDigit_def code_def)
  have a0: "a \<noteq> CHR ''0''" using assms(4) by (auto simp: code_def)
  have ov: "ParseUint8 8 [a, b, c] = None"
    using assms lt [OF assms(1)] lt [OF assms(2)] lt [OF assms(3)] by (simp add: ParseUint8_def hx)
  have nul: "ExpandEscapes [BS, CHR ''0'', a, b, c] m = [CHR 0x00, a, b, c]"
    using assms ne [OF assms(1)] ne [OF assms(2)] ne [OF assms(3)] ov
    by (simp add: Expand_escape Expand_plain escape_one_def)
  have "256 \<le> ((code a - 48) * 8 + (code b - 48)) * 8 + (code c - 48)"
    using assms(4) by arith
  moreover have "((code a - 48) * 8 + (code b - 48)) * 8 + (code c - 48) < 512"
    using lt [OF assms(1)] lt [OF assms(2)] lt [OF assms(3)] by arith
  ultimately have m: "octal_acc (code a - 48) [b, c] mod 256
      = ((code a - 48) * 8 + (code b - 48)) * 8 + (code c - 48) - 256"
    unfolding octal_acc.simps by (rule mod_256_once)
  have "escape_one EscapeArg a [b, c] = ([char_of (octal_acc (code a - 48) [b, c] mod 256)], 2)"
    using assms ne [OF assms(1)] a0
    by (simp add: escape_one_def isOctalDigit_def del: octal_acc.simps char_of_mod_256)
  then have "ExpandEscapes [BS, a, b, c] EscapeArg
      = [char_of (((code a - 48) * 8 + (code b - 48)) * 8 + (code c - 48) - 256)]"
    unfolding m by (simp only: Expand_escape) simp
  with nul show ?thesis by blast
qed

theorem ExpandEscapes_octal_overflow_witness:
  "ExpandEscapes [BS, CHR ''0'', CHR ''4'', CHR ''0'', CHR ''1''] EscapeArg = [CHR 0x00, CHR ''4'', CHR ''0'', CHR ''1'']
   \<and> ExpandEscapes [BS, CHR ''4'', CHR ''0'', CHR ''1''] EscapeArg = [CHR 0x01]"
  using ExpandEscapes_octal_overflow [of "CHR ''4''" "CHR ''0''" "CHR ''1''" EscapeArg]
  by (simp add: isOctalDigit_def code_def char_of_eq_iff)

end
