(* ===== verification/Ratelimit.thy ===== *)
theory Ratelimit
  imports Prelude Complex_Main
begin

text \<open>
  The per-connection token bucket: \<^verbatim>\<open>internal/daemon/ratelimit.go\<close>.  Time is in seconds; \<^verbatim>\<open>float64\<close>
  values are real numbers (rounding is not modelled).  The clock is an argument of each operation.
\<close>

record RateLimiter =
  rate :: real
  burst :: int
  tokens :: real
  lastUpdate :: real

definition NewRateLimiter :: "real \<Rightarrow> int \<Rightarrow> real \<Rightarrow> RateLimiter" where
  "NewRateLimiter r b now = \<lparr>rate = r, burst = b, tokens = of_int b, lastUpdate = now\<rparr>"

definition Allow :: "RateLimiter \<Rightarrow> real \<Rightarrow> bool \<times> RateLimiter" where
  "Allow rl now =
     (let elapsed = now - lastUpdate rl;
          t = tokens rl + elapsed * rate rl;
          t' = (if t > of_int (burst rl) then of_int (burst rl) else t);
          rl' = rl\<lparr>tokens := t', lastUpdate := now\<rparr>
      in if t' \<ge> 1 then (True, rl'\<lparr>tokens := t' - 1\<rparr>) else (False, rl'))"

text \<open>The limiter \<^verbatim>\<open>handleConn\<close> creates: its burst is the rate truncated to an integer.\<close>

definition connLimiter :: "real \<Rightarrow> real \<Rightarrow> RateLimiter" where
  "connLimiter rateLimit now = NewRateLimiter rateLimit \<lfloor>rateLimit\<rfloor> now"

text \<open>A run: the decisions for requests arriving at the given times, and the final state.\<close>

fun allow_run :: "RateLimiter \<Rightarrow> real list \<Rightarrow> bool list \<times> RateLimiter" where
  "allow_run rl [] = ([], rl)"
| "allow_run rl (t # ts) =
     (let (d, rl1) = Allow rl t; (ds, rl2) = allow_run rl1 ts in (d # ds, rl2))"

definition allowed :: "bool list \<Rightarrow> nat" where
  "allowed ds = length (filter (\<lambda>d. d) ds)"

section \<open>Invariant\<close>

definition rl_inv :: "RateLimiter \<Rightarrow> bool" where
  "rl_inv rl \<longleftrightarrow> 0 \<le> rate rl \<and> 0 \<le> burst rl \<and> 0 \<le> tokens rl \<and> tokens rl \<le> of_int (burst rl)"

lemma rl_inv_New: "0 \<le> r \<Longrightarrow> 0 \<le> b \<Longrightarrow> rl_inv (NewRateLimiter r b now)"
  by (simp add: rl_inv_def NewRateLimiter_def)

lemma Allow_config:
  "rate (snd (Allow rl now)) = rate rl" "burst (snd (Allow rl now)) = burst rl"
  "lastUpdate (snd (Allow rl now)) = now"
  by (simp_all add: Allow_def Let_def)

lemma Allow_inv: "rl_inv rl \<Longrightarrow> lastUpdate rl \<le> now \<Longrightarrow> rl_inv (snd (Allow rl now))"
  by (auto simp: rl_inv_def Allow_def Let_def)

text \<open>The accounting step: tokens spent plus tokens left never exceed tokens had plus refill.\<close>

lemma Allow_account:
  "tokens (snd (Allow rl now)) + (if fst (Allow rl now) then 1 else 0)
   \<le> tokens rl + rate rl * (now - lastUpdate rl)"
  by (simp add: Allow_def Let_def algebra_simps)

text \<open>Arrival times that never go backwards, starting at \<open>t0\<close>.\<close>

fun mono_from :: "real \<Rightarrow> real list \<Rightarrow> bool" where
  "mono_from t0 [] = True"
| "mono_from t0 (t # ts) = (t0 \<le> t \<and> mono_from t ts)"

fun last_time :: "real \<Rightarrow> real list \<Rightarrow> real" where
  "last_time t0 [] = t0"
| "last_time t0 (t # ts) = last_time t ts"

lemma allow_run_account:
  "rl_inv rl \<Longrightarrow> mono_from (lastUpdate rl) ts \<Longrightarrow>
   rl_inv (snd (allow_run rl ts)) \<and>
   tokens (snd (allow_run rl ts)) + real (allowed (fst (allow_run rl ts)))
   \<le> tokens rl + rate rl * (last_time (lastUpdate rl) ts - lastUpdate rl)"
proof (induction ts arbitrary: rl)
  case Nil
  then show ?case by (simp add: allowed_def)
next
  case (Cons t ts)
  obtain d rl1 where a: "Allow rl t = (d, rl1)" by fastforce
  have i: "rl_inv rl1" and l: "lastUpdate rl1 = t" and r: "rate rl1 = rate rl"
    using Allow_inv [of rl t] Allow_config [of rl t] Cons.prems a by auto
  have "rl_inv (snd (allow_run rl1 ts)) \<and>
      tokens (snd (allow_run rl1 ts)) + real (allowed (fst (allow_run rl1 ts)))
      \<le> tokens rl1 + rate rl * (last_time t ts - t)"
    using Cons.IH [of rl1] Cons.prems i l r by simp
  with Allow_account [of rl t] a show ?case
    by (auto simp: split_def Let_def allowed_def algebra_simps split: if_splits)
qed

text \<open>A request never leaves more than the burst behind, its own token included, however long the bucket was left to fill.\<close>

lemma Allow_cap: "tokens (snd (Allow rl now)) + (if fst (Allow rl now) then 1 else 0) \<le> of_int (burst rl)"
  by (simp add: Allow_def Let_def)

lemma allow_run_window:
  assumes "rl_inv rl" and "mono_from (lastUpdate rl) (t # ts)"
  shows "real (allowed (fst (allow_run rl (t # ts)))) \<le> of_int (burst rl) + rate rl * (last_time t ts - t)"
proof -
  obtain d rl1 where a: "Allow rl t = (d, rl1)" by fastforce
  have "rl_inv rl1" "lastUpdate rl1 = t" "rate rl1 = rate rl"
    using Allow_inv [of rl t] Allow_config [of rl t] assms a by auto
  then have "rl_inv (snd (allow_run rl1 ts)) \<and>
      tokens (snd (allow_run rl1 ts)) + real (allowed (fst (allow_run rl1 ts))) \<le> tokens rl1 + rate rl * (last_time t ts - t)"
    using allow_run_account [of rl1 ts] assms(2) by simp
  then show ?thesis using Allow_cap [of rl t] a
    by (auto simp: split_def Let_def allowed_def rl_inv_def split: if_splits)
qed

lemma allow_run_append:
  "fst (allow_run rl (xs @ ys)) = fst (allow_run rl xs) @ fst (allow_run (snd (allow_run rl xs)) ys)"
  "length (fst (allow_run rl xs)) = length xs"
  by (induction xs arbitrary: rl) (auto simp: split_def Let_def)

lemma allow_run_config:
  "rate (snd (allow_run rl ts)) = rate rl" "burst (snd (allow_run rl ts)) = burst rl"
  "lastUpdate (snd (allow_run rl ts)) = last_time (lastUpdate rl) ts"
  by (induction ts arbitrary: rl) (auto simp: split_def Let_def Allow_config)

lemma mono_from_append: "mono_from t (xs @ ys) \<longleftrightarrow> mono_from t xs \<and> mono_from (last_time t xs) ys"
  by (induction xs arbitrary: t) auto

text \<open>
  C17. The token bucket limits the rate over every window: in a run of requests at non-decreasing times from the creation of the
  limiter, the requests of any stretch of it that are let through are at most the burst plus the rate times the time from the
  first to the last request of the stretch, also after an idle time.
\<close>

theorem rate_limit_bound:
  assumes "0 \<le> r" and "0 \<le> b" and "mono_from t0 (before @ t # ts)"
  shows "real (allowed (drop (length before) (fst (allow_run (NewRateLimiter r b t0) (before @ t # ts)))))
         \<le> of_int b + r * (last_time t ts - t)"
proof -
  let ?rl = "NewRateLimiter r b t0"
  let ?rl' = "snd (allow_run ?rl before)"
  have f: "lastUpdate ?rl = t0" "burst ?rl = b" "rate ?rl = r"
    by (simp_all add: NewRateLimiter_def)
  have "rl_inv ?rl'" using allow_run_account [OF rl_inv_New [OF assms(1,2)], of t0 before] assms(3) f by (simp add: mono_from_append)
  then show ?thesis using allow_run_window [of ?rl' t ts] assms(3) f
    by (simp add: allow_run_append allow_run_config mono_from_append del: allow_run.simps)
qed

theorem rate_limit_bound_witness:
  "real (allowed (drop 2 (fst (allow_run (NewRateLimiter 2 2 0) [0, 0, 10, 10, 10, 21 / 2])))) \<le> 3"
  using rate_limit_bound [of 2 2 0 "[0, 0]" 10 "[10, 10, 21 / 2]"]
  by (simp add: numeral_2_eq_2 del: allow_run.simps)

text \<open>
  The limiter recovers: from any state the invariant allows, with a burst of at least one, a
  request that comes at least one token's worth of time after the previous one is let through.
\<close>

theorem rate_limit_recovers:
  assumes "rl_inv rl" and "1 \<le> burst rl" and "1 \<le> (now - lastUpdate rl) * rate rl"
  shows "fst (Allow rl now)"
  using assms by (auto simp: rl_inv_def Allow_def Let_def)

theorem rate_limit_recovers_witness:
  "fst (Allow (snd (Allow (NewRateLimiter 1 1 0) 0)) 1)"
  by (rule rate_limit_recovers)
     (simp_all add: rl_inv_def Allow_def NewRateLimiter_def)

lemma Allow_zero_burst: "burst rl = 0 \<Longrightarrow> \<not> fst (Allow rl now) \<and> burst (snd (Allow rl now)) = 0"
  by (simp add: Allow_def Let_def)

text \<open>
  A fractional limit blocks everything: the daemon accepts any positive
  \<^verbatim>\<open>GOPOSIX_RATE_LIMIT\<close>, but below one request per second the truncated burst is zero and no request
  is ever let through, however long the client waits.
\<close>

theorem fractional_rate_blocks:
  assumes "0 < r" and "r < 1"
  shows "allowed (fst (allow_run (connLimiter r t0) ts)) = 0"
proof -
  have "burst (connLimiter r t0) = 0"
    using assms by (simp add: connLimiter_def NewRateLimiter_def floor_eq_iff)
  moreover have "burst rl = 0 \<Longrightarrow> allowed (fst (allow_run rl ts)) = 0" for rl
  proof (induction ts arbitrary: rl)
    case Nil
    then show ?case by (simp add: allowed_def)
  next
    case (Cons t ts)
    from Cons.IH [of "snd (Allow rl t)"] Allow_zero_burst [OF Cons.prems, of t]
    show ?case by (simp add: split_def Let_def allowed_def)
  qed
  ultimately show ?thesis by blast
qed

theorem fractional_rate_blocks_witness:
  "allowed (fst (allow_run (connLimiter (1 / 2) 0) [0, 10, 1000])) = 0"
  by (rule fractional_rate_blocks) simp_all

end
