(* ===== verification/Paths.thy ===== *)
theory Paths
  imports Gostd
begin

text \<open>
  Path confinement: \<^verbatim>\<open>SecurePath\<close> and \<^verbatim>\<open>resolveSymlinks\<close> of \<^verbatim>\<open>pkg/common/security.go\<close>, over the lexical
  operations of \<^verbatim>\<open>path/filepath\<close> on Unix.  The file system is the operating system's and enters as
  the record \<open>fsenv\<close>: the working directory, the outcome of \<^verbatim>\<open>filepath.EvalSymlinks\<close> for each path,
  and which paths \<^verbatim>\<open>os.Stat\<close> reports as directories.
\<close>

section \<open>path/filepath\<close>

abbreviation SL :: char where "SL \<equiv> CHR 0x2F"

definition path_comps :: "string \<Rightarrow> string list" where
  "path_comps p = filter (\<lambda>c. c \<noteq> [] \<and> c \<noteq> ''.'') (split_char SL p)"

text \<open>The component stack of \<^verbatim>\<open>filepath.Clean\<close>, innermost component first.\<close>

fun clean_comps :: "bool \<Rightarrow> string list \<Rightarrow> string list \<Rightarrow> string list" where
  "clean_comps rooted acc [] = rev acc"
| "clean_comps rooted acc (c # cs) =
     (if c = ''..'' then
        (if acc \<noteq> [] \<and> hd acc \<noteq> ''..'' then clean_comps rooted (tl acc) cs
         else if rooted then clean_comps rooted acc cs
         else clean_comps rooted (''..'' # acc) cs)
      else clean_comps rooted (c # acc) cs)"

definition IsAbs :: "string \<Rightarrow> bool" where
  "IsAbs p \<longleftrightarrow> p \<noteq> [] \<and> hd p = SL"

definition Clean :: "string \<Rightarrow> string" where
  "Clean p =
     (let body = Join (clean_comps (IsAbs p) [] (path_comps p)) [SL]
      in if IsAbs p then SL # body else if body = [] then ''.'' else body)"

definition PathJoin :: "string \<Rightarrow> string \<Rightarrow> string" where
  "PathJoin a b =
     (if a \<noteq> [] then Clean (a @ [SL] @ b) else if b \<noteq> [] then Clean b else [])"

definition upto_last_slash :: "string \<Rightarrow> string" where
  "upto_last_slash p = rev (dropWhile (\<lambda>c. c \<noteq> SL) (rev p))"

definition Dir :: "string \<Rightarrow> string" where
  "Dir p = Clean (upto_last_slash p)"

definition Base :: "string \<Rightarrow> string" where
  "Base p =
     (if p = [] then ''.''
      else let q = rev (dropWhile (\<lambda>c. c = SL) (rev p));
               b = rev (takeWhile (\<lambda>c. c \<noteq> SL) (rev q))
           in if b = [] then [SL] else b)"

section \<open>Facts about clean paths\<close>

definition weight :: "string list \<Rightarrow> nat" where
  "weight cs = sum_list (map (\<lambda>c. length c + 1) cs)"

lemma weight_simps [simp]: "weight [] = 0" "weight (c # cs) = length c + 1 + weight cs"
  by (simp_all add: weight_def)

lemma weight_append [simp]: "weight (xs @ ys) = weight xs + weight ys"
  by (simp add: weight_def)

lemma weight_rev [simp]: "weight (rev xs) = weight xs"
  by (induction xs) auto

lemma weight_filter: "weight (filter P xs) \<le> weight xs"
  by (induction xs) auto

lemma weight_clean: "weight (clean_comps r acc cs) \<le> weight acc + weight cs"
proof (induction r acc cs rule: clean_comps.induct)
  case (1 r acc)
  then show ?case by simp
next
  case (2 r acc c cs)
  then show ?case by (cases acc) auto
qed

lemma length_Join: "xs \<noteq> [] \<Longrightarrow> length (Join xs [s]) + 1 = weight xs"
proof (induction xs)
  case Nil
  then show ?case by simp
next
  case (Cons x xs)
  then show ?case by (cases "xs = []") (simp_all add: Join_Cons)
qed

lemma length_Join_le: "length (Join xs [s]) \<le> weight xs - 1"
  using length_Join [of xs s] by (cases "xs = []") auto

lemma weight_split: "weight (split_char s p) = length p + 1"
  using length_Join [of "split_char s p" s] by (simp add: Join_split_char)

lemma split_char_snoc: "split_char s (p @ [s]) = split_char s p @ [[]]"
proof (induction p)
  case Nil
  show ?case by simp
next
  case (Cons x p)
  then show ?case by (cases "split_char s p") auto
qed

lemma weight_comps_slash: "weight (path_comps (p @ [SL])) \<le> length p + 1"
  using weight_filter [of _ "split_char SL p"] by (simp add: path_comps_def split_char_snoc weight_split)

lemma path_comps_rooted: "path_comps (SL # p) = path_comps p"
  by (simp add: path_comps_def)

lemma weight_comps: "weight (path_comps p) \<le> length p + 1"
  using weight_filter [of _ "split_char SL p"] by (simp add: path_comps_def weight_split)

lemma length_body: "length (Join (clean_comps r [] (path_comps p)) [SL]) \<le> weight (path_comps p) - 1"
  using weight_clean [of r "[]" "path_comps p"] length_Join_le [of "clean_comps r [] (path_comps p)" SL]
  by simp

lemma length_Clean: "p \<noteq> [] \<Longrightarrow> length (Clean p) \<le> length p"
proof (cases "IsAbs p")
  case True
  then obtain q where "p = SL # q" by (cases p) (auto simp: IsAbs_def)
  then show ?thesis
    using length_body [of True p] weight_comps [of q] True
    by (simp add: Clean_def path_comps_rooted)
next
  case False
  assume "p \<noteq> []"
  with False show ?thesis
    using length_body [of False p] weight_comps [of p] by (cases p) (auto simp: Clean_def Let_def)
qed

lemma length_Clean_slash: "q \<noteq> [] \<Longrightarrow> length (Clean (q @ [SL])) \<le> length q"
proof (cases "IsAbs (q @ [SL])")
  case True
  assume "q \<noteq> []"
  with True obtain r where "q = SL # r" by (cases q) (auto simp: IsAbs_def)
  then show ?thesis
    using length_body [of True "q @ [SL]"] weight_comps_slash [of r] True
    by (simp add: Clean_def path_comps_rooted)
next
  case False
  assume "q \<noteq> []"
  with False show ?thesis
    using length_body [of False "q @ [SL]"] weight_comps_slash [of q]
    by (cases q) (auto simp: Clean_def Let_def)
qed

definition path_measure :: "string \<Rightarrow> nat" where
  "path_measure p = (if p = ''.'' then 0 else length p + 1)"

lemma upto_last_slash_cases:
  "upto_last_slash p = [] \<or> (\<exists>q r. upto_last_slash p = q @ [SL] \<and> p = q @ [SL] @ r)"
proof (cases "dropWhile (\<lambda>c. c \<noteq> SL) (rev p)")
  case Nil
  then show ?thesis by (simp add: upto_last_slash_def)
next
  case (Cons x xs)
  then have "x = SL" using hd_dropWhile [of "\<lambda>c. c \<noteq> SL" "rev p"] by auto
  moreover have "rev p = takeWhile (\<lambda>c. c \<noteq> SL) (rev p) @ x # xs"
    using Cons by (metis takeWhile_dropWhile_id)
  then have "p = rev xs @ [x] @ rev (takeWhile (\<lambda>c. c \<noteq> SL) (rev p))"
    by (metis append.assoc rev.simps(2) rev_append rev_rev_ident append_Cons append_Nil)
  ultimately show ?thesis using Cons by (auto simp: upto_last_slash_def)
qed

text \<open>Walking up with \<^verbatim>\<open>filepath.Dir\<close> makes progress until it reaches a fixed point.\<close>

lemma Dir_progress: "Dir p \<noteq> p \<Longrightarrow> path_measure (Dir p) < path_measure p"
proof -
  assume ne: "Dir p \<noteq> p"
  show ?thesis
  proof (cases "upto_last_slash p = []")
    case True
    then have "Dir p = ''.''" by (simp add: Dir_def Clean_def IsAbs_def path_comps_def)
    with ne show ?thesis by (simp add: path_measure_def)
  next
    case False
    then obtain q r where u: "upto_last_slash p = q @ [SL]" and p: "p = q @ [SL] @ r"
      using upto_last_slash_cases by blast
    have pd: "p \<noteq> ''.''" using p by (cases q) auto
    have "length (Dir p) < length p"
    proof (cases "q = []")
      case True
      then have "Dir p = [SL]" using u by (simp add: Dir_def Clean_def IsAbs_def path_comps_def)
      with ne p True show ?thesis by (cases r) auto
    next
      case False
      then show ?thesis using length_Clean_slash [of q] u p by (simp add: Dir_def)
    qed
    with pd show ?thesis by (simp add: path_measure_def)
  qed
qed

section \<open>pkg/common/security.go\<close>

datatype fserr = NotExist | OtherErr string

record fsenv =
  Getwd :: "fserr + string"
  EvalSymlinks :: "string \<Rightarrow> fserr + string"
  StatIsDir :: "string \<Rightarrow> bool"

definition Abs :: "fsenv \<Rightarrow> string \<Rightarrow> fserr + string" where
  "Abs E p = (if IsAbs p then Inr (Clean p) else case Getwd E of Inl e \<Rightarrow> Inl e | Inr wd \<Rightarrow> Inr (PathJoin wd p))"

text \<open>The loop of \<^verbatim>\<open>resolveSymlinks\<close> that walks up to the deepest existing ancestor.\<close>

function resolve_up :: "fsenv \<Rightarrow> string \<Rightarrow> string \<Rightarrow> string \<Rightarrow> fserr + string" where
  "resolve_up E path missing current =
     (case EvalSymlinks E current of
        Inr resolved \<Rightarrow>
          Inr (if missing = [] then Clean resolved else Clean (PathJoin resolved missing))
      | Inl (OtherErr e) \<Rightarrow> Inl (OtherErr e)
      | Inl NotExist \<Rightarrow>
          (let base = Base current;
               missing' = (if missing = [] then base else PathJoin base missing);
               parent = Dir current
           in if parent = current then Inr (Clean path)
              else resolve_up E path missing' parent))"
  by pat_completeness auto
termination
  by (relation "measure (\<lambda>(E, path, missing, current). path_measure current)")
     (auto intro: Dir_progress)

declare resolve_up.simps [simp del]

definition resolveSymlinks :: "fsenv \<Rightarrow> string \<Rightarrow> fserr + string" where
  "resolveSymlinks E path =
     (case EvalSymlinks E path of
        Inr resolved \<Rightarrow> Inr (Clean resolved)
      | Inl (OtherErr e) \<Rightarrow> Inl (OtherErr e)
      | Inl NotExist \<Rightarrow> resolve_up E path [] path)"

definition traversal_error :: fserr where
  "traversal_error = OtherErr ''path traversal detected: target escapes base directory''"

definition with_sep :: "string \<Rightarrow> string" where
  "with_sep p = (if suffix [SL] p then p else p @ [SL])"

definition SecurePath :: "fsenv \<Rightarrow> string \<Rightarrow> string \<Rightarrow> fserr + string" where
  "SecurePath E target baseDir0 =
     (let baseDir = (if baseDir0 = [] then [SL] else baseDir0)
      in case Abs E baseDir of
           Inl e \<Rightarrow> Inl e
         | Inr ab \<Rightarrow>
             (let absBase = Clean ab
              in case resolveSymlinks E absBase of
                   Inl e \<Rightarrow> Inl e
                 | Inr realBase \<Rightarrow>
                     (let absTarget = (if IsAbs target then Clean target else Clean (PathJoin absBase target))
                      in if realBase = [SL] \<or> realBase = [CHR 0x5C] then Inr absTarget
                         else case resolveSymlinks E absTarget of
                                Inl e \<Rightarrow> Inl e
                              | Inr realTarget \<Rightarrow>
                                  if realTarget \<noteq> realBase \<and> \<not> prefix (with_sep realBase) (with_sep realTarget)
                                  then Inl traversal_error
                                  else Inr realTarget)))"

section \<open>Clean absolute paths\<close>

definition good_comp :: "string \<Rightarrow> bool" where
  "good_comp c \<longleftrightarrow> c \<noteq> [] \<and> c \<noteq> ''.'' \<and> c \<noteq> ''..'' \<and> SL \<notin> set c"

text \<open>The normal form of absolute paths: a slash, then real components separated by single slashes.\<close>

definition clean_abs :: "string \<Rightarrow> bool" where
  "clean_abs p \<longleftrightarrow> (\<exists>cs. p = SL # Join cs [SL] \<and> (\<forall>c \<in> set cs. good_comp c))"

lemma clean_comps_rooted_good:
  "\<forall>c \<in> set cs. c \<noteq> [] \<and> c \<noteq> ''.'' \<and> SL \<notin> set c \<Longrightarrow> \<forall>c \<in> set acc. good_comp c \<Longrightarrow>
   \<forall>c \<in> set (clean_comps True acc cs). good_comp c"
proof (induction cs arbitrary: acc)
  case Nil
  then show ?case by simp
next
  case (Cons c cs)
  have ok: "\<forall>c \<in> set cs. c \<noteq> [] \<and> c \<noteq> ''.'' \<and> SL \<notin> set c"
    and c: "c \<noteq> [] \<and> c \<noteq> ''.'' \<and> SL \<notin> set c" using Cons.prems(1) by auto
  have tl: "\<forall>c \<in> set (tl acc). good_comp c" using Cons.prems(2) by (cases acc) simp_all
  show ?case
  proof (cases "c = ''..''")
    case True
    then have "clean_comps True acc (c # cs) = clean_comps True (tl acc) cs
      \<or> clean_comps True acc (c # cs) = clean_comps True acc cs" by simp
    then show ?thesis using Cons.IH [OF ok tl] Cons.IH [OF ok Cons.prems(2)] by metis
  next
    case False
    with c Cons.prems(2) have "\<forall>x \<in> set (c # acc). good_comp x" by (simp add: good_comp_def)
    from Cons.IH [OF ok this] False show ?thesis by simp
  qed
qed

lemma path_comps_elems: "c \<in> set (path_comps p) \<Longrightarrow> c \<noteq> [] \<and> c \<noteq> ''.'' \<and> SL \<notin> set c"
  by (auto simp: path_comps_def dest: split_char_no_sep)

lemma clean_abs_Clean: "IsAbs p \<Longrightarrow> clean_abs (Clean p)"
  using clean_comps_rooted_good [of "path_comps p" "[]"] path_comps_elems [of _ p]
  by (auto simp: clean_abs_def Clean_def)

lemma path_comps_canon:
  assumes "\<forall>c \<in> set cs. good_comp c"
  shows "path_comps (SL # Join cs [SL]) = cs"
proof (cases "cs = []")
  case True
  then show ?thesis by (simp add: path_comps_def)
next
  case False
  with assms have "split_char SL (Join cs [SL]) = cs"
    by (intro split_char_Join) (auto simp: good_comp_def)
  moreover have "filter (\<lambda>c. c \<noteq> [] \<and> c \<noteq> ''.'') cs = cs"
    using assms by (auto simp: filter_id_conv good_comp_def)
  ultimately show ?thesis by (simp add: path_comps_def)
qed

lemma clean_comps_id:
  "\<forall>c \<in> set cs. c \<noteq> ''..'' \<Longrightarrow> clean_comps r acc cs = rev acc @ cs"
  by (induction cs arbitrary: acc) auto

lemma Clean_id: "clean_abs p \<Longrightarrow> Clean p = p"
proof -
  assume "clean_abs p"
  then obtain cs where p: "p = SL # Join cs [SL]" and g: "\<forall>c \<in> set cs. good_comp c"
    by (auto simp: clean_abs_def)
  then have "clean_comps True [] cs = cs" by (simp add: clean_comps_id good_comp_def)
  with p path_comps_canon [OF g] show ?thesis by (simp add: Clean_def IsAbs_def)
qed

lemma clean_abs_IsAbs: "clean_abs p \<Longrightarrow> IsAbs p"
  by (auto simp: clean_abs_def IsAbs_def)

lemma clean_abs_comps: "clean_abs p \<Longrightarrow> p = SL # Join (path_comps p) [SL] \<and> (\<forall>c \<in> set (path_comps p). good_comp c)"
  using path_comps_canon by (auto simp: clean_abs_def)

text \<open>Every component followed by a slash: the separated form the prefix test compares.\<close>

definition slashed :: "string list \<Rightarrow> string" where
  "slashed cs = concat (map (\<lambda>c. c @ [SL]) cs)"

lemma Join_slashed: "cs \<noteq> [] \<Longrightarrow> Join cs [SL] @ [SL] = slashed cs"
proof (induction cs)
  case Nil
  then show ?case by simp
next
  case (Cons c cs)
  then show ?case by (cases "cs = []") (simp_all add: slashed_def Join_Cons)
qed

lemma first_sep_unique:
  "SL \<notin> set a \<Longrightarrow> SL \<notin> set b \<Longrightarrow> a @ SL # x = b @ SL # y \<Longrightarrow> a = b \<and> x = y"
  by (induction a arbitrary: b) (auto simp: Cons_eq_append_conv)

lemma prefix_first_sep:
  assumes "SL \<notin> set a" and "SL \<notin> set b"
  shows "prefix (a @ SL # x) (b @ SL # y) \<longleftrightarrow> a = b \<and> prefix x y"
proof
  assume "prefix (a @ SL # x) (b @ SL # y)"
  then obtain z where "b @ SL # y = a @ SL # (x @ z)" by (auto simp: prefix_def)
  from first_sep_unique [OF assms(2,1) this] show "a = b \<and> prefix x y" by (auto simp: prefix_def)
qed auto

lemma prefix_slashed:
  "\<forall>c \<in> set bs. SL \<notin> set c \<Longrightarrow> \<forall>c \<in> set ps. SL \<notin> set c \<Longrightarrow>
   prefix (slashed bs) (slashed ps) \<longleftrightarrow> prefix bs ps"
proof (induction bs arbitrary: ps)
  case Nil
  then show ?case by (simp add: slashed_def)
next
  case (Cons b bs)
  show ?case
  proof (cases ps)
    case Nil
    then show ?thesis by (simp add: slashed_def)
  next
    case p: (Cons q qs)
    have "prefix (slashed (b # bs)) (slashed ps) \<longleftrightarrow> b = q \<and> prefix (slashed bs) (slashed qs)"
      using Cons.prems p by (simp add: slashed_def prefix_first_sep)
    with Cons p show ?thesis by simp
  qed
qed

lemma with_sep_clean:
  assumes "clean_abs p"
  shows "with_sep p = SL # slashed (path_comps p)"
proof (cases "path_comps p = []")
  case True
  have "p = [SL]" using clean_abs_comps [OF assms] unfolding True by simp
  then show ?thesis using True by (simp add: with_sep_def slashed_def)
next
  case False
  let ?cs = "path_comps p"
  have p: "p = SL # Join ?cs [SL]" and g: "\<forall>c \<in> set ?cs. good_comp c"
    using clean_abs_comps [OF assms] by auto
  obtain cs l where cl: "?cs = cs @ [l]" using False by (metis rev_exhaust)
  have j: "\<exists>z. Join (cs @ [l]) [SL] = z @ l"
  proof (induction cs)
    case Nil
    show ?case by simp
  next
    case (Cons c cs)
    then show ?case by (metis Join_Cons append.assoc append_Cons append_is_Nil_conv not_Cons_self2)
  qed
  have l: "good_comp l" using g cl by simp
  have "\<not> suffix [SL] p"
  proof
    assume "suffix [SL] p"
    then have "last p = SL" by (auto simp: suffix_def)
    moreover obtain z where "p = SL # z @ l" using j p cl by metis
    ultimately have "last l = SL" using l by (auto simp: good_comp_def)
    with l last_in_set [of l] show False by (simp add: good_comp_def)
  qed
  then have "with_sep p = p @ [SL]" by (simp add: with_sep_def)
  also have "\<dots> = SL # (Join ?cs [SL] @ [SL])" using p by (metis append_Cons)
  finally show ?thesis by (simp only: Join_slashed [OF False])
qed

text \<open>The string test of \<^verbatim>\<open>SecurePath\<close> decides containment of component lists.\<close>

lemma prefix_test:
  assumes "clean_abs b" and "clean_abs p"
  shows "(p = b \<or> prefix (with_sep b) (with_sep p)) \<longleftrightarrow> prefix (path_comps b) (path_comps p)"
proof -
  have "prefix (with_sep b) (with_sep p) \<longleftrightarrow> prefix (path_comps b) (path_comps p)"
    using clean_abs_comps [OF assms(1)] clean_abs_comps [OF assms(2)]
    by (simp add: with_sep_clean assms prefix_slashed good_comp_def)
  then show ?thesis by auto
qed

section \<open>Confinement\<close>

text \<open>The documented behaviour of \<^verbatim>\<open>filepath.EvalSymlinks\<close> the guard relies on: an absolute path
  evaluates to an absolute path.\<close>

definition eval_abs :: "fsenv \<Rightarrow> bool" where
  "eval_abs E \<longleftrightarrow> (\<forall>p r. EvalSymlinks E p = Inr r \<longrightarrow> IsAbs p \<longrightarrow> IsAbs r)"

definition realBase :: "fsenv \<Rightarrow> string \<Rightarrow> fserr + string" where
  "realBase E b =
     (case Abs E (if b = [] then [SL] else b) of
        Inl e \<Rightarrow> Inl e
      | Inr ab \<Rightarrow> resolveSymlinks E (Clean ab))"

definition absTarget :: "fsenv \<Rightarrow> string \<Rightarrow> string \<Rightarrow> string" where
  "absTarget E t b =
     (case Abs E (if b = [] then [SL] else b) of
        Inl e \<Rightarrow> []
      | Inr ab \<Rightarrow> if IsAbs t then Clean t else Clean (PathJoin (Clean ab) t))"

definition unrestricted :: "string \<Rightarrow> bool" where
  "unrestricted rb \<longleftrightarrow> rb = [SL] \<or> rb = [CHR 0x5C]"

definition inside :: "string \<Rightarrow> string \<Rightarrow> bool" where
  "inside rb p \<longleftrightarrow> p = rb \<or> prefix (with_sep rb) (with_sep p)"

text \<open>\<^verbatim>\<open>SecurePath\<close> in terms of the resolved base and target.\<close>

lemma SecurePath_cases:
  "SecurePath E t b =
     (case realBase E b of
        Inl e \<Rightarrow> Inl e
      | Inr rb \<Rightarrow>
          if unrestricted rb then Inr (absTarget E t b)
          else case resolveSymlinks E (absTarget E t b) of
                 Inl e \<Rightarrow> Inl e
               | Inr p \<Rightarrow> if inside rb p then Inr p else Inl traversal_error)"
  by (simp add: SecurePath_def realBase_def absTarget_def unrestricted_def inside_def Let_def
      split: sum.split)

lemma SecurePath_guarded:
  "SecurePath E t b = Inr p \<Longrightarrow> \<exists>rb. realBase E b = Inr rb \<and> (unrestricted rb \<or> inside rb p)"
  by (auto simp: SecurePath_cases split: sum.splits if_splits)

lemma IsAbs_Clean [simp]: "IsAbs (Clean p) = IsAbs p"
proof (cases "IsAbs p")
  case True
  then show ?thesis by (simp add: Clean_def IsAbs_def)
next
  case False
  let ?cs = "clean_comps False [] (path_comps p)"
  have mem: "c \<in> set (clean_comps False acc cs) \<Longrightarrow> c \<in> set acc \<or> c \<in> set cs \<or> c = ''..''" for c acc cs
  proof (induction cs arbitrary: acc)
    case (Cons x xs)
    then show ?case by (cases acc) (fastforce split: if_splits)+
  qed simp
  have hd: "hd (Join ?cs [SL]) \<noteq> SL" if "Join ?cs [SL] \<noteq> []"
  proof (cases ?cs)
    case Nil
    with that show ?thesis by simp
  next
    case (Cons c cs)
    have "c \<noteq> [] \<and> SL \<notin> set c"
      using mem [of c "[]" "path_comps p"] path_comps_elems [of c p] Cons by auto
    then show ?thesis using Cons by (cases c; cases cs) auto
  qed
  with False show ?thesis by (auto simp: Clean_def Let_def IsAbs_def)
qed

lemma Clean_not_Nil [simp]: "Clean p \<noteq> []"
  by (simp add: Clean_def Let_def)

lemma IsAbs_upto: "IsAbs p \<Longrightarrow> IsAbs (upto_last_slash p)"
proof -
  assume a: "IsAbs p"
  then have "SL \<in> set p" by (cases p) (auto simp: IsAbs_def)
  then have "upto_last_slash p \<noteq> []" by (auto simp: upto_last_slash_def dropWhile_eq_Nil_conv)
  then obtain q r where "upto_last_slash p = q @ [SL]" "p = q @ [SL] @ r"
    using upto_last_slash_cases by blast
  with a show ?thesis by (cases q) (auto simp: IsAbs_def)
qed

lemma IsAbs_Dir: "IsAbs p \<Longrightarrow> IsAbs (Dir p)"
  by (simp add: Dir_def IsAbs_upto)

lemma IsAbs_PathJoin: "IsAbs a \<Longrightarrow> IsAbs (PathJoin a b)"
  by (auto simp: PathJoin_def IsAbs_def [of "a @ _"]) (auto simp: IsAbs_def)

lemma resolve_up_clean:
  "resolve_up E path missing cur = Inr r \<Longrightarrow> eval_abs E \<Longrightarrow> IsAbs path \<Longrightarrow> IsAbs cur \<Longrightarrow> clean_abs r"
proof (induction E path missing cur rule: resolve_up.induct)
  case (1 E path missing current)
  show ?case
  proof (cases "EvalSymlinks E current")
    case (Inr res)
    then have "IsAbs res" using "1.prems" by (auto simp: eval_abs_def)
    with Inr "1.prems"(1) show ?thesis
      by (subst (asm) resolve_up.simps) (auto simp: clean_abs_Clean IsAbs_PathJoin split: if_splits)
  next
    case (Inl e)
    show ?thesis
    proof (cases e)
      case NotExist
      have "r = Clean path \<or> Dir current \<noteq> current \<and> resolve_up E path
          (if missing = [] then Base current else PathJoin (Base current) missing) (Dir current) = Inr r"
        using "1.prems"(1) Inl NotExist
        by (simp add: resolve_up.simps [of E path missing current] Let_def split: if_splits)
      with "1.prems" "1.IH" [OF Inl NotExist refl refl refl] show ?thesis
        by (auto simp: clean_abs_Clean IsAbs_Dir)
    next
      case (OtherErr s)
      with Inl "1.prems"(1) show ?thesis by (subst (asm) resolve_up.simps) simp
    qed
  qed
qed

lemma resolveSymlinks_clean:
  "resolveSymlinks E p = Inr r \<Longrightarrow> eval_abs E \<Longrightarrow> IsAbs p \<Longrightarrow> clean_abs r"
  by (auto simp: resolveSymlinks_def eval_abs_def clean_abs_Clean resolve_up_clean
      split: sum.splits fserr.splits)

text \<open>The documented facts about the file system: symbolic links of absolute paths evaluate to
  absolute paths, and the working directory is absolute.\<close>

definition env_ok :: "fsenv \<Rightarrow> bool" where
  "env_ok E \<longleftrightarrow> eval_abs E \<and> (\<forall>wd. Getwd E = Inr wd \<longrightarrow> IsAbs wd)"

lemma Abs_IsAbs: "env_ok E \<Longrightarrow> Abs E b = Inr ab \<Longrightarrow> IsAbs ab"
  by (auto simp: env_ok_def Abs_def IsAbs_PathJoin split: if_splits sum.splits)

lemma realBase_Inr:
  assumes "realBase E b = Inr rb"
  obtains ab where "Abs E (if b = [] then [SL] else b) = Inr ab" "resolveSymlinks E (Clean ab) = Inr rb"
  using assms by (cases "Abs E (if b = [] then [SL] else b)") (simp_all add: realBase_def)

lemma realBase_clean:
  assumes "env_ok E" and "realBase E b = Inr rb"
  shows "clean_abs rb"
proof -
  obtain ab where ab: "Abs E (if b = [] then [SL] else b) = Inr ab" "resolveSymlinks E (Clean ab) = Inr rb"
    using assms(2) by (rule realBase_Inr)
  then have "IsAbs (Clean ab)" using Abs_IsAbs [OF assms(1)] by simp
  with ab assms(1) show ?thesis by (auto simp: env_ok_def intro: resolveSymlinks_clean)
qed

lemma absTarget_IsAbs:
  assumes "env_ok E" and "realBase E b = Inr rb"
  shows "IsAbs (absTarget E t b)"
proof -
  obtain ab where ab: "Abs E (if b = [] then [SL] else b) = Inr ab" using assms(2) by (rule realBase_Inr)
  moreover have "IsAbs ab" using Abs_IsAbs [OF assms(1) ab] .
  ultimately show ?thesis by (simp add: absTarget_def IsAbs_PathJoin)
qed

lemma absTarget_not_Nil: "realBase E b = Inr rb \<Longrightarrow> absTarget E t b \<noteq> []"
  by (erule realBase_Inr) (simp add: absTarget_def)

text \<open>
  C1. Confinement, both ways: against a base directory that does not resolve to the root,
  \<^verbatim>\<open>SecurePath\<close> returns \<open>p\<close> exactly if the target resolves to \<open>p\<close> and the path components of the
  resolved base are a prefix of those of \<open>p\<close>; and then \<open>p\<close> is absolute and in normal form, without
  dot-dot components.
\<close>

theorem SecurePath_confined:
  assumes "env_ok E" and "realBase E b = Inr rb" and "rb \<noteq> [SL]"
  shows "SecurePath E t b = Inr p
     \<longleftrightarrow> resolveSymlinks E (absTarget E t b) = Inr p \<and> clean_abs p \<and> ''..'' \<notin> set (path_comps p)
         \<and> prefix (path_comps rb) (path_comps p)"
proof -
  have rb: "clean_abs rb" using assms(1,2) by (rule realBase_clean)
  then have "\<not> unrestricted rb"
    using assms(3) by (auto simp: unrestricted_def clean_abs_def)
  moreover have "resolveSymlinks E (absTarget E t b) = Inr p
      \<Longrightarrow> clean_abs p \<and> ''..'' \<notin> set (path_comps p) \<and> (inside rb p \<longleftrightarrow> prefix (path_comps rb) (path_comps p))"
    using resolveSymlinks_clean absTarget_IsAbs [OF assms(1,2)] assms(1) prefix_test [OF rb]
      clean_abs_comps [of p]
    by (auto simp: env_ok_def inside_def good_comp_def)
  ultimately show ?thesis
    using assms(2) by (auto simp: SecurePath_cases split: sum.splits if_splits)
qed

text \<open>
  Without a base there is no confinement: a base directory that resolves to the root (the
  default of a fresh session and of calls without a session) accepts every target and returns its
  lexical normal form, with symbolic links left unresolved.
\<close>

theorem SecurePath_root:
  assumes "realBase E b = Inr [SL]"
  shows "SecurePath E t b = Inr (absTarget E t b)"
  using assms by (simp add: SecurePath_cases unrestricted_def)

section \<open>A concrete file system\<close>

text \<open>A directory \<^verbatim>\<open>/srv\<close> holding a file \<^verbatim>\<open>a\<close> and a symbolic link \<^verbatim>\<open>out\<close> to \<^verbatim>\<open>/etc\<close>.\<close>

definition demo_fs :: fsenv where
  "demo_fs = \<lparr>Getwd = Inr ''/'',
     EvalSymlinks = (\<lambda>p.
       if p = ''/'' \<or> p = ''/srv'' \<or> p = ''/srv/a'' \<or> p = ''/etc'' then Inr p
       else if p = ''/srv/out'' then Inr ''/etc'' else Inl NotExist),
     StatIsDir = (\<lambda>p. p = ''/'' \<or> p = ''/srv'' \<or> p = ''/etc'')\<rparr>"

lemma demo_fs_ok: "env_ok demo_fs"
  by (simp add: env_ok_def eval_abs_def demo_fs_def IsAbs_def)

lemma demo_fs_base: "realBase demo_fs ''/srv'' = Inr ''/srv''" "realBase demo_fs ''/'' = Inr ''/''"
  by code_simp+

lemma demo_fs_new: "resolveSymlinks demo_fs (absTarget demo_fs ''x/../new'' ''/srv'') = Inr ''/srv/new''"
  by (simp add: resolveSymlinks_def) code_simp

lemma demo_fs_link: "resolveSymlinks demo_fs (absTarget demo_fs ''out/passwd'' ''/srv'') = Inr ''/etc/passwd''"
  by code_simp

theorem SecurePath_confined_witness:
  "SecurePath demo_fs ''x/../new'' ''/srv'' = Inr ''/srv/new''
   \<and> resolveSymlinks demo_fs (absTarget demo_fs ''out/passwd'' ''/srv'') = Inr ''/etc/passwd''
   \<and> SecurePath demo_fs ''out/passwd'' ''/srv'' \<noteq> Inr ''/etc/passwd''"
proof -
  have "Clean ''/srv/new'' = ''/srv/new''" by code_simp
  then have "clean_abs ''/srv/new''" using clean_abs_Clean [of "''/srv/new''"] by (simp add: IsAbs_def)
  moreover have "path_comps ''/srv/new'' = [''srv'', ''new'']" "path_comps ''/srv'' = [''srv'']"
    "path_comps ''/etc/passwd'' = [''etc'', ''passwd'']"
    by code_simp+
  ultimately show ?thesis
    using SecurePath_confined [OF demo_fs_ok demo_fs_base(1), of "''x/../new''" "''/srv/new''"]
      SecurePath_confined [OF demo_fs_ok demo_fs_base(1), of "''out/passwd''" "''/etc/passwd''"] demo_fs_new demo_fs_link
    by simp
qed

theorem SecurePath_root_witness: "SecurePath demo_fs ''/srv/out/passwd'' ''/'' = Inr ''/srv/out/passwd''"
proof -
  have "absTarget demo_fs ''/srv/out/passwd'' ''/'' = ''/srv/out/passwd''" by code_simp
  then show ?thesis using SecurePath_root [OF demo_fs_base(2), of "''/srv/out/passwd''"] by simp
qed

end
