(* ===== verification/Session.thy ===== *)
theory Session
  imports Paths "HOL-Library.AList"
begin

text \<open>
  Daemon sessions: \<^verbatim>\<open>internal/daemon/session.go\<close>.  The map of sessions is an association list with
  distinct keys, whose order stands for the (unspecified) iteration order of the Go map.  Each method
  runs under the manager's mutex, so it is one atomic operation on the manager; the clock, the random
  bytes, the path guard and the directory test are arguments.  Times are in nanoseconds.
\<close>

section \<open>Data and operations\<close>

record Session =
  S_ID :: string
  S_CWD :: string
  S_BaseDir :: string
  S_Env :: "(string \<times> string) list"
  S_LastActive :: int

record SessionManager =
  sessions :: "(string \<times> Session) list"
  ttl :: int
  totalSessionsCreated :: int
  stopped :: bool

text \<open>\<^verbatim>\<open>Session.copy\<close>: a deep copy has the same value.\<close>

definition copy_session :: "Session \<Rightarrow> Session" where
  "copy_session s =
     \<lparr>S_ID = S_ID s, S_CWD = S_CWD s, S_BaseDir = S_BaseDir s, S_Env = S_Env s,
      S_LastActive = S_LastActive s\<rparr>"

lemma copy_session_eq [simp]: "copy_session s = s"
  by (simp add: copy_session_def)

definition NewSessionManager :: "int \<Rightarrow> SessionManager" where
  "NewSessionManager t = \<lparr>sessions = [], ttl = t, totalSessionsCreated = 0, stopped = False\<rparr>"

definition hex_byte :: "char \<Rightarrow> string" where
  "hex_byte c =
     (let h = (\<lambda>d. if d < 10 then char_of (48 + d) else char_of (87 + d))
      in [h (code c div 16), h (code c mod 16)])"

definition hexEncode :: "string \<Rightarrow> string" where
  "hexEncode b = concat (map hex_byte b)"

text \<open>\<open>b\<close> is the eight bytes \<^verbatim>\<open>crypto/rand\<close> delivered.\<close>

definition Create :: "string \<Rightarrow> int \<Rightarrow> SessionManager \<Rightarrow> Session \<times> SessionManager" where
  "Create b now sm =
     (let i = hexEncode b;
          s = \<lparr>S_ID = i, S_CWD = [SL], S_BaseDir = [SL], S_Env = [], S_LastActive = now\<rparr>
      in (s, sm\<lparr>sessions := AList.update i s (sessions sm),
                totalSessionsCreated := wrap64 (totalSessionsCreated sm + 1)\<rparr>))"

definition Get_session :: "string \<Rightarrow> int \<Rightarrow> SessionManager \<Rightarrow> Session option \<times> SessionManager" where
  "Get_session i now sm =
     (case map_of (sessions sm) i of
        None \<Rightarrow> (None, sm)
      | Some s \<Rightarrow>
          (let s' = s\<lparr>S_LastActive := now\<rparr>
           in (Some (copy_session s'), sm\<lparr>sessions := AList.update i s' (sessions sm)\<rparr>)))"

definition SetCwd ::
  "(string \<Rightarrow> string \<Rightarrow> fserr + string) \<Rightarrow> (string \<Rightarrow> bool) \<Rightarrow> string \<Rightarrow> string \<Rightarrow> int \<Rightarrow> SessionManager
   \<Rightarrow> bool \<times> SessionManager" where
  "SetCwd secure isDir i path now sm =
     (case map_of (sessions sm) i of
        None \<Rightarrow> (False, sm)
      | Some s \<Rightarrow>
          (let base = (if S_BaseDir s \<noteq> [] then S_BaseDir s else [SL])
           in case secure path base of
                Inl e \<Rightarrow> (False, sm)
              | Inr p \<Rightarrow>
                  if \<not> isDir p then (False, sm)
                  else (let s1 = s\<lparr>S_CWD := p, S_LastActive := now\<rparr>;
                            s2 = (if S_BaseDir s1 = [SL] \<and> p \<noteq> [SL] then s1\<lparr>S_BaseDir := p\<rparr> else s1)
                        in (True, sm\<lparr>sessions := AList.update i s2 (sessions sm)\<rparr>))))"

definition Destroy :: "string \<Rightarrow> SessionManager \<Rightarrow> bool \<times> SessionManager" where
  "Destroy i sm =
     (if map_of (sessions sm) i \<noteq> None
      then (True, sm\<lparr>sessions := AList.delete i (sessions sm)\<rparr>) else (False, sm))"

definition TotalCreated :: "SessionManager \<Rightarrow> int" where
  "TotalCreated sm = totalSessionsCreated sm"

definition List_sessions :: "SessionManager \<Rightarrow> Session list" where
  "List_sessions sm = map (\<lambda>e. copy_session (snd e)) (sessions sm)"

text \<open>One tick of \<^verbatim>\<open>cleanupLoop\<close>; after \<^verbatim>\<open>Stop\<close> the loop has returned and ticks do nothing.\<close>

definition cleanup_tick :: "int \<Rightarrow> SessionManager \<Rightarrow> SessionManager" where
  "cleanup_tick now sm =
     (if stopped sm then sm
      else sm\<lparr>sessions := filter (\<lambda>e. \<not> now - S_LastActive (snd e) > ttl sm) (sessions sm)\<rparr>)"

definition Stop_sessions :: "SessionManager \<Rightarrow> SessionManager" where
  "Stop_sessions sm = (if stopped sm then sm else sm\<lparr>stopped := True\<rparr>)"

section \<open>Runs of the manager\<close>

text \<open>Any interleaving of the methods by the daemon's workers and the clean-up goroutine is a sequence of these steps, each atomic
  under the mutex.  The file system changes between the steps, by the daemon's own commands or from outside: each directory
  change sees its own state of the environment, one of the set \<open>Es\<close>.\<close>

inductive sm_step ::
  "('e \<Rightarrow> string \<Rightarrow> string \<Rightarrow> fserr + string) \<Rightarrow> ('e \<Rightarrow> string \<Rightarrow> bool) \<Rightarrow> 'e set \<Rightarrow> SessionManager \<Rightarrow> SessionManager \<Rightarrow> bool"
  for secure isDir Es where
  create: "sm_step secure isDir Es sm (snd (Create b now sm))"
| get: "sm_step secure isDir Es sm (snd (Get_session i now sm))"
| set_cwd: "E \<in> Es \<Longrightarrow> sm_step secure isDir Es sm (snd (SetCwd (secure E) (isDir E) i path now sm))"
| destroy: "sm_step secure isDir Es sm (snd (Destroy i sm))"
| tick: "sm_step secure isDir Es sm (cleanup_tick now sm)"
| stop: "sm_step secure isDir Es sm (Stop_sessions sm)"

inductive sm_reach ::
  "('e \<Rightarrow> string \<Rightarrow> string \<Rightarrow> fserr + string) \<Rightarrow> ('e \<Rightarrow> string \<Rightarrow> bool) \<Rightarrow> 'e set \<Rightarrow> SessionManager \<Rightarrow> bool"
  for secure isDir Es where
  init: "sm_reach secure isDir Es (NewSessionManager t)"
| step: "sm_reach secure isDir Es sm \<Longrightarrow> sm_step secure isDir Es sm sm' \<Longrightarrow> sm_reach secure isDir Es sm'"

inductive_cases sm_stepE: "sm_step secure isDir Es sm sm'"

lemma sm_step_mono: "sm_step secure isDir Es sm sm' \<Longrightarrow> Es \<subseteq> Fs \<Longrightarrow> sm_step secure isDir Fs sm sm'"
  by (erule sm_stepE) (auto intro: sm_step.intros)

lemma sm_reach_mono: "sm_reach secure isDir Es sm \<Longrightarrow> Es \<subseteq> Fs \<Longrightarrow> sm_reach secure isDir Fs sm"
  by (induction rule: sm_reach.induct) (blast intro: sm_reach.intros sm_step_mono)+

section \<open>Well-formed managers\<close>

text \<open>Distinct keys, and every session filed under its own identifier.\<close>

definition store_wf :: "(string \<times> Session) list \<Rightarrow> bool" where
  "store_wf xs \<longleftrightarrow> distinct (map fst xs) \<and> (\<forall>e \<in> set xs. S_ID (snd e) = fst e)"

definition store_all :: "(Session \<Rightarrow> bool) \<Rightarrow> (string \<times> Session) list \<Rightarrow> bool" where
  "store_all P xs \<longleftrightarrow> (\<forall>e \<in> set xs. P (snd e))"

lemma set_update_subset: "set (AList.update i s xs) \<subseteq> insert (i, s) (set xs)"
  by (induction xs) auto

lemma store_wf_update: "store_wf xs \<Longrightarrow> S_ID s = i \<Longrightarrow> store_wf (AList.update i s xs)"
  using set_update_subset [of i s xs] by (auto simp: store_wf_def distinct_update)

lemma store_all_update: "store_all P xs \<Longrightarrow> P s \<Longrightarrow> store_all P (AList.update i s xs)"
  using set_update_subset [of i s xs] by (auto simp: store_all_def)

lemma store_wf_filter: "store_wf xs \<Longrightarrow> store_wf (filter Q xs)"
  by (auto simp: store_wf_def distinct_map_filter)

lemma store_all_filter: "store_all P xs \<Longrightarrow> store_all P (filter Q xs)"
  by (auto simp: store_all_def)

lemma store_wf_delete: "store_wf xs \<Longrightarrow> store_wf (AList.delete i xs)"
  by (simp add: AList.delete_eq store_wf_filter)

lemma store_all_delete: "store_all P xs \<Longrightarrow> store_all P (AList.delete i xs)"
  by (simp add: AList.delete_eq store_all_filter)

lemma store_wf_get: "store_wf xs \<Longrightarrow> map_of xs i = Some s \<Longrightarrow> S_ID s = i"
  by (auto simp: store_wf_def dest: map_of_SomeD)

lemma store_all_get: "store_all P xs \<Longrightarrow> map_of xs i = Some s \<Longrightarrow> P s"
  using map_of_SomeD by (fastforce simp: store_all_def)

lemmas store_intros = store_wf_update store_all_update store_wf_delete store_all_delete
  store_wf_filter store_all_filter

lemmas sm_op_defs = Create_def Get_session_def SetCwd_def Destroy_def cleanup_tick_def Stop_sessions_def

lemma sm_step_wf: "sm_step secure isDir Es sm sm' \<Longrightarrow> store_wf (sessions sm) \<Longrightarrow> store_wf (sessions sm')"
  by (erule sm_stepE)
     (auto simp: sm_op_defs Let_def store_wf_get intro!: store_intros split: option.split sum.split)

lemma sm_reach_wf: "sm_reach secure isDir Es sm \<Longrightarrow> store_wf (sessions sm)"
proof (induction rule: sm_reach.induct)
  case (init t)
  show ?case by (simp add: NewSessionManager_def store_wf_def)
next
  case (step sm sm')
  then show ?case by (blast intro: sm_step_wf)
qed

text \<open>What one step does to the session filed under an identifier.\<close>

lemma lookup_Create:
  "map_of (sessions (snd (Create b now sm))) i =
     (if i = hexEncode b then Some (fst (Create b now sm)) else map_of (sessions sm) i)"
  by (simp add: Create_def Let_def update_conv')

lemma lookup_Destroy:
  "map_of (sessions (snd (Destroy i sm))) j = (if j = i then None else map_of (sessions sm) j)"
  by (simp add: Destroy_def delete_conv')

section \<open>The path guard interface\<close>

text \<open>
  What the session manager relies on: in every state \<open>E\<close> of the environment, a guard that never returns the empty path, and whose
  results for a base directory are inside the resolved base unless that base is unrestricted.
\<close>

locale path_guard =
  fixes secure :: "'e \<Rightarrow> string \<Rightarrow> string \<Rightarrow> fserr + string"
    and real :: "'e \<Rightarrow> string \<Rightarrow> fserr + string"
  assumes guarded: "secure E t b = Inr p \<Longrightarrow> \<exists>rb. real E b = Inr rb \<and> (unrestricted rb \<or> inside rb p)"
    and nonempty: "secure E t b = Inr p \<Longrightarrow> p \<noteq> []"
begin

definition confined :: "'e set \<Rightarrow> Session \<Rightarrow> bool" where
  "confined Es s \<longleftrightarrow>
     S_BaseDir s = [SL] \<and> S_CWD s = [SL]
     \<or> S_BaseDir s \<noteq> [SL] \<and> S_BaseDir s \<noteq> []
        \<and> (S_CWD s = S_BaseDir s
           \<or> (\<exists>E \<in> Es. \<exists>rb. real E (S_BaseDir s) = Inr rb \<and> (unrestricted rb \<or> inside rb (S_CWD s))))"

lemma confined_step:
  "sm_step secure isDir Es sm sm' \<Longrightarrow> store_all (confined Es) (sessions sm) \<Longrightarrow> store_all (confined Es) (sessions sm')"
proof (erule sm_stepE, goal_cases)
  case (1 b now)
  then show ?case by (auto simp: Create_def Let_def confined_def intro!: store_intros)
next
  case (2 i now)
  show ?case
  proof (cases "map_of (sessions sm) i")
    case None
    with 2 show ?thesis by (simp add: Get_session_def)
  next
    case (Some s)
    with 2 have "confined Es s" by (blast intro: store_all_get)
    then have "confined Es (s\<lparr>S_LastActive := now\<rparr>)" by (simp add: confined_def)
    with 2 Some show ?thesis by (simp add: Get_session_def Let_def store_all_update)
  qed
next
  case (3 E i path now)
  show ?case
  proof (cases "map_of (sessions sm) i")
    case None
    with 3 show ?thesis by (simp add: SetCwd_def)
  next
    case (Some s)
    with 3 have c: "confined Es s" by (blast intro: store_all_get)
    then have ne: "S_BaseDir s \<noteq> []" by (auto simp: confined_def)
    show ?thesis
    proof (cases "secure E path (S_BaseDir s)")
      case (Inl e)
      with 3 Some ne show ?thesis by (simp add: SetCwd_def)
    next
      case (Inr p)
      note g = guarded [OF Inr] nonempty [OF Inr]
      let ?s1 = "s\<lparr>S_CWD := p, S_LastActive := now\<rparr>"
      let ?s2 = "if S_BaseDir s = [SL] \<and> p \<noteq> [SL] then ?s1\<lparr>S_BaseDir := p\<rparr> else ?s1"
      have "confined Es ?s2" using c g 3(3) by (auto simp: confined_def)
      with 3 Some Inr ne show ?thesis by (auto simp: SetCwd_def Let_def intro!: store_all_update)
    qed
  qed
next
  case (4 i)
  then show ?case by (auto simp: Destroy_def intro!: store_intros)
next
  case (5 now)
  then show ?case by (auto simp: cleanup_tick_def intro!: store_intros)
next
  case 6
  then show ?case by (simp add: Stop_sessions_def)
qed

lemma reach_confined: "sm_reach secure isDir Es sm \<Longrightarrow> store_all (confined Es) (sessions sm)"
proof (induction rule: sm_reach.induct)
  case (init t)
  show ?case by (simp add: NewSessionManager_def store_all_def)
next
  case (step sm sm')
  then show ?case by (blast intro: confined_step)
qed

end

section \<open>SecurePath is a path guard\<close>

lemma resolve_up_not_Nil: "resolve_up E path missing cur = Inr r \<Longrightarrow> r \<noteq> []"
proof (induction E path missing cur rule: resolve_up.induct)
  case (1 E path missing current)
  then show ?case
    by (auto simp: resolve_up.simps [of E path missing current] Let_def
        split: sum.splits fserr.splits if_splits)
qed

lemma resolveSymlinks_not_Nil: "resolveSymlinks E p = Inr r \<Longrightarrow> r \<noteq> []"
  by (auto simp: resolveSymlinks_def dest: resolve_up_not_Nil split: sum.splits fserr.splits)

lemma SecurePath_not_Nil: "SecurePath E t b = Inr p \<Longrightarrow> p \<noteq> []"
  by (auto simp: SecurePath_cases absTarget_not_Nil dest: resolveSymlinks_not_Nil
      split: sum.splits if_splits)

interpretation sp: path_guard SecurePath realBase
  by unfold_locales (auto intro: SecurePath_guarded dest: SecurePath_not_Nil)

section \<open>Properties of sessions\<close>

text \<open>
  C2. Session confinement: in every state any interleaving of session operations can reach, while the file system changes in any
  way between them, a session is either fresh (working directory and base both the root), or pinned to a base directory,
  and then its working directory is that base, or lies inside the directory the base resolves to in one of the file systems of the
  run, the one its directory change saw.  With a file system that does not change this is the directory the base resolves to.
\<close>

theorem session_confined:
  assumes "sm_reach SecurePath StatIsDir Es sm" and "map_of (sessions sm) i = Some s"
  shows "S_BaseDir s = [SL] \<and> S_CWD s = [SL]
    \<or> S_BaseDir s \<noteq> [SL] \<and> (S_CWD s = S_BaseDir s
        \<or> (\<exists>E \<in> Es. \<exists>rb. realBase E (S_BaseDir s) = Inr rb \<and> (rb = [SL] \<or> rb = [CHR 0x5C] \<or> inside rb (S_CWD s))))"
proof -
  have "sp.confined Es s"
    using sp.reach_confined [OF assms(1)] assms(2) by (rule store_all_get)
  then show ?thesis by (auto simp: sp.confined_def unrestricted_def)
qed

text \<open>
  C32. The first directory change pins the session for good: once its base directory is not the
  root, a directory change that succeeds stays inside that base and leaves the base unchanged, and
  one that fails changes nothing; the other sessions are never touched.
\<close>

theorem SetCwd_pinned:
  assumes "map_of (sessions sm) i = Some s" and "S_BaseDir s \<noteq> [SL]" and "S_BaseDir s \<noteq> []"
    and "SetCwd (SecurePath E) (StatIsDir E) i path now sm = (ok, sm')"
  shows "(if ok
      then \<exists>s' rb. map_of (sessions sm') i = Some s' \<and> S_BaseDir s' = S_BaseDir s
             \<and> SecurePath E path (S_BaseDir s) = Inr (S_CWD s') \<and> StatIsDir E (S_CWD s')
             \<and> realBase E (S_BaseDir s) = Inr rb \<and> (unrestricted rb \<or> inside rb (S_CWD s'))
      else sm' = sm)
    \<and> (\<forall>j. j \<noteq> i \<longrightarrow> map_of (sessions sm') j = map_of (sessions sm) j)"
proof (cases "SecurePath E path (S_BaseDir s)")
  case (Inl e)
  with assms show ?thesis by (auto simp: SetCwd_def)
next
  case (Inr p)
  with assms SecurePath_guarded [OF Inr] show ?thesis
    by (auto simp: SetCwd_def Let_def update_conv' split: if_splits)
qed

text \<open>
  Expiry: a clean-up tick of a running manager keeps exactly the sessions whose last use is not
  longer ago than the time to live, unchanged; so a session used within that time is never lost.
\<close>

theorem cleanup_keeps_live:
  assumes "store_wf (sessions sm)" and "\<not> stopped sm"
  shows "map_of (sessions (cleanup_tick now sm)) i =
    (case map_of (sessions sm) i of
       None \<Rightarrow> None
     | Some s \<Rightarrow> if now - S_LastActive s \<le> ttl sm then Some s else None)"
proof -
  have "distinct (map fst xs) \<Longrightarrow> map_of (filter (\<lambda>e. \<not> now - S_LastActive (snd e) > ttl sm) xs) i =
      (case map_of xs i of None \<Rightarrow> None | Some s \<Rightarrow> if now - S_LastActive s \<le> ttl sm then Some s else None)"
    for xs :: "(string \<times> Session) list"
    by (induction xs) (auto split: option.splits dest: map_of_SomeD intro: rev_image_eqI)
  with assms show ?thesis by (simp add: cleanup_tick_def store_wf_def)
qed

text \<open>
  Sessions are found under their own identifier: in every reachable state the identifiers are
  distinct, each session is filed under its identifier, and a lookup returns that session with its
  time of last use set to now.
\<close>

theorem session_lookup:
  assumes "sm_reach secure isDir Es sm" and "Get_session i now sm = (Some s, sm')"
  shows "S_ID s = i \<and> S_LastActive s = now \<and> map_of (sessions sm') i = Some s
    \<and> distinct (map S_ID (List_sessions sm'))"
proof -
  have wf: "store_wf (sessions sm)" using assms(1) by (rule sm_reach_wf)
  obtain s0 where s0: "map_of (sessions sm) i = Some s0"
    using assms(2) by (auto simp: Get_session_def split: option.splits)
  have "sm_step secure isDir Es sm sm'" using sm_step.get [of secure isDir Es sm i now] assms(2) by simp
  then have wf': "store_wf (sessions sm')" using wf by (rule sm_step_wf)
  then have "map S_ID (List_sessions sm') = map fst (sessions sm')"
    by (simp add: List_sessions_def store_wf_def)
  with wf' s0 assms(2) store_wf_get [OF wf s0] show ?thesis
    by (auto simp: Get_session_def Let_def update_conv' store_wf_def simp del: map_of_eq_Some_iff)
qed

section \<open>Witnesses\<close>

abbreviation demo_id :: string where "demo_id \<equiv> hexEncode ''ABCDEFGH''"

definition demo_sm :: SessionManager where
  "demo_sm = snd (Create ''ABCDEFGH'' 0 (NewSessionManager 1800))"

definition demo_pinned :: SessionManager where
  "demo_pinned = snd (SetCwd (SecurePath demo_fs) (StatIsDir demo_fs) demo_id ''/srv'' 5 demo_sm)"

lemma demo_sm_reach: "sm_reach secure isDir Es demo_sm"
  unfolding demo_sm_def by (rule sm_reach.step [OF sm_reach.init]) (rule sm_step.create)

lemma demo_pinned_reach: "sm_reach SecurePath StatIsDir {demo_fs} demo_pinned"
  unfolding demo_pinned_def by (rule sm_reach.step [OF demo_sm_reach]) (rule sm_step.set_cwd, simp)

definition demo_session :: Session where
  "demo_session = \<lparr>S_ID = demo_id, S_CWD = ''/srv'', S_BaseDir = ''/srv'', S_Env = [], S_LastActive = 5\<rparr>"

lemma demo_pinned_get: "map_of (sessions demo_pinned) demo_id = Some demo_session"
  by code_simp

theorem session_confined_witness:
  "S_BaseDir demo_session = ''/srv'' \<and> (S_CWD demo_session = ''/srv''
    \<or> (\<exists>rb. realBase demo_fs ''/srv'' = Inr rb \<and> (rb = [SL] \<or> rb = [CHR 0x5C] \<or> inside rb (S_CWD demo_session))))"
  using session_confined [OF demo_pinned_reach demo_pinned_get] by (auto simp: demo_session_def)

theorem SetCwd_pinned_witness:
  "snd (SetCwd (SecurePath demo_fs) (StatIsDir demo_fs) demo_id ''/etc'' 9 demo_pinned) = demo_pinned"
proof -
  have "fst (SetCwd (SecurePath demo_fs) (StatIsDir demo_fs) demo_id ''/etc'' 9 demo_pinned) = False"
    by code_simp
  then show ?thesis
    using SetCwd_pinned [OF demo_pinned_get, of demo_fs "''/etc''" 9 False]
    by (cases "SetCwd (SecurePath demo_fs) (StatIsDir demo_fs) demo_id ''/etc'' 9 demo_pinned")
       (simp add: demo_session_def)
qed

theorem cleanup_keeps_live_witness:
  "map_of (sessions (cleanup_tick 1000 demo_sm)) demo_id \<noteq> None
   \<and> map_of (sessions (cleanup_tick 2000 demo_sm)) demo_id = None"
proof -
  have wf: "store_wf (sessions demo_sm)" by (rule sm_reach_wf [OF demo_sm_reach])
  have st: "\<not> stopped demo_sm" and tt: "ttl demo_sm = 1800"
    by (simp_all add: demo_sm_def Create_def NewSessionManager_def Let_def)
  have "\<exists>s. map_of (sessions demo_sm) demo_id = Some s \<and> S_LastActive s = 0"
    by (simp add: demo_sm_def lookup_Create) (simp add: Create_def Let_def)
  with cleanup_keeps_live [OF wf st, of 1000 demo_id] cleanup_keeps_live [OF wf st, of 2000 demo_id] tt
  show ?thesis by auto
qed

theorem session_lookup_witness:
  "\<exists>s sm'. Get_session demo_id 7 demo_sm = (Some s, sm') \<and> S_ID s = demo_id \<and> S_LastActive s = 7"
proof -
  have "\<exists>s sm'. Get_session demo_id 7 demo_sm = (Some s, sm')"
    by (simp add: Get_session_def demo_sm_def lookup_Create Let_def)
  then show ?thesis using session_lookup [OF demo_sm_reach [of SecurePath StatIsDir "{}"]] by blast
qed

end
