(* ===== verification/Dispatch.thy ===== *)
theory Dispatch
  imports Gostd "HOL-Library.AList"
begin

text \<open>
  The command registry: \<^verbatim>\<open>internal/dispatch/dispatch.go\<close>.  A command's \<^verbatim>\<open>Run\<close> is a function of its
  arguments, standard input and working directory to its exit code and the writes it makes on
  standard output and standard error, in order.  The registry is an association list whose order
  stands for the iteration order of the Go map.
\<close>

section \<open>Commands and the registry\<close>

record Command =
  Name :: string
  Usage :: string
  Run :: "string list \<Rightarrow> string \<Rightarrow> string \<Rightarrow> int \<times> string list \<times> string list"

type_synonym registry = "(string \<times> Command) list"

text \<open>\<open>Inl name\<close> is the panic for a name that is registered already.\<close>

definition Register :: "Command \<Rightarrow> registry \<Rightarrow> string + registry" where
  "Register cmd reg =
     (if map_of reg (Name cmd) \<noteq> None then Inl (Name cmd)
      else Inr (AList.update (Name cmd) cmd reg))"

definition Lookup :: "registry \<Rightarrow> string \<Rightarrow> Command option" where
  "Lookup reg name = map_of reg name"

definition ListAll :: "registry \<Rightarrow> Command list" where
  "ListAll reg = sort_key Name (map snd reg)"

definition ListCommands :: "registry \<Rightarrow> string" where
  "ListCommands reg = concat (map (\<lambda>c. if Name c = ''sh'' then [] else Name c @ [NL]) (ListAll reg))"

definition pad_right :: "nat \<Rightarrow> string \<Rightarrow> string" where
  "pad_right n s = s @ replicate (n - length (runes s)) CHR '' ''"

definition PrintHelp :: "registry \<Rightarrow> string \<Rightarrow> string" where
  "PrintHelp reg binName =
     ''Usage: '' @ binName @ '' <command> [args]'' @ [NL, NL] @ ''Commands:'' @ [NL]
     @ concat (map (\<lambda>c. ''  '' @ pad_right 14 (Name c) @ '' '' @ Usage c @ [NL]) (ListAll reg))"

text \<open>The start-up of a binary: its packages register their commands one after the other.\<close>

fun RegisterAll :: "Command list \<Rightarrow> registry \<Rightarrow> string + registry" where
  "RegisterAll [] reg = Inr reg"
| "RegisterAll (c # cs) reg = (case Register c reg of Inl e \<Rightarrow> Inl e | Inr reg' \<Rightarrow> RegisterAll cs reg')"

section \<open>The registry interface\<close>

text \<open>
  What clients rely on: registration fails exactly on a name that is present and otherwise adds
  exactly that command; a listing has exactly the commands a lookup finds.
\<close>

locale command_registry =
  fixes empty :: 'r
    and register :: "Command \<Rightarrow> 'r \<Rightarrow> string + 'r"
    and find :: "'r \<Rightarrow> string \<Rightarrow> Command option"
    and inv :: "'r \<Rightarrow> bool"
  assumes find_empty: "find empty n = None"
    and inv_empty: "inv empty"
    and register_fails: "inv r \<Longrightarrow> (\<exists>e. register c r = Inl e) \<longleftrightarrow> find r (Name c) \<noteq> None"
    and find_register: "inv r \<Longrightarrow> register c r = Inr r' \<Longrightarrow> find r' n = (if n = Name c then Some c else find r n)"
    and inv_register: "inv r \<Longrightarrow> register c r = Inr r' \<Longrightarrow> inv r'"
begin

fun register_all :: "Command list \<Rightarrow> 'r \<Rightarrow> string + 'r" where
  "register_all [] r = Inr r"
| "register_all (c # cs) r = (case register c r of Inl e \<Rightarrow> Inl e | Inr r' \<Rightarrow> register_all cs r')"

lemma register_all_ok:
  "inv r \<Longrightarrow> distinct (map Name cs) \<Longrightarrow> \<forall>c \<in> set cs. find r (Name c) = None \<Longrightarrow>
   \<exists>r'. register_all cs r = Inr r' \<and> inv r'
      \<and> (\<forall>n. find r' n = (case map_of (map (\<lambda>c. (Name c, c)) cs) n of Some c \<Rightarrow> Some c | None \<Rightarrow> find r n))"
proof (induction cs arbitrary: r)
  case (Cons c cs)
  then obtain r1 where r1: "register c r = Inr r1"
    using register_fails [of r c] by (cases "register c r") auto
  note f = find_register [OF Cons.prems(1) r1]
  have "\<forall>d \<in> set cs. find r1 (Name d) = None" using Cons.prems f by (auto simp: image_iff)
  with Cons.IH [OF inv_register [OF Cons.prems(1) r1]] Cons.prems obtain r' where
    r': "register_all cs r1 = Inr r'" "inv r'"
      "\<forall>n. find r' n = (case map_of (map (\<lambda>c. (Name c, c)) cs) n of Some c \<Rightarrow> Some c | None \<Rightarrow> find r1 n)"
    by auto
  have "map_of (map (\<lambda>c. (Name c, c)) cs) (Name c) = None"
    using Cons.prems(2) by (auto simp: map_of_eq_None_iff image_image)
  then show ?case using r1 r' f by (auto split: option.splits)
qed auto

lemma register_all_dup:
  "inv r \<Longrightarrow> \<not> distinct (map Name cs) \<Longrightarrow> \<exists>e. register_all cs r = Inl e"
proof (induction cs arbitrary: r)
  case (Cons c cs)
  show ?case
  proof (cases "register c r")
    case (Inr r1)
    note inv1 = inv_register [OF Cons.prems(1) Inr]
    show ?thesis
    proof (cases "Name c \<in> set (map Name cs)")
      case True
      have "inv s \<Longrightarrow> find s (Name c) \<noteq> None \<Longrightarrow> Name c \<in> set (map Name ds) \<Longrightarrow> \<exists>e. register_all ds s = Inl e" for s ds
      proof (induction ds arbitrary: s)
        case (Cons d ds)
        show ?case
        proof (cases "register d s")
          case (Inr s1)
          then have "find s (Name d) = None" using register_fails [OF Cons.prems(1), of d] by auto
          then have "Name c \<noteq> Name d" using Cons.prems(2) by auto
          then show ?thesis
            using Cons.IH [OF inv_register [OF Cons.prems(1) Inr]] Cons.prems
              find_register [OF Cons.prems(1) Inr] Inr by auto
        qed simp
      qed simp
      then show ?thesis using Inr inv1 True find_register [OF Cons.prems(1) Inr] by simp
    next
      case False
      then show ?thesis using Cons Inr inv1 by simp
    qed
  qed simp
qed simp

end

section \<open>The Go map is a registry\<close>

text \<open>Distinct keys, and every command filed under its own name.\<close>

definition reg_wf :: "registry \<Rightarrow> bool" where
  "reg_wf reg \<longleftrightarrow> distinct (map fst reg) \<and> (\<forall>e \<in> set reg. Name (snd e) = fst e)"

lemma reg_wf_Register: "reg_wf reg \<Longrightarrow> Register c reg = Inr reg' \<Longrightarrow> reg_wf reg'"
proof -
  assume wf: "reg_wf reg" and r: "Register c reg = Inr reg'"
  have "set (AList.update (Name c) c reg) \<subseteq> insert (Name c, c) (set reg)"
    by (induction reg) auto
  then show ?thesis using wf r by (auto simp: reg_wf_def Register_def distinct_update split: if_splits)
qed

interpretation reg: command_registry "[]" Register Lookup reg_wf
proof unfold_locales
  show "Lookup [] n = None" for n by (simp add: Lookup_def)
  show "reg_wf []" by (simp add: reg_wf_def)
  show "(\<exists>e. Register c r = Inl e) \<longleftrightarrow> Lookup r (Name c) \<noteq> None" for r c
    by (simp add: Register_def Lookup_def)
  show "Lookup r' n = (if n = Name c then Some c else Lookup r n)" if "Register c r = Inr r'" for r c r' n
    using that by (auto simp: Register_def Lookup_def update_conv' split: if_splits)
qed (rule reg_wf_Register)

lemma RegisterAll_eq: "RegisterAll cs r = reg.register_all cs r"
  by (induction cs arbitrary: r) (auto split: sum.splits)

lemma update_new: "map_of xs k = None \<Longrightarrow> AList.update k v xs = xs @ [(k, v)]"
  by (induction xs) (auto split: if_splits)

lemma Register_store: "Register c r = Inr r' \<Longrightarrow> r' = r @ [(Name c, c)]"
  by (simp add: Register_def update_new split: if_splits)

lemma RegisterAll_store: "RegisterAll cs r = Inr r' \<Longrightarrow> map snd r' = map snd r @ cs"
proof (induction cs arbitrary: r)
  case (Cons c cs)
  then show ?case by (cases "Register c r") (auto dest!: Register_store)
qed simp

section \<open>Properties\<close>

text \<open>
  Start-up: commands with distinct names all register; afterwards a lookup finds exactly them,
  and the listing holds exactly them in increasing order of their names.
\<close>

theorem RegisterAll_complete:
  assumes "distinct (map Name cs)"
  shows "\<exists>reg. RegisterAll cs [] = Inr reg
    \<and> (\<forall>n. Lookup reg n = find (\<lambda>c. Name c = n) cs)
    \<and> sorted (map Name (ListAll reg)) \<and> mset (ListAll reg) = mset cs"
proof -
  have m: "map_of (map (\<lambda>c. (Name c, c)) cs) n = find (\<lambda>c. Name c = n) cs" for n
    by (induction cs) auto
  obtain reg where r: "RegisterAll cs [] = Inr reg"
    "\<forall>n. Lookup reg n = (case find (\<lambda>c. Name c = n) cs of Some c \<Rightarrow> Some c | None \<Rightarrow> Lookup [] n)"
    using reg.register_all_ok [OF reg.inv_empty assms] by (auto simp: RegisterAll_eq reg.find_empty m)
  have "map snd reg = cs" using RegisterAll_store [OF r(1)] by simp
  then show ?thesis using r by (auto simp: reg.find_empty ListAll_def split: option.splits)
qed

text \<open>
  A name registered twice is always caught: start-up panics when two commands share a name, in
  whatever order they register.
\<close>

theorem RegisterAll_duplicate:
  assumes "\<not> distinct (map Name cs)"
  shows "\<exists>name. RegisterAll cs [] = Inl name"
  using reg.register_all_dup [OF reg.inv_empty assms] by (simp add: RegisterAll_eq)

section \<open>Witnesses\<close>

definition demo_cmd :: "string \<Rightarrow> Command" where
  "demo_cmd n = \<lparr>Name = n, Usage = [], Run = (\<lambda>args stdin cwd. (0, [], []))\<rparr>"

lemma Name_demo_cmd [simp]: "Name (demo_cmd n) = n"
  by (simp add: demo_cmd_def)

theorem RegisterAll_complete_witness:
  "\<exists>reg. RegisterAll [demo_cmd ''wc'', demo_cmd ''cat''] [] = Inr reg \<and> Lookup reg ''cat'' = Some (demo_cmd ''cat'')"
  using RegisterAll_complete [of "[demo_cmd ''wc'', demo_cmd ''cat'']"] by auto

theorem RegisterAll_duplicate_witness: "\<exists>name. RegisterAll [demo_cmd ''wc'', demo_cmd ''wc''] [] = Inl name"
  by (rule RegisterAll_duplicate) simp

end
