(* ===== verification/Io.thy ===== *)
theory Io
  imports Gostd
begin

text \<open>
  Bounded input and output: \<^verbatim>\<open>LimitWriter\<close> of \<^verbatim>\<open>pkg/common/io.go\<close> and \<^verbatim>\<open>PerRequestLimitReader\<close> of
  \<^verbatim>\<open>internal/daemon/server.go\<close>.  The wrapped writer or reader is any function with the contract of
  \<^verbatim>\<open>io.Writer\<close> or \<^verbatim>\<open>io.Reader\<close>, stated by the locales below; a byte buffer and a connection that
  delivers chunks are the instances the daemon uses.
\<close>

type_synonym 'w writer = "'w \<Rightarrow> string \<Rightarrow> nat \<times> string option \<times> 'w"
type_synonym 'r reader = "'r \<Rightarrow> nat \<Rightarrow> string \<times> string option \<times> 'r"

section \<open>LimitWriter\<close>

record 'w LimitWriter =
  LW_W :: 'w
  LW_Limit :: int
  LW_Wrote :: int

definition limit_error :: string where "limit_error = ''output limit exceeded''"

definition LW_Write :: "'w writer \<Rightarrow> 'w LimitWriter writer" where
  "LW_Write wr lw p =
     (if LW_Wrote lw \<ge> LW_Limit lw then (0, Some limit_error, lw)
      else if LW_Wrote lw + int (length p) > LW_Limit lw then
        (case wr (LW_W lw) (take (nat (LW_Limit lw - LW_Wrote lw)) p) of
           (n, err, w) \<Rightarrow>
             (n, case err of None \<Rightarrow> Some limit_error | Some e \<Rightarrow> Some e,
              lw\<lparr>LW_W := w, LW_Wrote := LW_Wrote lw + int n\<rparr>))
      else
        (case wr (LW_W lw) p of
           (n, err, w) \<Rightarrow> (n, err, lw\<lparr>LW_W := w, LW_Wrote := LW_Wrote lw + int n\<rparr>)))"

section \<open>PerRequestLimitReader\<close>

record 'r PerRequestLimitReader =
  PR_r :: 'r
  PR_limit :: int
  PR_read :: int

definition NewPerRequestLimitReader :: "'r \<Rightarrow> int \<Rightarrow> 'r PerRequestLimitReader" where
  "NewPerRequestLimitReader r limit = \<lparr>PR_r = r, PR_limit = limit, PR_read = 0\<rparr>"

definition PR_Read :: "'r reader \<Rightarrow> 'r PerRequestLimitReader reader" where
  "PR_Read read pr m =
     (if PR_read pr \<ge> PR_limit pr
      then ([], Some (''request payload size limit of '' @ Itoa (PR_limit pr) @ '' bytes exceeded''), pr)
      else
        (let mx = PR_limit pr - PR_read pr;
             m' = (if int m > mx then nat mx else m)
         in case read (PR_r pr) m' of
              (d, err, r) \<Rightarrow> (d, err, pr\<lparr>PR_r := r, PR_read := PR_read pr + int (length d)\<rparr>)))"

definition PR_Reset :: "'r PerRequestLimitReader \<Rightarrow> 'r PerRequestLimitReader" where
  "PR_Reset pr = pr\<lparr>PR_read := 0\<rparr>"

text \<open>A sequence of writes whose errors the caller ignores, and a sequence of reads of given sizes.\<close>

fun write_all :: "'w writer \<Rightarrow> string list \<Rightarrow> 'w \<Rightarrow> 'w" where
  "write_all wr [] w = w"
| "write_all wr (p # ps) w = write_all wr ps (snd (snd (wr w p)))"

fun read_all :: "'r reader \<Rightarrow> nat list \<Rightarrow> 'r \<Rightarrow> string \<times> 'r" where
  "read_all rd [] r = ([], r)"
| "read_all rd (m # ms) r =
     (case rd r m of (d, err, r') \<Rightarrow> (case read_all rd ms r' of (ds, r'') \<Rightarrow> (d @ ds, r'')))"

section \<open>The writer contract\<close>

text \<open>A writer appends a prefix of what it is given and reports an error when it does not take all of it.\<close>

locale io_writer =
  fixes wr :: "'w writer" and content :: "'w \<Rightarrow> string"
  assumes appends: "wr w p = (n, err, w') \<Longrightarrow> n \<le> length p \<and> content w' = content w @ take n p"
    and short_write: "wr w p = (n, None, w') \<Longrightarrow> n = length p"
begin

lemma LW_Write_bound:
  assumes "LW_Write wr lw p = (n, err, lw')" and "LW_Wrote lw \<le> LW_Limit lw"
  shows "LW_Wrote lw' = LW_Wrote lw + int n \<and> LW_Wrote lw' \<le> LW_Limit lw' \<and> LW_Limit lw' = LW_Limit lw"
  using assms appends
  by (fastforce simp: LW_Write_def split: if_splits prod.splits)

end

text \<open>A \<^verbatim>\<open>bytes.Buffer\<close> takes everything.\<close>

definition buf_write :: "string writer" where
  "buf_write w p = (length p, None, w @ p)"

interpretation buf: io_writer buf_write "\<lambda>w. w"
  by unfold_locales (auto simp: buf_write_def)

text \<open>A limited writer over a writer is a writer again.\<close>

lemma LW_writer:
  assumes "io_writer wr content"
  shows "io_writer (LW_Write wr) (\<lambda>lw. content (LW_W lw))"
proof
  fix lw :: "'a LimitWriter" and p n err lw'
  assume w: "LW_Write wr lw p = (n, err, lw')"
  note a = io_writer.appends [OF assms]
  show "n \<le> length p \<and> content (LW_W lw') = content (LW_W lw) @ take n p"
    using w by (auto simp: LW_Write_def dest: a split: if_splits prod.splits)
next
  fix lw :: "'a LimitWriter" and p n lw'
  assume w: "LW_Write wr lw p = (n, None, lw')"
  then show "n = length p"
    using io_writer.short_write [OF assms] by (auto simp: LW_Write_def split: if_splits prod.splits option.splits)
qed

interpretation lbuf: io_writer "LW_Write buf_write" LW_W
  using LW_writer [OF buf.io_writer_axioms] .

section \<open>The reader contract\<close>

text \<open>A reader delivers at most as many bytes as asked for, the next ones of its stream.\<close>

locale io_reader =
  fixes read :: "'r reader" and stream :: "'r \<Rightarrow> string"
  assumes at_most: "read r m = (d, err, r') \<Longrightarrow> length d \<le> m"
    and in_order: "read r m = (d, err, r') \<Longrightarrow> stream r = d @ stream r'"
begin

lemma PR_Read_spec:
  assumes "PR_Read read pr m = (d, err, pr')" and "0 \<le> PR_read pr" and "PR_read pr \<le> PR_limit pr"
  shows "PR_read pr' = PR_read pr + int (length d)" "PR_read pr' \<le> PR_limit pr'" "PR_limit pr' = PR_limit pr"
    "stream (PR_r pr) = d @ stream (PR_r pr')"
  using assms at_most in_order
  by (fastforce simp: PR_Read_def Let_def split: if_splits prod.splits)+

lemma read_all_spec:
  "read_all (PR_Read read) ms pr = (ds, pr') \<Longrightarrow> 0 \<le> PR_read pr \<Longrightarrow> PR_read pr \<le> PR_limit pr \<Longrightarrow>
   PR_read pr' = PR_read pr + int (length ds) \<and> PR_read pr' \<le> PR_limit pr \<and> PR_limit pr' = PR_limit pr
   \<and> stream (PR_r pr) = ds @ stream (PR_r pr')"
proof (induction ms arbitrary: pr ds)
  case (Cons m ms)
  obtain d err pr1 where r: "PR_Read read pr m = (d, err, pr1)" by (cases "PR_Read read pr m")
  obtain ds1 where d: "read_all (PR_Read read) ms pr1 = (ds1, pr')" "ds = d @ ds1"
    using Cons.prems(1) r by (auto split: prod.splits)
  note s = PR_Read_spec [OF r Cons.prems(2,3)]
  with Cons.IH [OF d(1)] Cons.prems d(2) show ?case by auto
qed auto

end

text \<open>A connection delivers its bytes in chunks; a read takes at most one of them.\<close>

fun conn_read :: "string list reader" where
  "conn_read [] m = ([], Some ''EOF'', [])"
| "conn_read (c # cs) m =
     (if length c \<le> m then (c, None, cs) else (take m c, None, drop m c # cs))"

interpretation conn: io_reader conn_read concat
proof
  show "length d \<le> m" if "conn_read r m = (d, err, r')" for r m d err r'
    using that by (cases r) (auto split: if_splits)
  show "concat r = d @ concat r'" if "conn_read r m = (d, err, r')" for r m d err r'
    using that by (cases r) (auto split: if_splits)
qed

section \<open>Properties\<close>

definition limited :: "int \<Rightarrow> string list \<Rightarrow> string" where
  "limited limit ps = LW_W (write_all (LW_Write buf_write) ps \<lparr>LW_W = [], LW_Limit = limit, LW_Wrote = 0\<rparr>)"

lemma write_all_spec:
  "0 \<le> LW_Wrote lw \<Longrightarrow> LW_Wrote lw \<le> LW_Limit lw \<Longrightarrow>
   LW_W (write_all (LW_Write buf_write) ps lw) = LW_W lw @ take (nat (LW_Limit lw - LW_Wrote lw)) (concat ps)"
proof (induction ps arbitrary: lw)
  case (Cons p ps)
  let ?k = "nat (LW_Limit lw - LW_Wrote lw)"
  show ?case
  proof (cases "LW_Wrote lw = LW_Limit lw")
    case True
    then show ?thesis using Cons by (simp add: LW_Write_def)
  next
    case False
    note nf = this
    show ?thesis
    proof (cases "LW_Wrote lw + int (length p) > LW_Limit lw")
      case True
      then have "min (length p) ?k = ?k" using Cons.prems by auto
      with True nf Cons show ?thesis by (simp add: LW_Write_def buf_write_def)
    next
      case f: False
      have "nat (LW_Limit lw - (LW_Wrote lw + int (length p))) = ?k - length p" using f by auto
      moreover have "length p \<le> ?k" using f by auto
      ultimately show ?thesis using f nf Cons by (simp add: LW_Write_def buf_write_def)
    qed
  qed
qed simp

text \<open>
  C33. Output is capped exactly: whatever a command writes, in however many pieces, the buffer behind
  a limited writer ends up with the first \<open>limit\<close> bytes of the output and nothing else.
\<close>

theorem limited_output:
  assumes "0 \<le> limit"
  shows "limited limit ps = take (nat limit) (concat ps)"
  using assms by (simp add: limited_def write_all_spec)

text \<open>
  A request is bounded: after a reset, reads of any sizes deliver at most \<open>limit\<close> bytes, exactly
  the next bytes of the connection, and once the limit is reached every further read fails.
\<close>

theorem request_bounded:
  assumes "0 \<le> PR_limit pr" and "read_all (PR_Read conn_read) ms (PR_Reset pr) = (ds, pr')"
  shows "int (length ds) \<le> PR_limit pr \<and> concat (PR_r pr) = ds @ concat (PR_r pr')
    \<and> (int (length ds) = PR_limit pr \<longrightarrow> (\<forall>m. \<exists>e. PR_Read conn_read pr' m = ([], Some e, pr')))"
proof -
  have "PR_read pr' = int (length ds)" "PR_read pr' \<le> PR_limit pr" "PR_limit pr' = PR_limit pr"
    "concat (PR_r pr) = ds @ concat (PR_r pr')"
    using conn.read_all_spec [OF assms(2)] assms(1) by (simp_all add: PR_Reset_def)
  then show ?thesis by (simp add: PR_Read_def)
qed

section \<open>Witnesses\<close>

theorem limited_output_witness: "limited 5 [''abc'', ''defg'', ''h''] = ''abcde''"
  using limited_output [of 5 "[''abc'', ''defg'', ''h'']"] by simp

theorem request_bounded_witness:
  "\<exists>e. PR_Read conn_read (snd (read_all (PR_Read conn_read) [2, 7] (PR_Reset (NewPerRequestLimitReader [''ab'', ''cdefgh''] 6)))) 1
     = ([], Some e, snd (read_all (PR_Read conn_read) [2, 7] (PR_Reset (NewPerRequestLimitReader [''ab'', ''cdefgh''] 6))))"
  using request_bounded [of "NewPerRequestLimitReader [''ab'', ''cdefgh''] 6" "[2, 7]" "''abcdef''"]
  by (simp add: NewPerRequestLimitReader_def PR_Reset_def PR_Read_def)

end
