(* ===== verification/Decoder.thy ===== *)
theory Decoder
  imports Io Json
begin

text \<open>
  The stream decoder of a connection: \<^verbatim>\<open>json.NewDecoder\<close> over a \<^verbatim>\<open>PerRequestLimitReader\<close>, as \<^verbatim>\<open>handleConn\<close> of \<^verbatim>\<open>internal/daemon/server.go\<close> uses
  it.  It reads until its buffer holds a value: an object or array ends with its last bracket, any other value with the byte
  after it or the end of the stream.  Text that is no value is reported once its brackets are closed or the stream ends, where the
  package reports it at the first byte that is wrong; the answer is the same.
\<close>

section \<open>The end of a value\<close>

text \<open>The length of an object or array at the head of the text, from the number of open brackets and whether a string is open.\<close>

fun struct_end :: "nat \<Rightarrow> bool \<Rightarrow> string \<Rightarrow> nat option" where
  "struct_end d q [] = None"
| "struct_end d True (c # cs) =
     (if c = QUOTE then map_option Suc (struct_end d False cs)
      else if c = BSL then (case cs of [] \<Rightarrow> None | _ # cs' \<Rightarrow> map_option (\<lambda>n. n + 2) (struct_end d True cs'))
      else map_option Suc (struct_end d True cs))"
| "struct_end d False (c # cs) =
     (if c = QUOTE then map_option Suc (struct_end d True cs)
      else if c = CHR ''{'' \<or> c = CHR ''['' then map_option Suc (struct_end (Suc d) False cs)
      else if c = CHR ''}'' \<or> c = CHR '']'' then (if d \<le> 1 then Some 1 else map_option Suc (struct_end (d - 1) False cs))
      else map_option Suc (struct_end d False cs))"

text \<open>The first value of a buffer with the bytes after it; \<open>Some (None, _)\<close> is text that is no value, \<^const>\<open>None\<close> asks for more bytes.\<close>

definition first_value :: "string \<Rightarrow> (json option \<times> string) option" where
  "first_value buf =
     (case skip_ws buf of
        [] \<Rightarrow> None
      | c # cs \<Rightarrow>
          if c = CHR ''{'' \<or> c = CHR ''[''
          then map_option (\<lambda>n. (json_parse (take n (c # cs)), drop n (c # cs))) (struct_end 0 False (c # cs))
          else (case jvalue (2 * length buf + 2) buf of
                  None \<Rightarrow> None
                | Some (v, r) \<Rightarrow> if r \<noteq> [] then Some (Some v, r) else None))"

section \<open>Decoding\<close>

text \<open>What \<^verbatim>\<open>Decode\<close> delivers: a value, the end of the stream, or an error (malformed text, or the request limit exceeded).\<close>

datatype incoming = Message json | StreamEOF | StreamError

type_synonym conn_reader = "string list PerRequestLimitReader"

definition bytes_left :: "conn_reader \<Rightarrow> nat" where
  "bytes_left rd = length (concat (PR_r rd))"

lemma PR_Read_progress:
  "PR_Read conn_read rd (Suc m) = (d, None, rd') \<Longrightarrow> bytes_left rd' + length (PR_r rd') < bytes_left rd + length (PR_r rd)"
  by (cases "PR_r rd") (auto simp: PR_Read_def bytes_left_def Let_def split: if_splits)

text \<open>The package reads at least 512 bytes at a time; how many more depends on the buffer, by the argument \<open>room\<close>.\<close>

function Decode :: "(string \<Rightarrow> nat) \<Rightarrow> string \<Rightarrow> conn_reader \<Rightarrow> incoming \<times> string \<times> conn_reader" where
  "Decode room buf rd =
     (case first_value buf of
        Some (Some v, r) \<Rightarrow> (Message v, r, rd)
      | Some (None, r) \<Rightarrow> (StreamError, r, rd)
      | None \<Rightarrow>
          (case PR_Read conn_read rd (Suc (511 + room buf)) of
             (d, None, rd') \<Rightarrow> Decode room (buf @ d) rd'
           | (d, Some e, rd') \<Rightarrow>
               if e \<noteq> ''EOF'' then (StreamError, buf, rd')
               else (case json_parse buf of
                       Some v \<Rightarrow> (Message v, [], rd')
                     | None \<Rightarrow> (if skip_ws buf = [] then StreamEOF else StreamError, buf, rd'))))"
  by pat_completeness auto
termination
  by (relation "measure (\<lambda>(room, buf, rd). bytes_left rd + length (PR_r rd))") (simp, simp only: in_measure prod.case, metis PR_Read_progress)

declare Decode.simps [simp del]

lemma struct_end_pos: "struct_end d q s = Some n \<Longrightarrow> 0 < n \<and> n \<le> length s"
  by (induction d q s arbitrary: n rule: struct_end.induct) (fastforce split: if_splits list.splits)+

lemma first_value_shorter: "first_value buf = Some (x, r) \<Longrightarrow> length r < length buf"
  using length_skip_ws [of buf] jvalue_shorter(1) [of "2 * length buf + 2" buf]
  by (auto simp: first_value_def simp del: jvalue.simps split: list.splits if_splits option.splits dest!: struct_end_pos)

lemma PR_Read_left: "PR_Read conn_read rd m = (d, err, rd') \<Longrightarrow> bytes_left rd = length d + bytes_left rd'"
  by (cases "PR_r rd") (auto simp: PR_Read_def bytes_left_def Let_def split: if_splits)

lemma json_parse_Nil: "json_parse [] = None"
  by (simp add: json_parse_def skip_ws_def eval_nat_numeral)

lemma Decode_shorter:
  "Decode room buf rd = (Message v, buf', rd') \<Longrightarrow> length buf' + bytes_left rd' < length buf + bytes_left rd"
proof (induction room buf rd rule: Decode.induct)
  case (1 room buf rd)
  show ?case
  proof (cases "first_value buf")
    case (Some p)
    then show ?thesis using "1.prems" first_value_shorter
      by (cases p; cases "fst p") (auto simp: Decode.simps [of room buf rd])
  next
    case None
    obtain d err rd1 where r: "PR_Read conn_read rd (Suc (511 + room buf)) = (d, err, rd1)"
      by (cases "PR_Read conn_read rd (Suc (511 + room buf))")
    show ?thesis
    proof (cases err)
      case None': None
      then show ?thesis using "1.IH" [OF None r [symmetric] refl None'] "1.prems" None r PR_Read_left [OF r]
        by (simp add: Decode.simps [of room buf rd])
    next
      case (Some e)
      then show ?thesis using "1.prems" None r PR_Read_left [OF r] json_parse_Nil
        by (cases buf) (auto simp: Decode.simps [of room] split: if_splits option.splits)
    qed
  qed
qed

lemma bytes_left_Reset [simp]: "bytes_left (PR_Reset rd) = bytes_left rd"
  by (simp add: bytes_left_def PR_Reset_def)

text \<open>Everything a connection delivers, the count of the limit reset before each value, until the end or the first error.\<close>

function incoming_all :: "(string \<Rightarrow> nat) \<Rightarrow> string \<Rightarrow> conn_reader \<Rightarrow> incoming list" where
  "incoming_all room buf rd =
     (case Decode room buf (PR_Reset rd) of
        (Message v, buf', rd') \<Rightarrow> Message v # incoming_all room buf' rd'
      | (StreamEOF, _, _) \<Rightarrow> [StreamEOF]
      | (StreamError, _, _) \<Rightarrow> [StreamError])"
  by pat_completeness auto
termination
  by (relation "measure (\<lambda>(room, buf, rd). length buf + bytes_left rd)")
    (simp, metis in_measure prod.case Decode_shorter bytes_left_Reset)

declare incoming_all.simps [simp del]

section \<open>Encoded values\<close>

lemma struct_end_append: "struct_end d q s = Some n \<Longrightarrow> struct_end d q (s @ t) = Some n"
  by (induction d q s arbitrary: n rule: struct_end.induct) (auto split: if_splits list.splits)

text \<open>A text is balanced when the search for the closing bracket walks over it.\<close>

definition balanced :: "string \<Rightarrow> bool" where
  "balanced s \<longleftrightarrow>
     (\<forall>d t. struct_end (Suc d) False (s @ t) = map_option ((+) (length s)) (struct_end (Suc d) False t))"

definition in_quotes :: "string \<Rightarrow> bool" where
  "in_quotes s \<longleftrightarrow> (\<forall>d t. struct_end d True (s @ t) = map_option ((+) (length s)) (struct_end d True t))"

lemma map_option_add [simp]:
  "map_option Suc (map_option ((+) n) x) = map_option ((+) (Suc n)) x"
  "map_option ((+) m) (map_option ((+) n) x) = map_option ((+) (m + n)) x"
  "map_option ((+) n) (map_option Suc x) = map_option ((+) (Suc n)) x"
  "map_option ((+) 0) (x :: nat option) = x"
  by (cases x; simp)+

lemma balanced_Nil [simp]: "balanced []"
  by (simp add: balanced_def)

lemma balanced_append: "balanced a \<Longrightarrow> balanced b \<Longrightarrow> balanced (a @ b)"
  by (simp add: balanced_def)

lemma balanced_Cons:
  "c \<notin> {QUOTE, CHR ''{'', CHR ''['', CHR ''}'', CHR '']''} \<Longrightarrow> balanced s \<Longrightarrow> balanced (c # s)"
  by (simp add: balanced_def)

lemma balanced_plain: "set s \<inter> {QUOTE, CHR ''{'', CHR ''['', CHR ''}'', CHR '']''} = {} \<Longrightarrow> balanced s"
  by (induction s) (auto intro!: balanced_Cons)

lemma balanced_brackets:
  assumes "balanced s" and "a = CHR ''{'' \<and> z = CHR ''}'' \<or> a = CHR ''['' \<and> z = CHR '']''"
  shows "balanced (a # s @ [z])" and "struct_end 0 False (a # s @ z # t) = Some (length s + 2)"
  using assms by (auto simp: balanced_def)

lemma balanced_Join: "\<forall>s \<in> set ss. balanced s \<Longrightarrow> balanced (Join ss '','')"
proof (induction ss)
  case (Cons s ss)
  then show ?case by (cases "ss = []") (auto simp: Join_Cons2 intro!: balanced_append balanced_Cons)
qed simp

lemma in_quotes_Nil [simp]: "in_quotes []"
  by (simp add: in_quotes_def)

lemma in_quotes_append: "in_quotes a \<Longrightarrow> in_quotes b \<Longrightarrow> in_quotes (a @ b)"
  by (simp add: in_quotes_def)

lemma in_quotes_Cons: "c \<noteq> QUOTE \<Longrightarrow> c \<noteq> BSL \<Longrightarrow> in_quotes s \<Longrightarrow> in_quotes (c # s)"
  by (simp add: in_quotes_def)

lemma in_quotes_escape: "in_quotes s \<Longrightarrow> in_quotes (BSL # c # s)"
  by (auto simp: in_quotes_def option.map_comp comp_def intro!: option.map_cong)

lemma hex_digit_plain: "d < 16 \<Longrightarrow> hex_digit d \<noteq> QUOTE \<and> hex_digit d \<noteq> BSL"
  using hex_value_digit [of d] by (auto simp: hex_value_def code_def)

lemma in_quotes_escape_rune: "code c < 128 \<Longrightarrow> in_quotes (json_escape_rune h (code c, [c]))"
  by (auto simp: json_escape_rune_def RuneError_def hex_digit_plain intro!: in_quotes_escape in_quotes_Cons)

lemma in_quotes_pieces: "ascii s \<Longrightarrow> in_quotes (concat (map (json_escape_rune h) (rune_pieces s)))"
  by (induction s) (auto simp: ascii_def rune_pieces_ascii intro!: in_quotes_append in_quotes_escape_rune)

lemma balanced_string: "ascii s \<Longrightarrow> balanced (json_string h s)"
  using in_quotes_pieces [of s h] by (simp add: balanced_def in_quotes_def json_string_def)

lemma balanced_digits: "list_all isDecDigit s \<Longrightarrow> balanced s"
  by (induction s) (auto simp: isDecDigit_def code_def intro!: balanced_Cons)

lemma balanced_Itoa: "balanced (Itoa n)"
  using itoa_nat_digits by (simp add: Itoa_def balanced_Cons balanced_digits)

lemma balanced_members:
  assumes "\<forall>kv \<in> set kvs. ascii (fst kv) \<and> balanced (json_encode h (snd kv))"
  shows "balanced (Join (map (\<lambda>kv. json_string h (fst kv) @ CHR '':'' # json_encode h (snd kv)) kvs) '','')"
  using assms by (intro balanced_Join) (auto intro!: balanced_append balanced_Cons balanced_string)

lemma balanced_encode: "json_ascii v \<Longrightarrow> balanced (json_encode h v)"
proof (induction v rule: json_ascii.induct)
  case (3 js)
  then show ?case using balanced_brackets(1) [OF balanced_Join] by (simp add: list_all_iff)
next
  case (4 kvs)
  then have "balanced (Join (map (\<lambda>kv. json_string h (fst kv) @ CHR '':'' # json_encode h (snd kv)) kvs) '','')"
    by (intro balanced_members) (auto simp: list_all_iff)
  from balanced_brackets(1) [OF this, of "CHR ''{''" "CHR ''}''"] show ?case by simp
qed (simp_all add: balanced_string balanced_Itoa balanced_plain)

lemma struct_end_object:
  assumes "json_ascii (JObj kvs)"
  shows "struct_end 0 False (json_encode h (JObj kvs) @ t) = Some (length (json_encode h (JObj kvs)))"
proof -
  have "balanced (Join (map (\<lambda>kv. json_string h (fst kv) @ CHR '':'' # json_encode h (snd kv)) kvs) '','')"
    using assms balanced_encode by (intro balanced_members) (auto simp: list_all_iff)
  from balanced_brackets(2) [OF this, of "CHR ''{''" "CHR ''}''" t] show ?thesis by (simp del: struct_end.simps)
qed

lemma json_parse_object: "json_ascii v \<Longrightarrow> json_parse (json_encode h v) = Some v"
  using readsD [OF reads_all, of v h "2 * length (json_encode h v) + 2" "[]"]
  by (simp add: json_parse_def skip_ws_def del: jvalue.simps)

text \<open>An object is framed exactly: by none of its proper prefixes, and by its whole text whatever follows.\<close>

lemma first_value_object:
  assumes "json_ascii (JObj kvs)"
  shows "first_value (json_encode h (JObj kvs) @ t) = Some (Some (JObj kvs), t)"
  using struct_end_object [OF assms, of h t] json_parse_object [OF assms, of h]
  by (simp add: first_value_def skip_ws_def is_ws_def del: struct_end.simps)

lemma first_value_partial:
  assumes "json_ascii (JObj kvs)" and "text = json_encode h (JObj kvs)" and "strict_prefix p text"
  shows "first_value p = None"
proof (cases p)
  case (Cons c cs)
  obtain t where t: "text = p @ t" "t \<noteq> []" using assms(3) by (auto simp: strict_prefix_def prefix_def)
  have "struct_end 0 False text = Some (length text)" using struct_end_object [OF assms(1), of h "[]"] assms(2) by simp
  then have "struct_end 0 False p = None"
    using struct_end_append [of 0 False p _ t] struct_end_pos [of 0 False p] t
    by (cases "struct_end 0 False p") (fastforce simp del: struct_end.simps)+
  moreover have "c = CHR ''{''" using assms(2) t(1) Cons by simp
  ultimately show ?thesis using Cons by (simp add: first_value_def skip_ws_def is_ws_def del: struct_end.simps)
qed (simp add: first_value_def skip_ws_def)

section \<open>A request line\<close>

text \<open>
  An object and a newline, however the connection cuts them into chunks, are delivered as that object when its text is within the
  limit, and refused otherwise.
\<close>

lemma PR_Read_chunk:
  assumes "PR_r rd = c # cs" and "PR_read rd < PR_limit rd"
  obtains d rd' where "PR_Read conn_read rd m = (d, None, rd')" "PR_read rd' \<le> PR_limit rd" "PR_limit rd' = PR_limit rd"
    "PR_read rd' = PR_read rd + int (length d)" "concat (PR_r rd) = d @ concat (PR_r rd')"
proof -
  obtain d err rd' where e: "PR_Read conn_read rd m = (d, err, rd')" by (cases "PR_Read conn_read rd m")
  moreover have "err = None" "PR_read rd' \<le> PR_limit rd" "PR_limit rd' = PR_limit rd"
    "PR_read rd' = PR_read rd + int (length d)" "concat (PR_r rd) = d @ concat (PR_r rd')"
    using e assms by (auto simp: PR_Read_def Let_def split: if_splits)
  ultimately show thesis using that by blast
qed

lemma Decode_line:
  assumes "json_ascii (JObj kvs)" and "text = json_encode h (JObj kvs)"
  shows "buf @ concat (PR_r rd) = text @ [NL] \<Longrightarrow> PR_read rd = int (length buf) \<Longrightarrow> buf = [] \<or> int (length buf) \<le> PR_limit rd
    \<Longrightarrow> if int (length text) \<le> PR_limit rd
        then \<exists>buf' rd'. Decode room buf rd = (Message (JObj kvs), buf', rd') \<and> buf' @ concat (PR_r rd') = [NL] \<and> PR_limit rd' = PR_limit rd
        else fst (Decode room buf rd) = StreamError"
proof (induction room buf rd rule: Decode.induct)
  case (1 room buf rd)
  show ?case
  proof (cases "length text \<le> length buf")
    case True
    then obtain u where buf: "buf = text @ u" "u @ concat (PR_r rd) = [NL]"
      using "1.prems"(1) by (auto simp: append_eq_append_conv2)
    have "text \<noteq> []" using assms by simp
    with True "1.prems"(3) have "int (length text) \<le> PR_limit rd" by auto
    moreover have "first_value buf = Some (Some (JObj kvs), u)"
      using first_value_object [OF assms(1), of h u] assms(2) buf(1) by simp
    ultimately show ?thesis using buf(2) by (simp add: Decode.simps [of room buf rd])
  next
    case False
    then have "strict_prefix buf text"
      using "1.prems"(1) by (auto simp: strict_prefix_def prefix_def append_eq_append_conv_if) (metis append_take_drop_id)
    then have n: "first_value buf = None" using first_value_partial [OF assms] by blast
    obtain c cs where r: "PR_r rd = c # cs" using "1.prems"(1) False by (cases "PR_r rd") auto
    show ?thesis
    proof (cases "PR_limit rd \<le> PR_read rd")
      case True
      then show ?thesis using n False "1.prems"(2)
        by (simp add: Decode.simps [of room buf rd] PR_Read_def)
    next
      case False
      then obtain d rd' where d: "PR_Read conn_read rd (Suc (511 + room buf)) = (d, None, rd')"
        "PR_read rd' \<le> PR_limit rd" "PR_limit rd' = PR_limit rd"
        "PR_read rd' = PR_read rd + int (length d)" "concat (PR_r rd) = d @ concat (PR_r rd')"
        using PR_Read_chunk [OF r] by (metis not_le)
      then show ?thesis using "1.IH" [OF n d(1) [symmetric] refl refl] "1.prems"(1,2) n
        by (auto simp: Decode.simps [of room buf rd] split: if_splits)
    qed
  qed
qed

lemma Decode_end:
  "buf @ concat (PR_r rd) = [NL] \<Longrightarrow> PR_read rd + int (bytes_left rd) < PR_limit rd \<Longrightarrow> fst (Decode room buf rd) = StreamEOF"
proof (induction room buf rd rule: Decode.induct)
  case (1 room buf rd)
  then have b: "buf = [] \<or> buf = [NL]" by (cases buf) auto
  then have n: "first_value buf = None" "skip_ws buf = []" by (auto simp: first_value_def skip_ws_def is_ws_def)
  then have j: "json_parse buf = None" using b by (auto simp: json_parse_def eval_nat_numeral)
  show ?case
  proof (cases "PR_r rd")
    case Nil
    then show ?thesis using n j "1.prems"(2) by (simp add: Decode.simps [of room buf rd] PR_Read_def bytes_left_def Let_def)
  next
    case (Cons c cs)
    moreover have "PR_read rd < PR_limit rd" using "1.prems"(2) by simp
    ultimately obtain d rd' where d: "PR_Read conn_read rd (Suc (511 + room buf)) = (d, None, rd')"
      "PR_limit rd' = PR_limit rd" "PR_read rd' = PR_read rd + int (length d)" "concat (PR_r rd) = d @ concat (PR_r rd')"
      using PR_Read_chunk by metis
    then show ?thesis using "1.IH" [OF n(1) d(1) [symmetric] refl refl] "1.prems" n(1)
      by (simp add: Decode.simps [of room buf rd] bytes_left_def)
  qed
qed

lemma incoming_line:
  assumes "json_ascii (JObj kvs)" and "concat chunks = json_encode h (JObj kvs) @ [NL]"
  shows "incoming_all room [] (NewPerRequestLimitReader chunks limit) =
    (if int (length (json_encode h (JObj kvs))) \<le> limit then [Message (JObj kvs), StreamEOF] else [StreamError])"
proof -
  let ?rd = "PR_Reset (NewPerRequestLimitReader chunks limit)"
  note l = Decode_line [OF assms(1) refl, of "[]" ?rd h room]
  have l2: "2 \<le> length (json_encode h (JObj kvs))" by simp
  show ?thesis
  proof (cases "int (length (json_encode h (JObj kvs))) \<le> limit")
    case True
    then obtain buf rd where d: "Decode room [] ?rd = (Message (JObj kvs), buf, rd)" "buf @ concat (PR_r rd) = [NL]" "PR_limit rd = limit"
      using l assms(2) by (auto simp: NewPerRequestLimitReader_def PR_Reset_def)
    have "bytes_left rd \<le> 1" using arg_cong [OF d(2), of length] by (simp add: bytes_left_def)
    then have "fst (Decode room buf (PR_Reset rd)) = StreamEOF"
      using d l2 True by (intro Decode_end) (auto simp: PR_Reset_def bytes_left_def)
    then obtain b r where e: "Decode room buf (PR_Reset rd) = (StreamEOF, b, r)"
      by (cases "Decode room buf (PR_Reset rd)") auto
    show ?thesis using True d(1) e by (simp add: incoming_all.simps)
  next
    case False
    then have "fst (Decode room [] ?rd) = StreamError"
      using l assms(2) by (simp add: NewPerRequestLimitReader_def PR_Reset_def)
    then obtain b r where e: "Decode room [] ?rd = (StreamError, b, r)"
      by (cases "Decode room [] ?rd") auto
    then show ?thesis using False by (simp add: incoming_all.simps)
  qed
qed

end
