(* ===== verification/Observability.thy ===== *)
theory Observability
  imports Json Session Complex_Main
begin

text \<open>
  Metrics and the health endpoints: \<^verbatim>\<open>internal/daemon/observability.go\<close>.  Durations are rational
  milliseconds (the rounding of \<^verbatim>\<open>float64\<close> sums is not modelled); the statistics of the Go runtime are
  an argument.  The \<^verbatim>\<open>/status\<close> snapshot is not modelled: it only re-encodes the same counters with
  \<^verbatim>\<open>float64\<close> formatting.
\<close>

section \<open>Metrics\<close>

record Metrics =
  durationCounts :: "(string \<times> int) list"
  durationSums :: "(string \<times> rat) list"
  rateLimitedTotal :: int

definition NewMetrics :: Metrics where
  "NewMetrics = \<lparr>durationCounts = [], durationSums = [], rateLimitedTotal = 0\<rparr>"

text \<open>Reading a Go map of numbers: an absent key has the zero value.\<close>

definition lookup0 :: "(string \<times> 'a::zero) list \<Rightarrow> string \<Rightarrow> 'a" where
  "lookup0 m k = (case map_of m k of None \<Rightarrow> 0 | Some v \<Rightarrow> v)"

definition RecordRequest :: "string \<Rightarrow> rat \<Rightarrow> Metrics \<Rightarrow> Metrics" where
  "RecordRequest method durationMs m =
     m\<lparr>durationCounts := AList.update method (wrap64 (lookup0 (durationCounts m) method + 1)) (durationCounts m),
       durationSums := AList.update method (lookup0 (durationSums m) method + durationMs) (durationSums m)\<rparr>"

definition RecordRateLimited :: "Metrics \<Rightarrow> Metrics" where
  "RecordRateLimited m = m\<lparr>rateLimitedTotal := wrap64 (rateLimitedTotal m + 1)\<rparr>"

section \<open>Endpoints\<close>

definition handleHealthz :: "int \<times> string" where
  "handleHealthz = (200, json_encode True (JObj [(''status'', JStr ''ok'')]) @ [NL])"

definition handleReadyz :: "bool \<Rightarrow> int \<times> string" where
  "handleReadyz shuttingDown =
     (if shuttingDown then (503, json_encode True (JObj [(''status'', JStr ''not ready'')]) @ [NL])
      else (200, json_encode True (JObj [(''status'', JStr ''ready'')]) @ [NL]))"

definition sanitizeLabel :: "string \<Rightarrow> string" where
  "sanitizeLabel s =
     (let s1 = ReplaceAll s [BSL] [BSL, BSL];
          s2 = ReplaceAll s1 [QUOTE] [BSL, QUOTE]
      in ReplaceAll s2 [NL] [BSL, CHR ''n''])"

record RuntimeStats =
  rs_goroutines :: int
  rs_gomaxprocs :: int
  rs_numcpu :: int
  rs_heapAlloc :: int
  rs_heapSys :: int
  rs_stackInuse :: int
  rs_mallocs :: int
  rs_frees :: int
  rs_totalAlloc :: int
  rs_numGC :: int
  rs_pauseNs :: "nat \<Rightarrow> int"

definition metric :: "string \<Rightarrow> string \<Rightarrow> string \<Rightarrow> int \<Rightarrow> string" where
  "metric name help typ v =
     ''# HELP '' @ name @ '' '' @ help @ [NL] @ ''# TYPE '' @ name @ '' '' @ typ @ [NL]
     @ name @ '' '' @ Itoa v @ [NL]"

text \<open>\<^verbatim>\<open>%.2f\<close>: the nearest multiple of one hundredth, ties to even.\<close>

definition round_even :: "rat \<Rightarrow> int" where
  "round_even x =
     (let f = \<lfloor>x\<rfloor>; d = x - of_int f
      in if d < 1 / 2 then f else if d > 1 / 2 then f + 1 else if even f then f else f + 1)"

definition fixed2 :: "rat \<Rightarrow> string" where
  "fixed2 x =
     (let h = round_even (x * 100); a = nat \<bar>h\<bar>
      in (if x < 0 then ''-'' else []) @ itoa_nat (a div 100) @ ''.''
         @ [digit_char (a div 10 mod 10), digit_char (a mod 10)])"

definition method_lines :: "string \<Rightarrow> (string \<times> string) list \<Rightarrow> string" where
  "method_lines name kvs =
     concat (map (\<lambda>(m, v). name @ ''{method='' @ [QUOTE] @ sanitizeLabel m @ [QUOTE] @ ''} '' @ v @ [NL]) kvs)"

definition handleMetrics ::
  "int \<Rightarrow> int \<Rightarrow> int \<Rightarrow> bool \<Rightarrow> int \<Rightarrow> SessionManager \<Rightarrow> Metrics \<Rightarrow> RuntimeStats \<Rightarrow> string" where
  "handleMetrics totalReq active workersMax shuttingDown uptimeSec sm m rt =
     metric ''goposix_requests_total'' ''Total number of RPC requests processed.'' ''counter'' totalReq
     @ metric ''goposix_workers_active'' ''Number of currently executing workers.'' ''gauge'' active
     @ metric ''goposix_workers_max'' ''Configured worker pool size.'' ''gauge'' workersMax
     @ metric ''goposix_uptime_seconds'' ''Daemon uptime in seconds.'' ''gauge'' uptimeSec
     @ metric ''goposix_sessions_active'' ''Number of active sessions.'' ''gauge'' (int (length (List_sessions sm)))
     @ metric ''goposix_rate_limited_total'' ''Total number of rate-limited requests.'' ''counter'' (rateLimitedTotal m)
     @ metric ''goposix_shutting_down'' ''1 if daemon is draining, 0 otherwise.'' ''gauge'' (if shuttingDown then 1 else 0)
     @ metric ''goposix_goroutines'' ''Number of goroutines.'' ''gauge'' (rs_goroutines rt)
     @ metric ''goposix_gomaxprocs'' ''GOMAXPROCS setting.'' ''gauge'' (rs_gomaxprocs rt)
     @ metric ''goposix_num_cpu'' ''Number of CPUs available.'' ''gauge'' (rs_numcpu rt)
     @ metric ''goposix_heap_alloc_bytes'' ''Bytes of allocated heap objects.'' ''gauge'' (rs_heapAlloc rt)
     @ metric ''goposix_heap_sys_bytes'' ''Bytes of heap obtained from the OS.'' ''gauge'' (rs_heapSys rt)
     @ metric ''goposix_stack_inuse_bytes'' ''Bytes in stack spans.'' ''gauge'' (rs_stackInuse rt)
     @ metric ''goposix_mallocs_total'' ''Total number of mallocs.'' ''counter'' (rs_mallocs rt)
     @ metric ''goposix_frees_total'' ''Total number of frees.'' ''counter'' (rs_frees rt)
     @ metric ''goposix_total_alloc_bytes'' ''Cumulative bytes allocated for heap objects.'' ''counter'' (rs_totalAlloc rt)
     @ metric ''goposix_num_gc_cycles'' ''Number of completed GC cycles.'' ''counter'' (rs_numGC rt)
     @ metric ''goposix_gc_pause_ns'' ''Most recent GC pause in nanoseconds.'' ''gauge''
         (rs_pauseNs rt (nat ((rs_numGC rt + 255) mod 2 ^ 32 mod 256)))
     @ (if durationCounts m = [] then []
        else
          ''# HELP goposix_rpc_duration_ms_count Count of RPC calls per method.'' @ [NL]
          @ ''# TYPE goposix_rpc_duration_ms_count counter'' @ [NL]
          @ method_lines ''goposix_rpc_duration_ms_count'' (map (\<lambda>(k, c). (k, Itoa c)) (durationCounts m))
          @ ''# HELP goposix_rpc_duration_ms_sum Sum of RPC call durations per method in milliseconds.'' @ [NL]
          @ ''# TYPE goposix_rpc_duration_ms_sum counter'' @ [NL]
          @ method_lines ''goposix_rpc_duration_ms_sum''
              (map (\<lambda>(k, c). (k, fixed2 (lookup0 (durationSums m) k))) (durationCounts m)))"

section \<open>Labels\<close>

lemma ReplaceAll_char: "ReplaceAll s [c] new = concat (map (\<lambda>x. if x = c then new else [x]) s)"
proof (induction s)
  case Nil
  show ?case by (simp add: ReplaceAll.simps)
next
  case (Cons x s)
  then show ?case by (subst ReplaceAll.simps) auto
qed

definition label_char :: "char \<Rightarrow> string" where
  "label_char x =
     (if x = BSL then [BSL, BSL] else if x = QUOTE then [BSL, QUOTE]
      else if x = NL then [BSL, CHR ''n''] else [x])"

lemma sanitizeLabel_chars: "sanitizeLabel s = concat (map label_char s)"
  by (induction s) (simp_all add: sanitizeLabel_def Let_def ReplaceAll_char label_char_def)

text \<open>How a reader of the exposition format reads a quoted label value: up to the closing quote, with
  the three escapes undone.\<close>

fun read_label :: "string \<Rightarrow> (string \<times> string) option" where
  "read_label [] = None"
| "read_label [c] = (if c = QUOTE then Some ([], []) else None)"
| "read_label (c # d # s) =
     (if c = QUOTE then Some ([], d # s)
      else if c = NL then None
      else if c = BSL then
        (if d = BSL \<or> d = QUOTE then map_option (\<lambda>(v, r). (d # v, r)) (read_label s)
         else if d = CHR ''n'' then map_option (\<lambda>(v, r). (NL # v, r)) (read_label s)
         else None)
      else map_option (\<lambda>(v, r). (c # v, r)) (read_label (d # s)))"

text \<open>
  A method name chosen by a client cannot corrupt the metrics page: the label written for it reads
  back as that name, and what follows the closing quote is read from there.
\<close>

theorem sanitizeLabel_roundtrip: "read_label (sanitizeLabel s @ QUOTE # rest) = Some (s, rest)"
proof (induction s)
  case Nil
  show ?case by (cases rest) (simp_all add: sanitizeLabel_chars)
next
  case (Cons x s)
  obtain d t where dt: "sanitizeLabel s @ QUOTE # rest = d # t" by (cases "sanitizeLabel s @ QUOTE # rest") auto
  with Cons show ?case
    by (cases "x = BSL"; cases "x = QUOTE"; cases "x = NL")
       (auto simp: sanitizeLabel_chars label_char_def)
qed

end
