(* ===== verification/Shell.thy ===== *)
theory Shell
  imports Paths Dispatch Io Json
begin

text \<open>
  The shell bridge: \<^verbatim>\<open>internal/shell/interpreter.go\<close>.  The interpreter itself is the package
  \<^verbatim>\<open>mvdan.cc/sh\<close>, which is not part of the sources: it is a parameter that says whether a script parses,
  whether a runner can be made, and what a run writes and returns.  The handlers the bridge installs in
  it are modelled.
\<close>

record ExecResult =
  X_Stdout :: string
  X_Stderr :: string
  X_ExitCode :: nat
  X_CWD :: string

datatype run_error = ExitStatus nat | RunError string

record interp_run =
  ir_stdout :: "string list"
  ir_stderr :: "string list"
  ir_dir :: string
  ir_err :: "run_error option"

text \<open>\<open>si_parse\<close> and \<open>si_new\<close> give the text of an error, if any; the directory is \<^const>\<open>None\<close> and the
  environment is \<^const>\<open>None\<close> when the option is not set.\<close>

record interpreter =
  si_parse :: "string \<Rightarrow> string option"
  si_new :: "string option \<Rightarrow> string list option \<Rightarrow> string option"
  si_run :: "string \<Rightarrow> string option \<Rightarrow> string list option \<Rightarrow> interp_run"

definition shell_limit :: int where "shell_limit = 128 * 1024 * 1024"

definition env_list :: "(string \<times> string) list \<Rightarrow> string list" where
  "env_list env = map (\<lambda>(k, v). k @ ''='' @ v) env"

definition Exec :: "interpreter \<Rightarrow> string \<Rightarrow> string \<Rightarrow> string \<Rightarrow> (string \<times> string) list option \<Rightarrow> ExecResult" where
  "Exec si getwd script cwd env =
     (case si_parse si script of
        Some e \<Rightarrow> \<lparr>X_Stdout = [], X_Stderr = e, X_ExitCode = 127, X_CWD = []\<rparr>
      | None \<Rightarrow>
          (let dir = (if cwd \<noteq> [] then Some cwd else None);
               envl = map_option env_list env
           in case si_new si dir envl of
                Some e \<Rightarrow> \<lparr>X_Stdout = [], X_Stderr = e, X_ExitCode = 127, X_CWD = []\<rparr>
              | None \<Rightarrow>
                  (let baselineCwd = (if cwd = [] then getwd else cwd);
                       r = si_run si script dir envl;
                       finalCwd = (if ir_dir r = [] then baselineCwd else ir_dir r);
                       err = limited shell_limit (ir_stderr r);
                       (exitCode, err') =
                         (case ir_err r of
                            None \<Rightarrow> (0, err)
                          | Some (ExitStatus n) \<Rightarrow> (n mod 256, err)
                          | Some (RunError e) \<Rightarrow> (1, err @ e @ [NL]))
                   in \<lparr>X_Stdout = limited shell_limit (ir_stdout r), X_Stderr = err', X_ExitCode = exitCode,
                       X_CWD = finalCwd\<rparr>)))"

definition ExecResult_json :: "ExecResult \<Rightarrow> json" where
  "ExecResult_json r =
     JObj [(''stdout'', JStr (X_Stdout r)), (''stderr'', JStr (X_Stderr r)),
           (''exitCode'', JInt (int (X_ExitCode r))), (''cwd'', JStr (X_CWD r))]"

section \<open>The handlers\<close>

text \<open>What the command handler does with a simple command: nothing, hand it to the next handler, or run
  the registered utility, whose exit status is one byte.\<close>

datatype handled = NoCommand | NextHandler | Ran "int \<times> string list \<times> string list"

definition execHandler :: "registry \<Rightarrow> string \<Rightarrow> string \<Rightarrow> string \<Rightarrow> string list \<Rightarrow> handled" where
  "execHandler reg cwd hcDir stdin args =
     (case args of
        [] \<Rightarrow> NoCommand
      | cmdName # rest \<Rightarrow>
          (case Lookup reg cmdName of
             None \<Rightarrow> NextHandler
           | Some cmd \<Rightarrow>
               (let dir = (if hcDir = [] then cwd else hcDir);
                    (exitCode, out, err) = Run cmd rest stdin dir
                in Ran (if exitCode \<noteq> 0 then exitCode mod 256 else 0, out, err))))"

text \<open>The open handler: the path that is opened for a redirection, or the error.\<close>

definition openHandler :: "fsenv \<Rightarrow> string \<Rightarrow> string \<Rightarrow> string \<Rightarrow> fserr + string" where
  "openHandler E getwd cwd path =
     (let base0 = (if cwd = [] then getwd else cwd);
          base = (if base0 = [] then [SL] else base0)
      in SecurePath E path base)"

section \<open>Properties\<close>

text \<open>
  Redirections of a script are confined: a file the open handler opens for a script that runs in
  \<open>cwd\<close> lies inside the directory \<open>cwd\<close> resolves to, unless that is the root.
\<close>

theorem openHandler_confined:
  assumes "cwd \<noteq> []" and "openHandler E getwd cwd path = Inr p"
  shows "\<exists>rb. realBase E cwd = Inr rb \<and> (unrestricted rb \<or> inside rb p)"
  using assms SecurePath_guarded by (simp add: openHandler_def)

text \<open>
  The result of a script is well formed: the exit status fits in a byte whatever the interpreter
  returns, and standard output has at most 128 MiB however much the script writes.
\<close>

theorem Exec_result:
  "X_ExitCode (Exec si getwd script cwd env) < 256
   \<and> length (X_Stdout (Exec si getwd script cwd env)) \<le> nat shell_limit"
proof -
  have "length (limited shell_limit ps) \<le> nat shell_limit" for ps
    by (simp add: limited_def write_all_spec shell_limit_def)
  then show ?thesis
    by (auto simp: Exec_def Let_def split: option.splits run_error.splits prod.splits)
qed

section \<open>Witness\<close>

theorem openHandler_confined_witness:
  "openHandler demo_fs ''/'' ''/srv'' ''data.txt'' = Inr ''/srv/data.txt''
   \<and> (\<exists>rb. realBase demo_fs ''/srv'' = Inr rb \<and> (unrestricted rb \<or> inside rb ''/srv/data.txt''))"
proof -
  have o: "openHandler demo_fs ''/'' ''/srv'' ''data.txt'' = Inr ''/srv/data.txt''" by code_simp
  then show ?thesis using openHandler_confined [OF _ o] by simp
qed

end
