(* ===== verification/Server.thy ===== *)
theory Server
  imports Output Ratelimit Observability Shell Decoder
begin

text \<open>
  The JSON-RPC server: \<^verbatim>\<open>internal/daemon/server.go\<close>.  A request is processed as one step on the state
  of the server; everything outside the process that a request depends on is the record \<open>World\<close>: the
  clock, the random bytes, the file system, the command registry, the shell interpreter and the local
  time format.  Buffers come from a pool and are reset before use, so they are fresh here.
\<close>

section \<open>Requests and responses\<close>

record Request =
  Rq_JSONRPC :: string
  Rq_Method :: string
  Rq_Params :: "json option"
  Rq_ID :: json

record Error =
  E_Code :: int
  E_Message :: string
  E_Data :: json

record Response =
  Rp_JSONRPC :: string
  Rp_Result :: "json option"
  Rp_Error :: "Error option"
  Rp_ID :: json

definition decode_Request :: "json \<Rightarrow> Request option" where
  "decode_Request j =
     (case struct_members j of
        None \<Rightarrow> None
      | Some kvs \<Rightarrow>
          (case (decode_field dec_string ''jsonrpc'' [] kvs, decode_field dec_string ''method'' [] kvs,
                 decode_field dec_raw ''params'' None kvs, decode_field dec_any ''id'' JNull kvs) of
             (Some v, Some m, Some p, Some i) \<Rightarrow>
               Some \<lparr>Rq_JSONRPC = v, Rq_Method = m, Rq_Params = p, Rq_ID = i\<rparr>
           | _ \<Rightarrow> None))"

definition Error_json :: "Error \<Rightarrow> json" where
  "Error_json e =
     JObj ([(''code'', JInt (E_Code e)), (''message'', JStr (E_Message e))]
           @ (if E_Data e = JNull then [] else [(''data'', E_Data e)]))"

definition Response_json :: "Response \<Rightarrow> json" where
  "Response_json r =
     JObj ([(''jsonrpc'', JStr (Rp_JSONRPC r))]
           @ (case Rp_Result r of None \<Rightarrow> [] | Some v \<Rightarrow> [(''result'', v)])
           @ (case Rp_Error r of None \<Rightarrow> [] | Some e \<Rightarrow> [(''error'', Error_json e)])
           @ (if Rp_ID r = JNull then [] else [(''id'', Rp_ID r)]))"

text \<open>What \<^verbatim>\<open>json.NewEncoder(conn).Encode\<close> writes.\<close>

definition encode_line :: "json \<Rightarrow> string" where
  "encode_line j = json_encode True j @ [NL]"

definition ok_response :: "json \<Rightarrow> json \<Rightarrow> Response" where
  "ok_response i v = \<lparr>Rp_JSONRPC = ''2.0'', Rp_Result = Some v, Rp_Error = None, Rp_ID = i\<rparr>"

definition err_response :: "json \<Rightarrow> int \<Rightarrow> string \<Rightarrow> json \<Rightarrow> Response" where
  "err_response i c msg d =
     \<lparr>Rp_JSONRPC = ''2.0'', Rp_Result = None, Rp_Error = Some \<lparr>E_Code = c, E_Message = msg, E_Data = d\<rparr>, Rp_ID = i\<rparr>"

definition preEncodedErrors :: "int \<Rightarrow> string option" where
  "preEncodedErrors c =
     (if c = - 32700 then Some (encode_line (Response_json (err_response JNull (- 32700) ''Parse error or request too large'' JNull)))
      else if c = - 32600 then Some (encode_line (Response_json (err_response JNull (- 32600) ''Invalid Request'' JNull)))
      else if c = - 32601 then Some (encode_line (Response_json (err_response JNull (- 32601) ''Method not found'' JNull)))
      else if c = - 32000 then Some (encode_line (Response_json (err_response JNull (- 32000) ''Rate limit exceeded'' JNull)))
      else None)"

definition writeError :: "json \<Rightarrow> int \<Rightarrow> string \<Rightarrow> string" where
  "writeError i c msg =
     (case (if i = JNull then preEncodedErrors c else None) of
        Some b \<Rightarrow> b
      | None \<Rightarrow> encode_line (Response_json (err_response i c msg JNull)))"

section \<open>The server\<close>

record Server =
  uptime :: int
  sm :: SessionManager
  activeWorkers :: int
  totalRequests :: int
  shuttingDown :: bool
  workersMax :: int
  metrics :: Metrics
  rateLimit :: real
  requestLimit :: int

record World =
  w_now :: int
  w_micros :: int
  w_rand :: string
  w_fs :: fsenv
  w_getwd :: string
  w_reg :: registry
  w_sh :: interpreter
  w_time :: "int \<Rightarrow> string"

text \<open>The two environment variables are read by the caller: \<open>rl\<close> is the value of
  \<^verbatim>\<open>GOPOSIX_RATE_LIMIT\<close> if it is set and parses, \<open>rq\<close> the text of \<^verbatim>\<open>GOPOSIX_MAX_REQUEST_SIZE\<close>.\<close>

definition NewServer :: "real option \<Rightarrow> string \<Rightarrow> int \<Rightarrow> int \<Rightarrow> Server" where
  "NewServer rl rq workers now =
     \<lparr>uptime = now, sm = NewSessionManager (30 * 60 * 1000000000), activeWorkers = 0, totalRequests = 0,
      shuttingDown = False, workersMax = workers, metrics = NewMetrics,
      rateLimit = (case rl of Some r \<Rightarrow> if r > 0 then r else 100 | None \<Rightarrow> 100),
      requestLimit = (case ParseInt rq of Some l \<Rightarrow> if l > 0 then l else 1024 * 1024 | None \<Rightarrow> 1024 * 1024)\<rparr>"

record GoposixParams =
  P_Flags :: "string list"
  P_Path :: string
  P_Text :: string
  P_Stdin :: string
  P_SessionId :: string
  P_RawOutput :: bool

definition decode_GoposixParams :: "json \<Rightarrow> GoposixParams option" where
  "decode_GoposixParams j =
     (case struct_members j of
        None \<Rightarrow> None
      | Some kvs \<Rightarrow>
          (case (decode_field dec_strings ''flags'' [] kvs, decode_field dec_string ''path'' [] kvs,
                 decode_field dec_string ''text'' [] kvs, decode_field dec_string ''stdin'' [] kvs,
                 decode_field dec_string ''sessionId'' [] kvs, decode_field dec_bool ''rawOutput'' False kvs) of
             (Some f, Some p, Some t, Some i, Some s, Some r) \<Rightarrow>
               Some \<lparr>P_Flags = f, P_Path = p, P_Text = t, P_Stdin = i, P_SessionId = s, P_RawOutput = r\<rparr>
           | _ \<Rightarrow> None))"

text \<open>The anonymous parameter structs of the session methods: their string fields; missing parameters
  do not decode.\<close>

definition decode_strings2 :: "string \<Rightarrow> string \<Rightarrow> json option \<Rightarrow> (string \<times> string) option" where
  "decode_strings2 a b params =
     (case params of
        None \<Rightarrow> None
      | Some j \<Rightarrow>
          (case struct_members j of
             None \<Rightarrow> None
           | Some kvs \<Rightarrow>
               (case (decode_field dec_string a [] kvs, decode_field dec_string b [] kvs) of
                  (Some x, Some y) \<Rightarrow> Some (x, y)
                | _ \<Rightarrow> None)))"

section \<open>Session methods\<close>

text \<open>\<^verbatim>\<open>time.Duration.String\<close>.\<close>

definition frac_digits :: "nat \<Rightarrow> nat \<Rightarrow> string" where
  "frac_digits v prec =
     (let ds = itoa_nat (v mod 10 ^ prec);
          full = replicate (prec - length ds) CHR ''0'' @ ds;
          trimmed = rev (dropWhile (\<lambda>c. c = CHR ''0'') (rev full))
      in if trimmed = [] then [] else CHR ''.'' # trimmed)"

definition Duration_String :: "int \<Rightarrow> string" where
  "Duration_String d =
     (let u = nat \<bar>d\<bar>;
          body =
            (if u = 0 then ''0s''
             else if u < 1000 then itoa_nat u @ ''ns''
             else if u < 1000000 then itoa_nat (u div 1000) @ frac_digits u 3 @ [CHR 0xC2, CHR 0xB5, CHR ''s'']
             else if u < 1000000000 then itoa_nat (u div 1000000) @ frac_digits u 6 @ ''ms''
             else
               (let secs = u div 1000000000; mins = secs div 60; hours = mins div 60
                in (if hours > 0 then itoa_nat hours @ ''h'' else [])
                   @ (if mins > 0 then itoa_nat (mins mod 60) @ ''m'' else [])
                   @ itoa_nat (secs mod 60) @ frac_digits u 9 @ ''s''))
      in (if d < 0 then ''-'' else []) @ body)"

definition Session_json :: "(int \<Rightarrow> string) \<Rightarrow> Session \<Rightarrow> json" where
  "Session_json fmt s =
     JObj [(''sessionId'', JStr (S_ID s)), (''cwd'', JStr (S_CWD s)), (''baseDir'', JStr (S_BaseDir s)),
           (''env'', go_map (map (\<lambda>(k, v). (k, JStr v)) (S_Env s))),
           (''lastActive'', JStr (fmt (S_LastActive s)))]"

definition handle_ping :: "World \<Rightarrow> Request \<Rightarrow> Server \<Rightarrow> Response option \<times> Server" where
  "handle_ping w req s =
     (if Rq_ID req = JNull then (None, s)
      else (Some (ok_response (Rq_ID req)
              (JObj [(''pong'', JBool True), (''uptime'', JStr (Duration_String (w_now w - uptime s))),
                     (''version'', JStr Version), (''workers'', JObj [(''active'', JInt (activeWorkers s))])])), s))"

definition handle_create :: "World \<Rightarrow> Request \<Rightarrow> Server \<Rightarrow> Response option \<times> Server" where
  "handle_create w req s =
     (if Rq_ID req = JNull then (None, s)
      else (let (sess, m) = Create (w_rand w) (w_now w) (sm s)
            in (Some (ok_response (Rq_ID req) (Session_json (w_time w) sess)), s\<lparr>sm := m\<rparr>)))"

definition handle_setCwd :: "World \<Rightarrow> Request \<Rightarrow> Server \<Rightarrow> Response option \<times> Server" where
  "handle_setCwd w req s =
     (if Rq_ID req = JNull then (None, s)
      else
        (case decode_strings2 ''sessionId'' ''path'' (Rq_Params req) of
           None \<Rightarrow> (Some (err_response (Rq_ID req) (- 32602) ''Invalid params'' JNull), s)
         | Some (sid, path) \<Rightarrow>
             (case Get_session sid (w_now w) (sm s) of
                (None, m) \<Rightarrow> (Some (err_response (Rq_ID req) (- 32602) ''Invalid session'' JNull), s\<lparr>sm := m\<rparr>)
              | (Some sess, m) \<Rightarrow>
                  (case SetCwd (SecurePath (w_fs w)) (StatIsDir (w_fs w)) sid path (w_now w) m of
                     (True, m') \<Rightarrow> (Some (ok_response (Rq_ID req) (JBool True)), s\<lparr>sm := m'\<rparr>)
                   | (False, m') \<Rightarrow>
                       (Some (err_response (Rq_ID req) (- 32602)
                          ''Path traversal detected or directory does not exist'' JNull), s\<lparr>sm := m'\<rparr>)))))"

definition handle_list :: "World \<Rightarrow> Request \<Rightarrow> Server \<Rightarrow> Response option \<times> Server" where
  "handle_list w req s =
     (if Rq_ID req = JNull then (None, s)
      else (Some (ok_response (Rq_ID req) (JArr (map (Session_json (w_time w)) (List_sessions (sm s))))), s))"

definition handle_destroy :: "World \<Rightarrow> Request \<Rightarrow> Server \<Rightarrow> Response option \<times> Server" where
  "handle_destroy w req s =
     (if Rq_ID req = JNull then (None, s)
      else
        (case decode_strings2 ''sessionId'' ''sessionId'' (Rq_Params req) of
           None \<Rightarrow> (Some (err_response (Rq_ID req) (- 32602) ''Invalid session'' JNull), s)
         | Some (sid, _) \<Rightarrow>
             (case Destroy sid (sm s) of
                (True, m) \<Rightarrow> (Some (ok_response (Rq_ID req) (JBool True)), s\<lparr>sm := m\<rparr>)
              | (False, m) \<Rightarrow> (Some (err_response (Rq_ID req) (- 32602) ''Invalid session'' JNull), s\<lparr>sm := m\<rparr>))))"

definition handle_shell :: "World \<Rightarrow> Request \<Rightarrow> Server \<Rightarrow> Response option \<times> Server" where
  "handle_shell w req s =
     (if Rq_ID req = JNull then (None, s)
      else
        (case decode_strings2 ''sessionId'' ''script'' (Rq_Params req) of
           None \<Rightarrow> (Some (err_response (Rq_ID req) (- 32602) ''Invalid params'' JNull), s)
         | Some (sid, script) \<Rightarrow>
             (let (sess, m) = (if sid \<noteq> [] then Get_session sid (w_now w) (sm s) else (None, sm s));
                  cwd = (case sess of None \<Rightarrow> [SL] | Some x \<Rightarrow> S_CWD x);
                  env = map_option S_Env sess;
                  res = Exec (w_sh w) (w_getwd w) script cwd env;
                  m' = (if sid \<noteq> [] \<and> X_CWD res \<noteq> []
                        then snd (SetCwd (SecurePath (w_fs w)) (StatIsDir (w_fs w)) sid (X_CWD res) (w_now w) m)
                        else m)
              in (Some (ok_response (Rq_ID req) (ExecResult_json res)), s\<lparr>sm := m'\<rparr>))))"

section \<open>Commands\<close>

definition response_limit :: int where "response_limit = 50 * 1024 * 1024"

text \<open>\<^verbatim>\<open>json.Unmarshal(buf.Bytes(), &env)\<close>: the error and the data of the envelope.\<close>

fun dec_ErrorInfo :: "ErrorInfo option \<Rightarrow> json \<Rightarrow> ErrorInfo option option" where
  "dec_ErrorInfo old JNull = Some None"
| "dec_ErrorInfo old (JObj kvs) =
     (let z = (case old of None \<Rightarrow> \<lparr>EI_Code = [], EI_Message = []\<rparr> | Some e \<Rightarrow> e)
      in case (decode_field dec_string ''code'' (EI_Code z) kvs, decode_field dec_string ''message'' (EI_Message z) kvs) of
           (Some c, Some m) \<Rightarrow> Some (Some \<lparr>EI_Code = c, EI_Message = m\<rparr>)
         | _ \<Rightarrow> None)"
| "dec_ErrorInfo old _ = None"

definition decode_envelope :: "string \<Rightarrow> JSONEnvelope option" where
  "decode_envelope b =
     (case Option.bind (json_parse b) struct_members of
        None \<Rightarrow> None
      | Some kvs \<Rightarrow>
          (case (decode_field dec_string ''command'' [] kvs, decode_field dec_string ''version'' [] kvs,
                 decode_field dec_string ''schemaVersion'' [] kvs, decode_field dec_int ''exitCode'' 0 kvs,
                 decode_field dec_any ''data'' JNull kvs, decode_field dec_ErrorInfo ''error'' None kvs) of
             (Some c, Some v, Some sv, Some x, Some d, Some e) \<Rightarrow>
               Some \<lparr>Env_Command = c, Env_Version = v, Env_SchemaVersion = sv, Env_ExitCode = x, Env_Data = d,
                     Env_Error = e\<rparr>
           | _ \<Rightarrow> None))"

text \<open>The session a command runs in, the guarded path and the arguments; \<open>Inl\<close> is a path refused.\<close>

definition build_args ::
  "World \<Rightarrow> string \<Rightarrow> GoposixParams option \<Rightarrow> SessionManager
   \<Rightarrow> (fserr + string list \<times> string \<times> string \<times> bool) \<times> SessionManager" where
  "build_args w cmdName params m =
     (case params of
        None \<Rightarrow> (Inr ([''--json''], [], [SL], False), m)
      | Some p \<Rightarrow>
          (let (session, m') = (if P_SessionId p \<noteq> [] then Get_session (P_SessionId p) (w_now w) m else (None, m));
               cwd = (case session of None \<Rightarrow> [SL] | Some x \<Rightarrow> if S_CWD x \<noteq> [] then S_CWD x else [SL])
           in case (if P_Path p \<noteq> [] then SecurePath (w_fs w) (P_Path p) cwd else Inr []) of
                Inl e \<Rightarrow> (Inl e, m')
              | Inr path \<Rightarrow>
                  (Inr ((if P_RawOutput p then [] else [''--json'']) @ P_Flags p
                        @ (if cmdName = ''echo'' \<and> P_Text p \<noteq> [] then [P_Text p] else [])
                        @ (if path \<noteq> [] then [path] else []),
                        P_Stdin p, cwd, P_RawOutput p), m')))"

definition command_response :: "json \<Rightarrow> bool \<Rightarrow> int \<Rightarrow> string \<Rightarrow> string \<Rightarrow> Response option" where
  "command_response i rawOutput exitCode out err =
     (if i = JNull then None
      else if rawOutput then
        Some (ok_response i (JObj [(''exitCode'', JInt exitCode), (''stderr'', JStr err), (''stdout'', JStr out)]))
      else
        (case decode_envelope out of
           None \<Rightarrow>
             Some (ok_response i (JObj [(''data'', if out = [] then JNull else JStr out),
                                        (''exitCode'', JInt exitCode), (''stderr'', JStr err)]))
         | Some env \<Rightarrow>
             (case Env_Error env of
                Some e \<Rightarrow>
                  Some (err_response i (- 32000) (EI_Message e)
                    (JObj [(''code'', JStr (EI_Code e)), (''exitCode'', JInt exitCode), (''stderr'', JStr err)]))
              | None \<Rightarrow>
                  Some (ok_response i (JObj [(''data'', Env_Data env), (''exitCode'', JInt exitCode),
                                             (''stderr'', JStr err)])))))"

definition handle_command :: "World \<Rightarrow> Request \<Rightarrow> GoposixParams option \<Rightarrow> Server \<Rightarrow> Response option \<times> Server" where
  "handle_command w req params s =
     (let cmdName = TrimPrefix (Rq_Method req) ''goposix.''
      in case Lookup (w_reg w) cmdName of
           None \<Rightarrow>
             (if Rq_ID req \<noteq> JNull then Some (err_response (Rq_ID req) (- 32601) ''Method not found'' JNull) else None, s)
         | Some cmd \<Rightarrow>
             (case build_args w cmdName params (sm s) of
                (Inl e, m) \<Rightarrow>
                  (if Rq_ID req \<noteq> JNull
                   then Some (err_response (Rq_ID req) (- 32602) ''Path traversal detected'' JNull) else None,
                   s\<lparr>sm := m\<rparr>)
              | (Inr (args, stdin, cwd, rawOutput), m) \<Rightarrow>
                  (let (exitCode, outs, errs) = Run cmd args stdin cwd
                   in (command_response (Rq_ID req) rawOutput exitCode
                         (limited response_limit outs) (limited response_limit errs),
                       s\<lparr>sm := m\<rparr>))))"

definition route :: "World \<Rightarrow> Request \<Rightarrow> GoposixParams option \<Rightarrow> Server \<Rightarrow> Response option \<times> Server" where
  "route w req params s =
     (if Rq_JSONRPC req \<noteq> ''2.0'' then
        (if Rq_ID req \<noteq> JNull then Some (err_response (Rq_ID req) (- 32600) ''Invalid Request'' JNull) else None, s)
      else if length (Rq_Method req) > 256 then
        (if Rq_ID req \<noteq> JNull then Some (err_response (Rq_ID req) (- 32600) ''Method too long'' JNull) else None, s)
      else if Rq_Method req = ''goposix.ping'' then handle_ping w req s
      else if Rq_Method req = ''goposix.session.create'' then handle_create w req s
      else if Rq_Method req = ''goposix.session.setCwd'' then handle_setCwd w req s
      else if Rq_Method req = ''goposix.session.list'' then handle_list w req s
      else if Rq_Method req = ''goposix.session.destroy'' then handle_destroy w req s
      else if Rq_Method req = ''goposix.shell.exec'' then handle_shell w req s
      else if \<not> prefix ''goposix.'' (Rq_Method req) then
        (if Rq_ID req \<noteq> JNull then Some (err_response (Rq_ID req) (- 32601) ''Method not found'' JNull) else None, s)
      else handle_command w req params s)"

definition processRequest :: "World \<Rightarrow> Request \<Rightarrow> Server \<Rightarrow> Response option \<times> Server" where
  "processRequest w req s =
     (let params = Option.bind (Rq_Params req) decode_GoposixParams;
          s1 = s\<lparr>totalRequests := wrap64 (totalRequests s + 1), activeWorkers := activeWorkers s + 1\<rparr>;
          (res, s2) = route w req params s1
      in (res, s2\<lparr>activeWorkers := activeWorkers s2 - 1,
                  metrics := RecordRequest (Rq_Method req) (of_int (w_micros w) / 1000) (metrics s2)\<rparr>))"

definition procTitle :: "Server \<Rightarrow> string" where
  "procTitle s =
     ''goposix daemon [W:'' @ Itoa (activeWorkers s) @ ''/'' @ Itoa (workersMax s) @ '' S:''
     @ Itoa (int (length (List_sessions (sm s)))) @ '' C:'' @ Itoa (totalRequests s) @ '']''"

section \<open>The worker pool, batches and connections\<close>

record WorkerPool =
  sem_cap :: nat
  sem_used :: nat
  nextWorkerID :: int

definition NewWorkerPool :: "nat \<Rightarrow> WorkerPool" where
  "NewWorkerPool n = \<lparr>sem_cap = n, sem_used = 0, nextWorkerID = 0\<rparr>"

text \<open>\<^verbatim>\<open>Submit\<close> takes a slot and starts a worker, or waits (\<^const>\<open>None\<close>): the daemon passes a context that is
  never cancelled.\<close>

definition Submit :: "WorkerPool \<Rightarrow> WorkerPool option" where
  "Submit wp =
     (if sem_used wp < sem_cap wp
      then Some (wp\<lparr>sem_used := sem_used wp + 1, nextWorkerID := wrap64 (nextWorkerID wp + 1)\<rparr>)
      else None)"

definition release :: "WorkerPool \<Rightarrow> WorkerPool" where
  "release wp = wp\<lparr>sem_used := sem_used wp - 1\<rparr>"

text \<open>A batch in progress: how many requests were submitted, the workers running, and the results slice.\<close>

record batch =
  b_next :: nat
  b_running :: "nat list"
  b_pool :: WorkerPool
  b_results :: "Response option list"
  b_server :: Server

inductive batch_step :: "(nat \<Rightarrow> World) \<Rightarrow> Request list \<Rightarrow> batch \<Rightarrow> batch \<Rightarrow> bool"
  for ws reqs where
  submit: "b_next b < length reqs \<Longrightarrow> Submit (b_pool b) = Some wp \<Longrightarrow>
     batch_step ws reqs b (b\<lparr>b_next := Suc (b_next b), b_running := b_next b # b_running b, b_pool := wp\<rparr>)"
| finish: "i \<in> set (b_running b) \<Longrightarrow> processRequest (ws i) (reqs ! i) (b_server b) = (res, s) \<Longrightarrow>
     batch_step ws reqs b
       (b\<lparr>b_running := remove1 i (b_running b), b_pool := release (b_pool b),
          b_results := (case res of None \<Rightarrow> b_results b | Some r \<Rightarrow> (b_results b)[i := Some r]),
          b_server := s\<rparr>)"

inductive_cases batch_stepE: "batch_step ws reqs b b'"

inductive batch_run :: "(nat \<Rightarrow> World) \<Rightarrow> Request list \<Rightarrow> batch \<Rightarrow> batch \<Rightarrow> nat \<Rightarrow> bool"
  for ws reqs where
  refl: "batch_run ws reqs b b 0"
| step: "batch_run ws reqs b b' n \<Longrightarrow> batch_step ws reqs b' b'' \<Longrightarrow> batch_run ws reqs b b'' (Suc n)"

definition batch_start :: "WorkerPool \<Rightarrow> Request list \<Rightarrow> Server \<Rightarrow> batch" where
  "batch_start wp reqs s =
     \<lparr>b_next = 0, b_running = [], b_pool = wp, b_results = replicate (length reqs) None, b_server = s\<rparr>"

definition batch_done :: "Request list \<Rightarrow> batch \<Rightarrow> bool" where
  "batch_done reqs b \<longleftrightarrow> b_next b = length reqs \<and> b_running b = []"

text \<open>What \<^verbatim>\<open>handleBatch\<close> writes once every worker is done.\<close>

definition batch_final :: "batch \<Rightarrow> Response list" where
  "batch_final b = List.map_filter (\<lambda>r. r) (b_results b)"

definition batch_output :: "batch \<Rightarrow> string" where
  "batch_output b =
     (let final = batch_final b
      in if final \<noteq> [] then encode_line (JArr (map Response_json final)) else [])"

text \<open>The schedule in which each request runs to completion before the next one starts.\<close>

fun process_all :: "(nat \<Rightarrow> World) \<Rightarrow> nat \<Rightarrow> Request list \<Rightarrow> Server \<Rightarrow> Response option list \<times> Server" where
  "process_all ws i [] s = ([], s)"
| "process_all ws i (r # rs) s =
     (let (res, s1) = processRequest (ws i) r s; (rest, s2) = process_all ws (Suc i) rs s1 in (res # rest, s2))"

definition handleBatch :: "(nat \<Rightarrow> World) \<Rightarrow> Request list \<Rightarrow> Server \<Rightarrow> string \<times> Server" where
  "handleBatch ws reqs s =
     (let (results, s') = process_all ws 0 reqs s;
          final = List.map_filter (\<lambda>r. r) results
      in (if final \<noteq> [] then encode_line (JArr (map Response_json final)) else [], s'))"

definition handleSingleAsync :: "World \<Rightarrow> Request \<Rightarrow> Server \<Rightarrow> string \<times> Server" where
  "handleSingleAsync w req s =
     (case processRequest w req s of
        (None, s') \<Rightarrow> ([], s')
      | (Some r, s') \<Rightarrow> (encode_line (Response_json r), s'))"

definition handle_message :: "(nat \<Rightarrow> World) \<Rightarrow> json \<Rightarrow> Server \<Rightarrow> string \<times> Server" where
  "handle_message ws j s =
     (case j of
        JArr js \<Rightarrow>
          (case those (map decode_Request js) of
             None \<Rightarrow> (writeError JNull (- 32600) ''Invalid Request'', s)
           | Some reqs \<Rightarrow>
               if reqs = [] then (writeError JNull (- 32600) ''Invalid Request'', s) else handleBatch ws reqs s)
      | _ \<Rightarrow>
          (case decode_Request j of
             None \<Rightarrow> (writeError JNull (- 32600) ''Invalid Request'', s)
           | Some req \<Rightarrow> handleSingleAsync (ws 0) req s))"

fun conn_loop :: "RateLimiter \<Rightarrow> (incoming \<times> (nat \<Rightarrow> World)) list \<Rightarrow> Server \<Rightarrow> string list \<times> Server" where
  "conn_loop rl [] s = ([], s)"
| "conn_loop rl ((StreamEOF, ws) # es) s = ([], s)"
| "conn_loop rl ((StreamError, ws) # es) s = ([writeError JNull (- 32700) ''Parse error or request too large''], s)"
| "conn_loop rl ((Message j, ws) # es) s =
     (let (ok, rl') = Allow rl (of_int (w_now (ws 0)) / 1000000000)
      in if \<not> ok then
           (let (outs, s') = conn_loop rl' es (s\<lparr>metrics := RecordRateLimited (metrics s)\<rparr>)
            in (writeError JNull (- 32000) ''Rate limit exceeded'' # outs, s'))
         else
           (let (out, s1) = handle_message ws j s; (outs, s') = conn_loop rl' es s1 in (out # outs, s')))"

text \<open>
  A connection delivers \<open>chunks\<close> until the client closes it; \<open>ws k\<close> is the world of the requests of message number \<open>k\<close>, so the clock and the
  file system change between any two requests.
\<close>

definition handleConn ::
  "(string \<Rightarrow> nat) \<Rightarrow> int \<Rightarrow> (nat \<Rightarrow> nat \<Rightarrow> World) \<Rightarrow> string list \<Rightarrow> Server \<Rightarrow> string list \<times> Server" where
  "handleConn room now ws chunks s =
     conn_loop (connLimiter (rateLimit s) (of_int now / 1000000000))
       (map (\<lambda>(k, i). (i, ws k)) (enumerate 0 (incoming_all room [] (NewPerRequestLimitReader chunks (requestLimit s))))) s"

section \<open>Responses\<close>

lemma response_simps [simp]:
  "Rp_JSONRPC (ok_response i v) = ''2.0''" "Rp_Result (ok_response i v) = Some v" "Rp_Error (ok_response i v) = None"
  "Rp_ID (ok_response i v) = i"
  "Rp_JSONRPC (err_response i c m d) = ''2.0''" "Rp_Result (err_response i c m d) = None"
  "Rp_Error (err_response i c m d) = Some \<lparr>E_Code = c, E_Message = m, E_Data = d\<rparr>" "Rp_ID (err_response i c m d) = i"
  by (simp_all add: ok_response_def err_response_def)

definition well_formed :: "json \<Rightarrow> Response option \<Rightarrow> bool" where
  "well_formed i r \<longleftrightarrow>
     (case r of
        None \<Rightarrow> i = JNull
      | Some x \<Rightarrow> i \<noteq> JNull \<and> Rp_ID x = i \<and> Rp_JSONRPC x = ''2.0'' \<and> ((Rp_Result x = None) \<noteq> (Rp_Error x = None)))"

lemma wf_if: "well_formed i (if i \<noteq> JNull then Some (err_response i c m d) else None)"
  by (simp add: well_formed_def)

lemma wf_ok: "i \<noteq> JNull \<Longrightarrow> well_formed i (Some (ok_response i v))"
  by (simp add: well_formed_def)

lemma wf_err: "i \<noteq> JNull \<Longrightarrow> well_formed i (Some (err_response i c m d))"
  by (simp add: well_formed_def)

lemma wf_none: "well_formed JNull None"
  by (simp add: well_formed_def)

lemmas wf_intros = wf_if wf_ok wf_err wf_none

lemma wf_command_response: "well_formed i (command_response i raw x out err)"
  by (auto simp: command_response_def intro: wf_intros split: option.split)

lemma wf_ping: "well_formed (Rq_ID req) (fst (handle_ping w req s))"
  by (simp add: handle_ping_def wf_intros)

lemma wf_create: "well_formed (Rq_ID req) (fst (handle_create w req s))"
  by (simp add: handle_create_def wf_intros split: prod.split)

lemma wf_setCwd: "well_formed (Rq_ID req) (fst (handle_setCwd w req s))"
  by (auto simp: handle_setCwd_def intro: wf_intros split: prod.split option.split bool.split)

lemma wf_list: "well_formed (Rq_ID req) (fst (handle_list w req s))"
  by (simp add: handle_list_def wf_intros)

lemma wf_destroy: "well_formed (Rq_ID req) (fst (handle_destroy w req s))"
  by (auto simp: handle_destroy_def intro: wf_intros split: prod.split option.split bool.split)

lemma wf_shell: "well_formed (Rq_ID req) (fst (handle_shell w req s))"
  by (auto simp: handle_shell_def Let_def intro: wf_intros split: prod.split option.split)

lemma wf_command: "well_formed (Rq_ID req) (fst (handle_command w req params s))"
  by (auto simp: handle_command_def Let_def wf_command_response intro: wf_intros split: prod.split option.split sum.split)

lemmas wf_handlers = wf_if wf_ping wf_create wf_setCwd wf_list wf_destroy wf_shell wf_command

lemma wf_route: "well_formed (Rq_ID req) (fst (route w req params s))"
  unfolding route_def by (simp only: fst_conv wf_handlers split: if_split) simp

lemma wf_processRequest: "well_formed (Rq_ID req) (fst (processRequest w req s))"
  by (simp add: processRequest_def Let_def split_def wf_route)

section \<open>Effect on the sessions\<close>

abbreviation reach :: "fsenv set \<Rightarrow> SessionManager \<Rightarrow> bool" where
  "reach Es \<equiv> sm_reach SecurePath StatIsDir Es"

lemma reach_ops:
  assumes "reach Es m"
  shows "reach Es (snd (Create b now m))" "reach Es (snd (Get_session i now m))"
    "E \<in> Es \<Longrightarrow> reach Es (snd (SetCwd (SecurePath E) (StatIsDir E) i p now m))" "reach Es (snd (Destroy i m))"
  using assms by (blast intro: sm_reach.step sm_step.intros)+

lemma reach_snd:
  "reach Es m \<Longrightarrow> Get_session i now m = (r, m') \<Longrightarrow> reach Es m'"
  "reach Es m \<Longrightarrow> E \<in> Es \<Longrightarrow> SetCwd (SecurePath E) (StatIsDir E) i p now m = (b, m') \<Longrightarrow> reach Es m'"
  "reach Es m \<Longrightarrow> Destroy i m = (b, m') \<Longrightarrow> reach Es m'"
  "reach Es m \<Longrightarrow> Create rnd now m = (x, m') \<Longrightarrow> reach Es m'"
  using reach_ops [of Es m] by (metis snd_conv)+

lemma reach_build_args: "reach Es m \<Longrightarrow> reach Es (snd (build_args w c params m))"
  by (auto simp: build_args_def Let_def intro: reach_snd split: option.split sum.split prod.split)

lemma reach_handlers:
  assumes "reach Es (sm s)" and "w_fs w \<in> Es"
  shows "reach Es (sm (snd (handle_ping w req s)))" "reach Es (sm (snd (handle_create w req s)))"
    "reach Es (sm (snd (handle_setCwd w req s)))" "reach Es (sm (snd (handle_list w req s)))"
    "reach Es (sm (snd (handle_destroy w req s)))" "reach Es (sm (snd (handle_shell w req s)))"
    "reach Es (sm (snd (handle_command w req params s)))"
proof -
  note r = assms(1) and e = assms(2)
  show "reach Es (sm (snd (handle_ping w req s)))" using r by (simp add: handle_ping_def)
  show "reach Es (sm (snd (handle_create w req s)))"
    using r by (auto simp: handle_create_def intro: reach_snd split: prod.split)
  show "reach Es (sm (snd (handle_setCwd w req s)))"
    using r e by (auto simp: handle_setCwd_def intro: reach_snd split: prod.split option.split bool.split)
  show "reach Es (sm (snd (handle_list w req s)))" using r by (simp add: handle_list_def)
  show "reach Es (sm (snd (handle_destroy w req s)))"
    using r by (auto simp: handle_destroy_def intro: reach_snd split: prod.split option.split bool.split)
  show "reach Es (sm (snd (handle_shell w req s)))"
    using r e by (auto simp: handle_shell_def Let_def intro: reach_ops(3) reach_snd split: prod.split option.split)
  show "reach Es (sm (snd (handle_command w req params s)))"
    using reach_build_args [OF r, of w "TrimPrefix (Rq_Method req) ''goposix.''" params] r
    by (auto simp: handle_command_def Let_def split: prod.split option.split sum.split)
qed

lemma reach_route:
  assumes "reach Es (sm s)" and "w_fs w \<in> Es"
  shows "reach Es (sm (snd (route w req params s)))"
  unfolding route_def by (simp only: snd_conv reach_handlers [OF assms] assms(1) split: if_split) simp

lemma reach_processRequest:
  assumes "reach Es (sm s)" and "w_fs w \<in> Es"
  shows "reach Es (sm (snd (processRequest w req s)))"
  using assms by (simp add: processRequest_def Let_def split_def reach_route)

section \<open>What a request leaves alone\<close>

definition frame :: "Server \<Rightarrow> int \<times> int \<times> Metrics \<times> real \<times> int" where
  "frame s = (totalRequests s, activeWorkers s, metrics s, rateLimit s, requestLimit s)"

lemma frame_sm [simp]: "frame (s\<lparr>sm := m\<rparr>) = frame s"
  by (simp add: frame_def)

lemma frame_handlers:
  "frame (snd (handle_ping w req s)) = frame s" "frame (snd (handle_create w req s)) = frame s"
  "frame (snd (handle_setCwd w req s)) = frame s" "frame (snd (handle_list w req s)) = frame s"
  "frame (snd (handle_destroy w req s)) = frame s" "frame (snd (handle_shell w req s)) = frame s"
  "frame (snd (handle_command w req params s)) = frame s"
proof -
  show "frame (snd (handle_ping w req s)) = frame s" by (simp add: handle_ping_def)
  show "frame (snd (handle_create w req s)) = frame s" by (simp add: handle_create_def split: prod.split)
  show "frame (snd (handle_setCwd w req s)) = frame s"
    by (simp add: handle_setCwd_def split: prod.split option.split bool.split)
  show "frame (snd (handle_list w req s)) = frame s" by (simp add: handle_list_def)
  show "frame (snd (handle_destroy w req s)) = frame s"
    by (simp add: handle_destroy_def split: prod.split option.split bool.split)
  show "frame (snd (handle_shell w req s)) = frame s"
    by (simp add: handle_shell_def Let_def split: prod.split option.split)
  show "frame (snd (handle_command w req params s)) = frame s"
    by (simp add: handle_command_def Let_def split: prod.split option.split sum.split)
qed

lemma frame_route: "frame (snd (route w req params s)) = frame s"
  unfolding route_def by (simp only: snd_conv frame_handlers split: if_split) simp

lemma processRequest_counters:
  "totalRequests (snd (processRequest w req s)) = wrap64 (totalRequests s + 1)"
  "activeWorkers (snd (processRequest w req s)) = activeWorkers s"
  "metrics (snd (processRequest w req s)) = RecordRequest (Rq_Method req) (of_int (w_micros w) / 1000) (metrics s)"
  using frame_route [of w req "Option.bind (Rq_Params req) decode_GoposixParams"
      "s\<lparr>totalRequests := wrap64 (totalRequests s + 1), activeWorkers := activeWorkers s + 1\<rparr>"]
  by (simp_all add: processRequest_def Let_def split_def frame_def)

lemma lookup0_RecordRequest:
  "lookup0 (durationCounts (RecordRequest k d m)) x =
     (if x = k then wrap64 (lookup0 (durationCounts m) k + 1) else lookup0 (durationCounts m) x)"
  by (simp add: RecordRequest_def lookup0_def update_conv')

lemma process_all_counters:
  assumes "0 \<le> totalRequests s" and "totalRequests s + int (length reqs) \<le> MaxInt64"
    and "\<forall>k. 0 \<le> lookup0 (durationCounts (metrics s)) k \<and> lookup0 (durationCounts (metrics s)) k \<le> totalRequests s"
  shows "totalRequests (snd (process_all ws i reqs s)) = totalRequests s + int (length reqs)
    \<and> activeWorkers (snd (process_all ws i reqs s)) = activeWorkers s
    \<and> (\<forall>k. lookup0 (durationCounts (metrics (snd (process_all ws i reqs s)))) k =
          lookup0 (durationCounts (metrics s)) k + int (length (filter (\<lambda>r. Rq_Method r = k) reqs)))"
  using assms
proof (induction reqs arbitrary: i s)
  case (Cons r reqs)
  let ?s = "snd (processRequest (ws i) r s)"
  have m: "MinInt64 \<le> 0" by (simp add: MinInt64_def)
  have t: "totalRequests ?s = totalRequests s + 1"
    using Cons.prems(1,2) m by (simp add: processRequest_counters wrap64_id)
  have c: "lookup0 (durationCounts (metrics ?s)) k =
      lookup0 (durationCounts (metrics s)) k + (if Rq_Method r = k then 1 else 0)" for k
  proof -
    have "0 \<le> lookup0 (durationCounts (metrics s)) k" "lookup0 (durationCounts (metrics s)) k \<le> totalRequests s"
      using Cons.prems(3) by auto
    then show ?thesis using Cons.prems(2) m by (auto simp: processRequest_counters lookup0_RecordRequest wrap64_id)
  qed
  have "\<forall>k. 0 \<le> lookup0 (durationCounts (metrics ?s)) k \<and> lookup0 (durationCounts (metrics ?s)) k \<le> totalRequests ?s"
    using Cons.prems(3) by (auto simp: c t add_increasing2)
  with Cons.IH [of ?s "Suc i"] Cons.prems(1,2) show ?case
    by (auto simp: t c processRequest_counters(2) split_def Let_def)
qed simp

section \<open>Batches\<close>

definition batch_inv :: "WorkerPool \<Rightarrow> Request list \<Rightarrow> nat \<Rightarrow> batch \<Rightarrow> bool" where
  "batch_inv wp reqs n b \<longleftrightarrow>
     b_next b \<le> length reqs \<and> distinct (b_running b) \<and> set (b_running b) \<subseteq> {..<b_next b}
     \<and> length (b_results b) = length reqs
     \<and> sem_cap (b_pool b) = sem_cap wp \<and> sem_used (b_pool b) = sem_used wp + length (b_running b)
     \<and> sem_used (b_pool b) \<le> sem_cap wp
     \<and> n + length (b_running b) = 2 * b_next b
     \<and> (\<forall>i < length reqs. if b_next b \<le> i \<or> i \<in> set (b_running b) then b_results b ! i = None
          else well_formed (Rq_ID (reqs ! i)) (b_results b ! i))"

lemma batch_inv_start: "sem_used wp \<le> sem_cap wp \<Longrightarrow> batch_inv wp reqs 0 (batch_start wp reqs s)"
  by (simp add: batch_inv_def batch_start_def)

lemma batch_inv_submit:
  assumes "batch_inv wp reqs n b" and "b_next b < length reqs" and "Submit (b_pool b) = Some p"
  shows "batch_inv wp reqs (Suc n)
    (b\<lparr>b_next := Suc (b_next b), b_running := b_next b # b_running b, b_pool := p\<rparr>)"
  using assms by (auto simp: batch_inv_def Submit_def split: if_splits)

lemma batch_inv_finish:
  assumes inv: "batch_inv wp reqs n b" and i: "i \<in> set (b_running b)"
    and p: "processRequest w (reqs ! i) (b_server b) = (res, s)"
  shows "batch_inv wp reqs (Suc n)
    (b\<lparr>b_running := remove1 i (b_running b), b_pool := release (b_pool b),
       b_results := (case res of None \<Rightarrow> b_results b | Some r \<Rightarrow> (b_results b)[i := Some r]), b_server := s\<rparr>)"
proof -
  have wf: "well_formed (Rq_ID (reqs ! i)) res"
    using wf_processRequest [of "reqs ! i" w "b_server b"] p by simp
  have lt: "i < length reqs" "i < b_next b" using inv i by (auto simp: batch_inv_def)
  have none: "b_results b ! i = None" using inv i lt by (auto simp: batch_inv_def)
  obtain k where len: "length (b_running b) = Suc k" using i by (cases "b_running b") auto
  then have len1: "length (remove1 i (b_running b)) = k" using i by (simp add: length_remove1)
  let ?rs = "case res of None \<Rightarrow> b_results b | Some r \<Rightarrow> (b_results b)[i := Some r]"
  have rs: "?rs ! j = (if j = i then res else b_results b ! j)" if "j < length reqs" for j
    using that none inv by (auto simp: batch_inv_def split: option.split)
  have "length ?rs = length reqs" using inv by (simp add: batch_inv_def split: option.split)
  moreover have "\<forall>j < length reqs. if b_next b \<le> j \<or> j \<in> set (remove1 i (b_running b)) then ?rs ! j = None
      else well_formed (Rq_ID (reqs ! j)) (?rs ! j)"
    using inv rs wf lt by (auto simp: batch_inv_def)
  ultimately show ?thesis
    using inv len len1 by (auto simp: batch_inv_def release_def)
qed

lemma batch_inv_run:
  "batch_run ws reqs b0 b n \<Longrightarrow> batch_inv wp reqs 0 b0 \<Longrightarrow> batch_inv wp reqs n b"
proof (induction rule: batch_run.induct)
  case (step b b' n b'')
  then have inv: "batch_inv wp reqs n b'" by simp
  from step.hyps(2) show ?case
    by (cases rule: batch_step.cases) (use inv in \<open>auto intro: batch_inv_submit batch_inv_finish\<close>)
qed

lemmas batch_inv_reach = batch_inv_run [OF _ batch_inv_start]

lemma map_filter_ids:
  "list_all2 well_formed ids rs \<Longrightarrow> map Rp_ID (List.map_filter (\<lambda>r. r) rs) = filter (\<lambda>i. i \<noteq> JNull) ids"
  by (induction rule: list_all2_induct) (auto simp: well_formed_def split: option.splits)

section \<open>Envelopes\<close>





section \<open>Runs of connections\<close>

lemma reach_process_all:
  "reach Es (sm s) \<Longrightarrow> \<forall>i. w_fs (ws i) \<in> Es \<Longrightarrow> reach Es (sm (snd (process_all ws i reqs s)))"
proof (induction reqs arbitrary: i s)
  case (Cons r reqs)
  then have "reach Es (sm (snd (processRequest (ws i) r s)))" by (intro reach_processRequest) auto
  with Cons show ?case by (simp add: split_def Let_def)
qed simp

lemma reach_handle_message:
  assumes "reach Es (sm s)" and "\<forall>i. w_fs (ws i) \<in> Es"
  shows "reach Es (sm (snd (handle_message ws j s)))"
proof -
  have b: "reach Es (sm (snd (handleBatch ws reqs s)))" for reqs
    using reach_process_all [OF assms, of 0 reqs] by (simp add: handleBatch_def split_def Let_def)
  have "reach Es (sm (snd (handleSingleAsync (ws 0) req s)))" for req
    using reach_processRequest [of Es s "ws 0" req] assms
    by (auto simp: handleSingleAsync_def split: prod.split option.split)
  with b assms(1) show ?thesis
    by (cases j) (auto simp: handle_message_def split: option.split)
qed

lemma reach_conn_loop:
  "reach Es (sm s) \<Longrightarrow> \<forall>e \<in> set es. \<forall>i. w_fs (snd e i) \<in> Es
   \<Longrightarrow> reach Es (sm (snd (conn_loop rl es s)))"
proof (induction rl es s rule: conn_loop.induct)
  case (4 rl j ws es s)
  obtain ok rl' where a: "Allow rl (of_int (w_now (ws 0)) / 1000000000) = (ok, rl')"
    by (cases "Allow rl (of_int (w_now (ws 0)) / 1000000000)")
  obtain out s1 where h: "handle_message ws j s = (out, s1)" by (cases "handle_message ws j s")
  have "reach Es (sm s1)" using reach_handle_message [of Es s ws j] 4 h by auto
  with 4 a h show ?case by (auto simp: split_def Let_def)
qed auto

section \<open>Properties\<close>

text \<open>
  C19. Every request is answered exactly as JSON-RPC asks: a request without an identifier gets no
  response, and every other one gets a response of version 2.0 with its identifier and exactly one of a
  result and an error.
\<close>

theorem processRequest_response:
  "case fst (processRequest w req s) of
     None \<Rightarrow> Rq_ID req = JNull
   | Some r \<Rightarrow> Rq_ID req \<noteq> JNull \<and> Rp_ID r = Rq_ID req \<and> Rp_JSONRPC r = ''2.0''
       \<and> ((Rp_Result r = None) \<noteq> (Rp_Error r = None))"
  using wf_processRequest [of req w s] by (simp add: well_formed_def)

text \<open>
  C18. Sessions stay confined through the daemon: whatever bytes a connection delivers, and however the file system changes from one
  request to the next, from a state whose sessions were reached by the daemon's own operations, every session afterwards has its
  working directory at its pinned base or inside the directory that base resolved to in one of the file systems those operations
  and requests saw, or is still at the root.
\<close>

theorem handleConn_confined:
  assumes "sm_reach SecurePath StatIsDir Es (sm s)"
    and "map_of (sessions (sm (snd (handleConn room now ws chunks s)))) sid = Some x"
  shows "S_BaseDir x = [SL] \<and> S_CWD x = [SL]
    \<or> S_BaseDir x \<noteq> [SL] \<and> (S_CWD x = S_BaseDir x
        \<or> (\<exists>E \<in> Es \<union> {w_fs (ws k i) |k i. True}. \<exists>rb. realBase E (S_BaseDir x) = Inr rb \<and> (unrestricted rb \<or> inside rb (S_CWD x))))"
proof -
  let ?Es = "Es \<union> {w_fs (ws k i) |k i. True}"
  have "reach ?Es (sm s)" using assms(1) by (rule sm_reach_mono) blast
  then have "reach ?Es (sm (snd (handleConn room now ws chunks s)))"
    unfolding handleConn_def by (rule reach_conn_loop) fastforce
  from store_all_get [OF sp.reach_confined [OF this] assms(2)] show ?thesis by (auto simp: sp.confined_def)
qed

text \<open>
  C20. Batches answer in order: however the workers of a batch interleave, when all are done the
  responses written are those of the requests that have an identifier, in the order of the requests.
\<close>

theorem batch_responses:
  assumes "batch_run ws reqs (batch_start wp reqs s) b n" and "sem_used wp \<le> sem_cap wp" and "batch_done reqs b"
  shows "map Rp_ID (batch_final b) = filter (\<lambda>i. i \<noteq> JNull) (map Rq_ID reqs) \<and> n = 2 * length reqs"
proof -
  have inv: "batch_inv wp reqs n b" using assms(1,2) by (rule batch_inv_reach)
  then have "list_all2 well_formed (map Rq_ID reqs) (b_results b)"
    using assms(3) by (auto simp: batch_inv_def batch_done_def list_all2_conv_all_nth)
  then show ?thesis using inv assms(3) map_filter_ids by (auto simp: batch_inv_def batch_done_def batch_final_def)
qed

text \<open>
  C21. Batches neither deadlock nor overload the pool: while a batch runs on a pool with a free slot, the
  pool is never over capacity, at most two steps per request are taken, and until every request is done
  some worker can start or finish.
\<close>

theorem batch_progress:
  assumes "batch_run ws reqs (batch_start wp reqs s) b n" and "sem_used wp < sem_cap wp"
  shows "sem_used (b_pool b) \<le> sem_cap (b_pool b) \<and> n \<le> 2 * length reqs
    \<and> (batch_done reqs b \<or> (\<exists>b'. batch_step ws reqs b b'))"
proof -
  have inv: "batch_inv wp reqs n b" using assms batch_inv_reach by fastforce
  have "\<exists>b'. batch_step ws reqs b b'" if nd: "\<not> batch_done reqs b"
  proof (cases "b_running b")
    case Nil
    with nd inv have "b_next b < length reqs" by (auto simp: batch_done_def batch_inv_def)
    moreover obtain p where "Submit (b_pool b) = Some p"
      using Nil inv assms(2) by (auto simp: Submit_def batch_inv_def)
    ultimately show ?thesis by (blast intro: batch_step.submit)
  next
    case (Cons i rest)
    obtain res s' where "processRequest (ws i) (reqs ! i) (b_server b) = (res, s')"
      by (cases "processRequest (ws i) (reqs ! i) (b_server b)")
    with Cons show ?thesis using batch_step.finish [of i b ws reqs res s'] by auto
  qed
  then show ?thesis using inv by (auto simp: batch_inv_def)
qed

text \<open>
  C24. The counters are exact: after a fresh daemon has processed a list of requests one after the other, the total is their
  number, no worker is left counted as active, and each method's count is the number of its requests.
\<close>

theorem counters_exact:
  assumes "int (length reqs) \<le> MaxInt64"
  shows "let s = snd (process_all ws i reqs (NewServer rl rq workers now)) in
    totalRequests s = int (length reqs) \<and> activeWorkers s = 0
    \<and> (\<forall>k. lookup0 (durationCounts (metrics s)) k = int (length (filter (\<lambda>r. Rq_Method r = k) reqs)))"
  using process_all_counters [of "NewServer rl rq workers now" reqs ws i] assms
  by (simp add: NewServer_def NewMetrics_def lookup0_def Let_def)

text \<open>
  C23. A path parameter is guarded by the session: for a command in a session whose working directory
  resolves to a directory other than the root, the path given to the command lies inside that directory,
  and the command runs in that working directory.
\<close>

theorem command_path_confined:
  assumes "Get_session (P_SessionId p) (w_now w) m = (Some x, m')" and "P_SessionId p \<noteq> []" and "P_Path p \<noteq> []"
    and "S_CWD x \<noteq> []" and "realBase (w_fs w) (S_CWD x) = Inr rb" and "\<not> unrestricted rb"
    and "build_args w c (Some p) m = (Inr (args, stdin, cwd, raw), m'')"
  shows "cwd = S_CWD x \<and> inside rb (last args)"
proof -
  obtain q where q: "SecurePath (w_fs w) (P_Path p) (S_CWD x) = Inr q"
    using assms by (auto simp: build_args_def Let_def split: sum.splits)
  then have "q \<noteq> []" by (rule SecurePath_not_Nil)
  moreover have "inside rb q" using SecurePath_guarded [OF q] assms(5,6) by auto
  ultimately show ?thesis using assms q by (auto simp: build_args_def Let_def)
qed

text \<open>
  A session identifier that is not known gives no protection: the path parameter is then checked
  against the root, so any absolute path reaches the command unchanged but for its normal form, and the
  command runs in the root directory.
\<close>

theorem unknown_session_unconfined:
  assumes "map_of (sessions m) (P_SessionId p) = None" and "IsAbs (P_Path p)"
    and "realBase (w_fs w) [SL] = Inr [SL]"
  shows "\<exists>args raw. build_args w c (Some p) m = (Inr (args @ [Clean (P_Path p)], P_Stdin p, [SL], raw), m)"
proof -
  have ne: "P_Path p \<noteq> []" using assms(2) by (auto simp: IsAbs_def)
  have "SecurePath (w_fs w) (P_Path p) [SL] = Inr (Clean (P_Path p))"
    using assms(2,3) by (simp add: SecurePath_cases unrestricted_def absTarget_def Abs_def IsAbs_def)
  then show ?thesis using assms(1) ne by (auto simp: build_args_def Let_def Get_session_def)
qed


section \<open>Witnesses\<close>

definition demo_si :: interpreter where
  "demo_si = \<lparr>si_parse = (\<lambda>_. None), si_new = (\<lambda>_ _. None),
     si_run = (\<lambda>_ _ _. \<lparr>ir_stdout = [], ir_stderr = [], ir_dir = [], ir_err = None\<rparr>)\<rparr>"

text \<open>A registry with one command, which renders the number 7.\<close>

definition demo_seven :: Command where
  "demo_seven = \<lparr>Name = ''seven'', Usage = ''prints seven'',
     Run = (\<lambda>args stdin cwd. (0, [Render ''seven'' (JInt 7) True []], []))\<rparr>"

definition demo_world :: World where
  "demo_world = \<lparr>w_now = 1000, w_micros = 5, w_rand = ''ABCDEFGH'', w_fs = demo_fs, w_getwd = ''/'',
     w_reg = [(''seven'', demo_seven)], w_sh = demo_si, w_time = Itoa\<rparr>"

definition demo_server :: Server where
  "demo_server = (NewServer None [] 4 0)\<lparr>sm := demo_pinned\<rparr>"

definition demo_req :: "string \<Rightarrow> json \<Rightarrow> Request" where
  "demo_req m i = \<lparr>Rq_JSONRPC = ''2.0'', Rq_Method = m, Rq_Params = None, Rq_ID = i\<rparr>"

lemma ascii_request: "ascii ''jsonrpc''" "ascii ''method''" "ascii ''params''" "ascii ''id''"
  by (simp_all add: ascii_def code_def)

definition demo_create_msg :: json where
  "demo_create_msg = JObj [(''jsonrpc'', JStr ''2.0''), (''method'', JStr ''goposix.session.create''), (''id'', JInt 1)]"

lemma demo_decode: "decode_Request demo_create_msg = Some (demo_req ''goposix.session.create'' (JInt 1))"
  by (simp add: decode_Request_def demo_create_msg_def demo_req_def key_matches_neq ascii_request fold_char_letters
      dec_any_def)

definition demo_chunks :: "string list" where
  "demo_chunks = [json_encode True demo_create_msg, [NL]]"

lemma demo_incoming:
  "incoming_all room [] (NewPerRequestLimitReader demo_chunks (requestLimit demo_server)) = [Message demo_create_msg, StreamEOF]"
proof -
  have a: "ascii ''2.0''" "ascii ''goposix.session.create''" by (simp_all add: ascii_def code_def)
  then have "json_ascii demo_create_msg" by (simp add: demo_create_msg_def ascii_request)
  moreover have "int (length (json_encode True demo_create_msg)) \<le> requestLimit demo_server"
  proof -
    have "Itoa 1 = ''1''" and "ParseInt [] = None" by code_simp+
    then show ?thesis
      using json_string_length [OF a(1), of True] json_string_length [OF a(2), of True] json_string_length [OF ascii_request(1), of True]
        json_string_length [OF ascii_request(2), of True] json_string_length [OF ascii_request(4), of True]
      by (simp add: demo_create_msg_def demo_server_def NewServer_def)
  qed
  ultimately show ?thesis
    using incoming_line [of _ demo_chunks True room "requestLimit demo_server"]
    unfolding demo_create_msg_def demo_chunks_def by (simp del: json_encode.simps json_ascii.simps)
qed

lemma demo_conn_sm:
  "sm (snd (handleConn (\<lambda>_. 0) 0 (\<lambda>_ _. demo_world) demo_chunks demo_server)) = snd (Create ''ABCDEFGH'' 1000 demo_pinned)"
proof -
  have "fst (Allow (connLimiter 100 0) (1 / 1000000))"
    by (simp add: Allow_def connLimiter_def NewRateLimiter_def Let_def)
  then obtain rl where a: "Allow (connLimiter 100 0) (1 / 1000000) = (True, rl)"
    by (cases "Allow (connLimiter 100 0) (1 / 1000000)") auto
  have h: "handle_message (\<lambda>_. demo_world) demo_create_msg demo_server
    = handleSingleAsync demo_world (demo_req ''goposix.session.create'' (JInt 1)) demo_server"
    using demo_decode by (simp add: handle_message_def demo_create_msg_def)
  have "sm (snd (handleSingleAsync demo_world (demo_req ''goposix.session.create'' (JInt 1)) demo_server)) = snd (Create ''ABCDEFGH'' 1000 demo_pinned)"
    by (simp add: handleSingleAsync_def processRequest_def route_def handle_create_def demo_req_def demo_world_def
        demo_server_def Let_def split_def split: option.split)
  moreover have "rateLimit demo_server = 100" by (simp add: demo_server_def NewServer_def)
  moreover have "w_now demo_world = 1000" by (simp add: demo_world_def)
  ultimately show ?thesis using a h by (simp add: handleConn_def demo_incoming split_def Let_def)
qed

theorem handleConn_confined_witness:
  "\<exists>x. map_of (sessions (sm (snd (handleConn (\<lambda>_. 0) 0 (\<lambda>_ _. demo_world) demo_chunks demo_server)))) demo_id = Some x
    \<and> (S_BaseDir x = [SL] \<and> S_CWD x = [SL]
       \<or> S_BaseDir x \<noteq> [SL] \<and> (S_CWD x = S_BaseDir x
        \<or> (\<exists>E \<in> {demo_fs} \<union> {w_fs ((\<lambda>_ _. demo_world) k i) |(k::nat) (i::nat). True}.
             \<exists>rb. realBase E (S_BaseDir x) = Inr rb \<and> (unrestricted rb \<or> inside rb (S_CWD x)))))"
proof -
  have r: "sm_reach SecurePath StatIsDir {demo_fs} (sm demo_server)" using demo_pinned_reach by (simp add: demo_server_def)
  have m: "map_of (sessions (sm (snd (handleConn (\<lambda>_. 0) 0 (\<lambda>_ _. demo_world) demo_chunks demo_server)))) demo_id
      = Some (fst (Create ''ABCDEFGH'' 1000 demo_pinned))"
    by (simp add: demo_conn_sm lookup_Create)
  show ?thesis using handleConn_confined [OF r m] m by blast
qed

lemma demo_batch_run:
  fixes reqs defines "reqs \<equiv> [demo_req ''goposix.ping'' (JInt 1)]"
  shows "\<exists>b. batch_run (\<lambda>_. demo_world) reqs (batch_start (NewWorkerPool 1) reqs demo_server) b 2 \<and> batch_done reqs b"
proof -
  let ?b0 = "batch_start (NewWorkerPool 1) reqs demo_server"
  let ?wp = "\<lparr>sem_cap = 1, sem_used = 1, nextWorkerID = wrap64 1\<rparr>"
  let ?b1 = "?b0\<lparr>b_next := 1, b_running := [0], b_pool := ?wp\<rparr>"
  have s1: "batch_step (\<lambda>_. demo_world) reqs ?b0 ?b1"
    using batch_step.submit [of ?b0 reqs ?wp "\<lambda>_. demo_world"]
    by (simp add: batch_start_def reqs_def Submit_def NewWorkerPool_def)
  obtain res s where p: "processRequest demo_world (reqs ! 0) (b_server ?b1) = (res, s)"
    by (cases "processRequest demo_world (reqs ! 0) (b_server ?b1)")
  obtain b2 where s2: "batch_step (\<lambda>_. demo_world) reqs ?b1 b2" and d: "b_next b2 = 1" "b_running b2 = []"
    using batch_step.finish [of 0 ?b1 "\<lambda>_. demo_world" reqs res s, OF _ p] by fastforce
  have "batch_run (\<lambda>_. demo_world) reqs ?b0 b2 (Suc (Suc 0))"
    by (rule batch_run.step [OF batch_run.step [OF batch_run.refl s1] s2])
  then show ?thesis using d by (intro exI [of _ b2]) (simp add: batch_done_def reqs_def numeral_2_eq_2)
qed

theorem batch_responses_witness:
  "\<exists>b. map Rp_ID (batch_final b) = [JInt 1]
     \<and> batch_run (\<lambda>_. demo_world) [demo_req ''goposix.ping'' (JInt 1)]
         (batch_start (NewWorkerPool 1) [demo_req ''goposix.ping'' (JInt 1)] demo_server) b 2"
proof -
  obtain b where b: "batch_run (\<lambda>_. demo_world) [demo_req ''goposix.ping'' (JInt 1)]
      (batch_start (NewWorkerPool 1) [demo_req ''goposix.ping'' (JInt 1)] demo_server) b 2"
    "batch_done [demo_req ''goposix.ping'' (JInt 1)] b"
    using demo_batch_run by blast
  have "map Rp_ID (batch_final b) = [JInt 1]"
    using batch_responses [OF b(1) _ b(2)] by (simp add: NewWorkerPool_def demo_req_def)
  with b(1) show ?thesis by (intro exI [of _ b] conjI)
qed

theorem batch_progress_witness:
  "\<exists>b'. batch_step (\<lambda>_. demo_world) [demo_req ''goposix.ping'' (JInt 1)]
     (batch_start (NewWorkerPool 1) [demo_req ''goposix.ping'' (JInt 1)] demo_server) b'"
  using batch_progress [where wp = "NewWorkerPool 1" and ws = "\<lambda>_. demo_world" and s = demo_server
      and reqs = "[demo_req ''goposix.ping'' (JInt 1)]", OF batch_run.refl]
  by (simp add: NewWorkerPool_def batch_done_def batch_start_def)

theorem counters_exact_witness:
  "totalRequests (snd (process_all (\<lambda>_. demo_world) 0 [demo_req ''goposix.ping'' (JInt 1), demo_req ''x'' JNull] (NewServer None [] 4 0))) = 2"
  using counters_exact [of "[demo_req ''goposix.ping'' (JInt 1), demo_req ''x'' JNull]" "\<lambda>_. demo_world" 0 None "[]" 4 0]
  by (simp add: Let_def MaxInt64_def)

definition demo_params :: "string \<Rightarrow> string \<Rightarrow> GoposixParams" where
  "demo_params sid path = \<lparr>P_Flags = [''-l''], P_Path = path, P_Text = [], P_Stdin = [], P_SessionId = sid, P_RawOutput = False\<rparr>"

lemma demo_id_not_Nil: "demo_id \<noteq> []"
  by (simp add: hexEncode_def hex_byte_def Let_def)

theorem command_path_confined_witness:
  "build_args demo_world ''cat'' (Some (demo_params demo_id ''a'')) demo_pinned
     = (Inr ([''--json'', ''-l'', ''/srv/a''], [], ''/srv'', False), snd (Get_session demo_id 1000 demo_pinned))
   \<and> inside ''/srv'' ''/srv/a''"
proof -
  obtain m' where g: "Get_session demo_id 1000 demo_pinned = (Some (demo_session\<lparr>S_LastActive := 1000\<rparr>), m')"
    by (simp add: Get_session_def demo_pinned_get Let_def)
  have "SecurePath demo_fs ''a'' ''/srv'' = Inr ''/srv/a''" by code_simp
  then have b: "build_args demo_world ''cat'' (Some (demo_params demo_id ''a'')) demo_pinned
     = (Inr ([''--json'', ''-l'', ''/srv/a''], [], ''/srv'', False), snd (Get_session demo_id 1000 demo_pinned))"
    using g by (simp add: build_args_def demo_params_def demo_world_def demo_session_def split_def Let_def demo_id_not_Nil)
  have u: "\<not> unrestricted ''/srv''" by (simp add: unrestricted_def)
  have "inside ''/srv'' (last [''--json'', ''-l'', ''/srv/a''])"
    by (rule conjunct2 [OF command_path_confined [OF _ _ _ _ _ u b, of "demo_session\<lparr>S_LastActive := 1000\<rparr>"]])
       (use g in \<open>simp_all add: demo_params_def demo_world_def demo_session_def demo_fs_base demo_id_not_Nil\<close>)
  with b show ?thesis by simp
qed

theorem unknown_session_unconfined_witness:
  "\<exists>args raw. build_args demo_world ''cat'' (Some (demo_params ''expired'' ''/etc/passwd'')) demo_pinned
     = (Inr (args @ [''/etc/passwd''], [], [SL], raw), demo_pinned)"
proof -
  have "map_of (sessions demo_pinned) ''expired'' = None" by code_simp
  moreover have "Clean ''/etc/passwd'' = ''/etc/passwd''" by code_simp
  ultimately show ?thesis
    using unknown_session_unconfined [of demo_pinned "demo_params ''expired'' ''/etc/passwd''" demo_world "''cat''"]
    by (simp add: demo_params_def demo_world_def demo_fs_base IsAbs_def)
qed



end
