(* ===== verification/Forward.thy ===== *)
theory Forward
  imports Server
begin

text \<open>
  The multicall entry point \<^verbatim>\<open>goposix.go\<close> and the client side of the daemon, \<^verbatim>\<open>forwarder.go\<close>.  The
  self-upgrade (\<^verbatim>\<open>upgrade.go\<close>) downloads a release: only whether it failed is an argument here.  What a
  process prints is split into what goes to the injected writer, to standard output and to standard error.
\<close>

section \<open>Multicall dispatch\<close>

definition WellKnownNames :: "string list" where
  "WellKnownNames = [''goposix'', ''busybox'']"

definition isWellKnown :: "string list \<Rightarrow> string \<Rightarrow> bool" where
  "isWellKnown names name \<longleftrightarrow> list_ex (\<lambda>n. name = n) names"

record outcome =
  o_code :: int
  o_out :: "string list"
  o_stdout :: string
  o_stderr :: "string list"

definition dispatch :: "registry \<Rightarrow> string \<Rightarrow> string \<Rightarrow> string \<Rightarrow> string \<Rightarrow> string list \<Rightarrow> outcome" where
  "dispatch reg stdin cwd binName cmdName args =
     (case Lookup reg cmdName of
        None \<Rightarrow> \<lparr>o_code = 127, o_out = [], o_stdout = [],
                 o_stderr = [binName @ '': unknown command: '' @ cmdName @ [NL]]\<rparr>
      | Some cmd \<Rightarrow>
          (case Run cmd args stdin cwd of
             (x, outs, errs) \<Rightarrow> \<lparr>o_code = x, o_out = outs, o_stdout = [], o_stderr = errs\<rparr>))"

text \<open>\<^const>\<open>None\<close> is the panic on an empty argument vector; \<open>upg\<close> is the error of \<^verbatim>\<open>Upgrade\<close>, if any.\<close>

definition RunWithWriter ::
  "string list \<Rightarrow> registry \<Rightarrow> string option \<Rightarrow> string \<Rightarrow> string \<Rightarrow> string list \<Rightarrow> outcome option" where
  "RunWithWriter names reg upg stdin cwd argv =
     (case argv of
        [] \<Rightarrow> None
      | a0 # rest \<Rightarrow>
          (let binName = Base a0;
               printed = (\<lambda>s. \<lparr>o_code = 0, o_out = [], o_stdout = s, o_stderr = []\<rparr>)
           in Some
             (if isWellKnown names binName then
                (case rest of
                   [] \<Rightarrow> printed (PrintHelp reg binName)
                 | a1 # args \<Rightarrow>
                     if a1 = ''--help'' \<or> a1 = ''-h'' then printed (PrintHelp reg binName)
                     else if a1 = ''--version'' then printed (binName @ '' version '' @ Version @ [NL])
                     else if a1 = ''--upgrade'' then
                       (case upg of
                          None \<Rightarrow> printed []
                        | Some e \<Rightarrow> \<lparr>o_code = 1, o_out = [], o_stdout = [],
                                     o_stderr = [binName @ '': upgrade: '' @ e @ [NL]]\<rparr>)
                     else if a1 = ''--list-commands'' then printed (ListCommands reg)
                     else dispatch reg stdin cwd binName (TrimSpace a1) args)
              else dispatch reg stdin cwd binName binName rest)))"

section \<open>Forwarding\<close>

text \<open>The request for an argument vector, with the name errors are reported under; \<^const>\<open>None\<close> falls back
  to a direct run.\<close>

definition request_json :: "string \<Rightarrow> string list \<Rightarrow> json" where
  "request_json cmdName args =
     JObj [(''id'', JInt 1), (''jsonrpc'', JStr ''2.0''), (''method'', JStr (''goposix.'' @ cmdName)),
           (''params'', JObj [(''flags'', JArr (map JStr args)), (''rawOutput'', JBool True)])]"

definition forward_request :: "string list \<Rightarrow> string list \<Rightarrow> (string \<times> json) option" where
  "forward_request names argv =
     (case argv of
        [] \<Rightarrow> None
      | a0 # rest \<Rightarrow>
          (let binName = Base a0
           in if isWellKnown names binName then
                (case rest of
                   [] \<Rightarrow> None
                 | a1 # args \<Rightarrow>
                     if a1 = ''--help'' \<or> a1 = ''-h'' \<or> a1 = ''--version'' \<or> a1 = ''--list-commands'' then None
                     else Some (binName, request_json (TrimSpace a1) args))
              else Some (binName, request_json binName rest)))"

record forward_response =
  fr_exitCode :: int
  fr_stdout :: string
  fr_error :: "string option"

text \<open>The response struct: an identifier that is an integer, a result with an exit code and a standard
  output, and an error with a message.\<close>

fun dec_result :: "int \<times> string \<Rightarrow> json \<Rightarrow> (int \<times> string) option" where
  "dec_result old JNull = Some old"
| "dec_result old (JObj kvs) =
     (case (decode_field dec_int ''exitCode'' (fst old) kvs, decode_field dec_string ''stdout'' (snd old) kvs) of
        (Some x, Some t) \<Rightarrow> Some (x, t)
      | _ \<Rightarrow> None)"
| "dec_result old _ = None"

fun dec_error :: "string option \<Rightarrow> json \<Rightarrow> string option option" where
  "dec_error old JNull = Some None"
| "dec_error old (JObj kvs) =
     (case (decode_field dec_int ''code'' 0 kvs,
            decode_field dec_string ''message'' (case old of None \<Rightarrow> [] | Some m \<Rightarrow> m) kvs) of
        (Some _, Some m) \<Rightarrow> Some (Some m)
      | _ \<Rightarrow> None)"
| "dec_error old _ = None"

definition decode_forward :: "json \<Rightarrow> forward_response option" where
  "decode_forward j =
     (case struct_members j of
        None \<Rightarrow> None
      | Some kvs \<Rightarrow>
          (case (decode_field dec_string ''jsonrpc'' [] kvs, decode_field dec_int ''id'' 0 kvs,
                 decode_field dec_result ''result'' (0, []) kvs, decode_field dec_error ''error'' None kvs) of
             (Some _, Some _, Some (x, t), Some e) \<Rightarrow> Some \<lparr>fr_exitCode = x, fr_stdout = t, fr_error = e\<rparr>
           | _ \<Rightarrow> None))"

text \<open>The first value on the connection, as the stream decoder delivers it.\<close>

definition json_first :: "string \<Rightarrow> json option" where
  "json_first s = map_option fst (jvalue (2 * length s + 2) s)"

text \<open>
  What the client does with the bytes that come back: exit code, standard output, standard error;
  \<open>perr\<close> is the text of a decoding error.
\<close>

definition forward_finish :: "string \<Rightarrow> string \<Rightarrow> string \<Rightarrow> int \<times> string \<times> string" where
  "forward_finish perr binName reply =
     (case Option.bind (json_first reply) decode_forward of
        None \<Rightarrow> (126, [], binName @ '': forward parse error: '' @ perr @ [NL])
      | Some r \<Rightarrow>
          (case fr_error r of
             Some m \<Rightarrow> (126, [], binName @ '': '' @ m @ [NL])
           | None \<Rightarrow> (fr_exitCode r, fr_stdout r, [])))"

text \<open>
  \<^verbatim>\<open>forwardToDaemon\<close>: \<open>serve\<close> is the connection, from the bytes sent to the bytes received, or \<^const>\<open>None\<close>
  when the daemon cannot be reached.  The result \<^const>\<open>None\<close> is the code -1, run the command directly.
\<close>

definition forwardToDaemon ::
  "string list \<Rightarrow> (string \<Rightarrow> string option) \<Rightarrow> string \<Rightarrow> string list \<Rightarrow> (int \<times> string \<times> string) option" where
  "forwardToDaemon names serve perr argv =
     (case forward_request names argv of
        None \<Rightarrow> None
      | Some (binName, req) \<Rightarrow>
          (case serve (json_encode True req @ [NL]) of
             None \<Rightarrow> None
           | Some reply \<Rightarrow> Some (forward_finish perr binName reply)))"

definition TryForward ::
  "string list \<Rightarrow> bool \<Rightarrow> bool \<Rightarrow> (string \<Rightarrow> string option) \<Rightarrow> string \<Rightarrow> string list \<Rightarrow> (int \<times> string \<times> string) option" where
  "TryForward names socketExists stdinPiped serve perr argv =
     (if \<not> socketExists then None
      else if stdinPiped then None
      else forwardToDaemon names serve perr argv)"

text \<open>
  The daemon at the other end of a connection: the pieces in which the bytes arrive, the room of its decoder, the time the connection is
  accepted and the worlds of its requests.
\<close>

record link =
  l_split :: "string \<Rightarrow> string list"
  l_room :: "string \<Rightarrow> nat"
  l_now :: int
  l_worlds :: "nat \<Rightarrow> nat \<Rightarrow> World"

definition daemon_serve :: "link \<Rightarrow> Server \<Rightarrow> string \<Rightarrow> string option" where
  "daemon_serve l s bytes = Some (concat (fst (handleConn (l_room l) (l_now l) (l_worlds l) (l_split l bytes) s)))"

text \<open>The connection delivers the bytes sent, and the clock does not run backwards before the first request.\<close>

definition link_ok :: "link \<Rightarrow> bool" where
  "link_ok l \<longleftrightarrow> (\<forall>b. concat (l_split l b) = b) \<and> l_now l \<le> w_now (l_worlds l 0 0)"

text \<open>Why a daemon refuses the first request of a connection, if it does.\<close>

definition refusal :: "Server \<Rightarrow> json \<Rightarrow> string option" where
  "refusal s req =
     (if int (length (json_encode True req)) > requestLimit s then Some ''Parse error or request too large''
      else if rateLimit s < 1 then Some ''Rate limit exceeded''
      else None)"

section \<open>The request arrives as it was sent\<close>

lemma ascii_fields: "ascii ''jsonrpc''" "ascii ''method''" "ascii ''params''" "ascii ''id''" "ascii ''flags''"
  "ascii ''path''" "ascii ''text''" "ascii ''stdin''" "ascii ''sessionId''" "ascii ''rawOutput''" "ascii ''result''"
  "ascii ''stdout''" "ascii ''stderr''" "ascii ''exitCode''" "ascii ''error''" "ascii ''code''" "ascii ''message''"
  "ascii ''goposix.''" "ascii ''2.0''"
  by (simp_all add: ascii_def code_def)

lemma stdout_stderr: "\<not> key_matches ''stdout'' ''stderr''"
proof -
  have "map fold_char ''stderr'' \<noteq> map fold_char ''stdout''"
    by (simp add: fold_char_def fold_rune_def code_def)
  then show ?thesis by (simp add: key_matches_def runes_ascii ascii_fields)
qed

lemmas field_rules = key_matches_neq ascii_fields fold_char_letters stdout_stderr

lemma ascii_append: "ascii (a @ b) \<longleftrightarrow> ascii a \<and> ascii b"
  by (simp add: ascii_def)

lemma ascii_method: "ascii name \<Longrightarrow> ascii (''goposix.'' @ name)"
  by (simp only: ascii_append ascii_fields simp_thms)



lemma request_ascii: "ascii name \<Longrightarrow> list_all ascii args \<Longrightarrow> json_ascii (request_json name args)"
  using ascii_method [of name] by (simp add: request_json_def ascii_fields list_all_iff)


lemma decode_request_json:
  "decode_Request (request_json name args) =
     Some \<lparr>Rq_JSONRPC = ''2.0'', Rq_Method = ''goposix.'' @ name,
           Rq_Params = Some (JObj [(''flags'', JArr (map JStr args)), (''rawOutput'', JBool True)]), Rq_ID = JInt 1\<rparr>"
  by (simp add: decode_Request_def request_json_def field_rules dec_raw_def dec_any_def)




lemma first_allowed: "now \<le> t \<Longrightarrow> fst (Allow (connLimiter r now) t) \<longleftrightarrow> 1 \<le> r"
proof -
  assume t: "now \<le> t"
  have "0 \<le> (t - now) * r" if "1 \<le> r" using t that by (intro mult_nonneg_nonneg) simp_all
  then show ?thesis
    by (cases "1 \<le> r") (auto simp: Allow_def connLimiter_def NewRateLimiter_def Let_def, linarith)
qed

lemma daemon_line:
  assumes "link_ok l" and "req = JObj kvs" and "json_ascii req"
  shows "daemon_serve l s (json_encode True req @ [NL]) =
    Some (case refusal s req of
            Some m \<Rightarrow> encode_line (Response_json (err_response JNull (if rateLimit s < 1 \<and> int (length (json_encode True req)) \<le> requestLimit s then - 32000 else - 32700) m JNull))
          | None \<Rightarrow> fst (handle_message (l_worlds l 0) req s))"
proof -
  have inc: "incoming_all (l_room l) [] (NewPerRequestLimitReader (l_split l (json_encode True req @ [NL])) (requestLimit s)) =
      (if int (length (json_encode True req)) \<le> requestLimit s then [Message req, StreamEOF] else [StreamError])"
    using incoming_line assms by (simp add: link_ok_def del: json_encode.simps)
  have "(of_int (l_now l) :: real) / 1000000000 \<le> of_int (w_now (l_worlds l 0 0)) / 1000000000"
    using assms(1) by (simp add: link_ok_def divide_right_mono)
  from first_allowed [OF this, of "rateLimit s"] obtain rl where
    "Allow (connLimiter (rateLimit s) (of_int (l_now l) / 1000000000)) (of_int (w_now (l_worlds l 0 0)) / 1000000000) = (1 \<le> rateLimit s, rl)"
    by (cases "Allow (connLimiter (rateLimit s) (of_int (l_now l) / 1000000000)) (of_int (w_now (l_worlds l 0 0)) / 1000000000)") simp
  then show ?thesis
    by (simp add: daemon_serve_def handleConn_def inc refusal_def split_def Let_def writeError_def preEncodedErrors_def del: json_encode.simps)
qed


lemma json_first_line: "json_ascii v \<Longrightarrow> json_first (encode_line v) = Some v"
proof -
  assume "json_ascii v"
  then have "jvalue (2 * length (json_encode True v @ [NL]) + 2) (json_encode True v @ [NL]) = Some (v, [NL])"
    by (intro readsD [OF reads_all]) simp_all
  then show ?thesis by (simp add: json_first_def encode_line_def)
qed


lemma forward_finish_err:
  assumes "i = JNull \<or> i = JInt 1" and "ascii m" and "MinInt64 \<le> c" and "c \<le> MaxInt64"
  shows "forward_finish perr bin (encode_line (Response_json (err_response i c m JNull))) = (126, [], bin @ '': '' @ m @ [NL])"
proof -
  let ?r = "Response_json (err_response i c m JNull)"
  have r: "?r = JObj ([(''jsonrpc'', JStr ''2.0''), (''error'', JObj [(''code'', JInt c), (''message'', JStr m)])]
      @ (if i = JNull then [] else [(''id'', i)]))"
    by (simp add: Response_json_def Error_json_def)
  have "json_ascii ?r" using assms(1,2) by (auto simp: r ascii_fields)
  then have f: "json_first (encode_line ?r) = Some ?r" by (rule json_first_line)
  have "decode_forward ?r = Some \<lparr>fr_exitCode = 0, fr_stdout = [], fr_error = Some m\<rparr>"
    using assms(1,3,4) by (auto simp: r decode_forward_def field_rules MinInt64_def MaxInt64_def)
  then show ?thesis by (simp add: forward_finish_def f)
qed

lemma refusal_ascii: "refusal s req = Some m \<Longrightarrow> ascii m"
  by (auto simp: refusal_def ascii_def code_def split: if_splits)

text \<open>A forwarded call is refused, or finished from the answer to its request.\<close>

lemma forward_call:
  assumes "link_ok l" and "forward_request names argv = Some (bin, request_json name args)"
    and "ascii name" and "list_all ascii args"
  shows "forwardToDaemon names (daemon_serve l s) perr argv =
    Some (case refusal s (request_json name args) of
            Some m \<Rightarrow> (126, [], bin @ '': '' @ m @ [NL])
          | None \<Rightarrow> forward_finish perr bin (fst (handle_message (l_worlds l 0) (request_json name args) s)))"
proof -
  have "\<exists>kvs. request_json name args = JObj kvs" by (simp add: request_json_def)
  then obtain kvs where "request_json name args = JObj kvs" by blast
  note d = daemon_line [OF assms(1) this request_ascii [OF assms(3,4)], of s]
  show ?thesis
    using refusal_ascii [of s "request_json name args"]
    by (auto simp: forwardToDaemon_def assms(2) d forward_finish_err MinInt64_def MaxInt64_def split: option.split simp del: json_encode.simps)
qed


section \<open>Properties\<close>


text \<open>
  An unknown command is reported in both modes: a direct run of a name that is not registered exits
  with 127 and writes only an error message, and a name given as a subcommand is looked up without the
  white space around it.
\<close>

theorem RunWithWriter_lookup:
  assumes "isWellKnown names (Base a0)" and "a1 \<notin> {''--help'', ''-h'', ''--version'', ''--upgrade'', ''--list-commands''}"
  shows "RunWithWriter names reg upg stdin cwd (a0 # a1 # args) =
    (case Lookup reg (TrimSpace a1) of
       None \<Rightarrow> Some \<lparr>o_code = 127, o_out = [], o_stdout = [],
                     o_stderr = [Base a0 @ '': unknown command: '' @ TrimSpace a1 @ [NL]]\<rparr>
     | Some cmd \<Rightarrow> (case Run cmd args stdin cwd of
                     (x, outs, errs) \<Rightarrow> Some \<lparr>o_code = x, o_out = outs, o_stdout = [], o_stderr = errs\<rparr>))"
  using assms by (simp add: RunWithWriter_def dispatch_def Let_def split: option.split prod.split)

text \<open>
  The upgrade option does not survive forwarding: with a daemon running, \<^verbatim>\<open>--upgrade\<close> is sent to it as
  a command name, which no registry has, so the call exits with 126 instead of upgrading.
\<close>

theorem forward_upgrade_fails:
  assumes "isWellKnown names (Base a0)" and "Lookup (w_reg (l_worlds l 0 0)) ''--upgrade'' = None" and "link_ok l"
  shows "\<exists>m. forwardToDaemon names (daemon_serve l s) perr [a0, ''--upgrade''] = Some (126, [], Base a0 @ '': '' @ m @ [NL])"
proof -
  let ?w = "l_worlds l 0 0"
  let ?req = "\<lparr>Rq_JSONRPC = ''2.0'', Rq_Method = ''goposix.--upgrade'',
    Rq_Params = Some (JObj [(''flags'', JArr (map JStr [])), (''rawOutput'', JBool True)]), Rq_ID = JInt 1\<rparr>"
  let ?r = "Response_json (err_response (JInt 1) (- 32601) ''Method not found'' JNull)"
  have "TrimSpace ''--upgrade'' = ''--upgrade''" by code_simp
  then have rq: "forward_request names [a0, ''--upgrade''] = Some (Base a0, request_json ''--upgrade'' [])"
    using assms(1) by (simp add: forward_request_def Let_def)
  have a: "ascii ''--upgrade''" "ascii ''Method not found''" by (simp_all add: ascii_def code_def)
  have "fst (route ?w ?req params s') = Some (err_response (JInt 1) (- 32601) ''Method not found'' JNull)" for params s'
    using assms(2) by (simp add: route_def handle_command_def TrimPrefix_def)
  then have "fst (processRequest ?w ?req s) = Some (err_response (JInt 1) (- 32601) ''Method not found'' JNull)"
    by (simp add: processRequest_def Let_def split_def)
  then have "fst (handleSingleAsync ?w ?req s) = encode_line ?r"
    by (cases "processRequest ?w ?req s") (simp add: handleSingleAsync_def)
  then have "fst (handle_message (l_worlds l 0) (request_json ''--upgrade'' []) s) = encode_line ?r"
    using decode_request_json [of "''--upgrade''" "[]"] by (simp add: handle_message_def request_json_def)
  moreover have "forward_finish perr (Base a0) (encode_line ?r) = (126, [], Base a0 @ '': Method not found'' @ [NL])"
    using a by (simp add: forward_finish_err MinInt64_def MaxInt64_def)
  ultimately show ?thesis using forward_call [OF assms(3) rq a(1)] by (auto split: option.split)
qed

section \<open>Witnesses\<close>

definition demo_hello :: Command where
  "demo_hello = \<lparr>Name = ''hello'', Usage = ''prints a greeting'',
     Run = (\<lambda>args stdin cwd. (3, [''hello '', concat args], [''warning'']))\<rparr>"

definition fw_world :: World where
  "fw_world = demo_world\<lparr>w_reg := [(''hello'', demo_hello)]\<rparr>"

text \<open>A connection whose bytes arrive one by one.\<close>

definition demo_link :: "World \<Rightarrow> link" where
  "demo_link w = \<lparr>l_split = map (\<lambda>c. [c]), l_room = (\<lambda>_. 0), l_now = 0, l_worlds = (\<lambda>_ _. w)\<rparr>"


lemma Base_demo: "Base ''/bin/hello'' = ''hello''" "Base ''goposix'' = ''goposix''"
  by code_simp+





theorem RunWithWriter_lookup_witness:
  "RunWithWriter WellKnownNames [(''hello'', demo_hello)] None [] ''/'' [''goposix'', '' hello '', ''you''] =
     Some \<lparr>o_code = 3, o_out = [''hello '', ''you''], o_stdout = [], o_stderr = [''warning'']\<rparr>"
proof -
  have t: "TrimSpace '' hello '' = ''hello''" by code_simp
  show ?thesis
    using RunWithWriter_lookup [of WellKnownNames "''goposix''" "'' hello ''" "[(''hello'', demo_hello)]" None "[]" "''/''" "[''you'']"]
    by (simp add: isWellKnown_def WellKnownNames_def Base_demo t Lookup_def demo_hello_def)
qed

theorem forward_upgrade_fails_witness:
  "\<exists>m. forwardToDaemon WellKnownNames (daemon_serve (demo_link fw_world) demo_server) [] [''goposix'', ''--upgrade''] =
     Some (126, [], ''goposix: '' @ m @ [NL])"
  using forward_upgrade_fails [of WellKnownNames "''goposix''" "demo_link fw_world" demo_server "[]"]
  by (simp add: isWellKnown_def WellKnownNames_def Base_demo demo_link_def link_ok_def fw_world_def demo_world_def Lookup_def)

end
