(* ===== verification/Cli.thy ===== *)
theory Cli
  imports Output
begin

text \<open>
  What the command line utilities share: opening operands, the line scanner with its token limit, and
  the parts of \<^verbatim>\<open>strings\<close>, \<^verbatim>\<open>fmt\<close> and \<^verbatim>\<open>bufio\<close> they use.  A utility is a function of its arguments, the
  file system and standard input to its exit code and what it writes on standard output and error.  The
  file system is a function from a path to the content of the file, or the text of the error.
\<close>

type_synonym files = "string \<Rightarrow> string + string"
type_synonym result = "int \<times> string \<times> string"

definition flag_failure :: "string \<Rightarrow> string list \<Rightarrow> FlagError \<Rightarrow> int \<Rightarrow> result" where
  "flag_failure name args e c = (let (x, err) = RenderFlagError name args e c in (x, [], err))"

text \<open>A slice built by appending is nil, and encoded as null, when nothing was appended.\<close>

definition nil_strings :: "string list \<Rightarrow> json" where
  "nil_strings xs = (if xs = [] then JNull else JArr (map JStr xs))"

definition println_all :: "string list \<Rightarrow> string" where
  "println_all xs = concat (map (\<lambda>x. x @ [NL]) xs)"

text \<open>Reading the operands one after the other: standard input is used up by its first reader.
  \<open>Inl\<close> is the first path that does not open, with the error.\<close>

fun open_all :: "files \<Rightarrow> string \<Rightarrow> string list \<Rightarrow> (string \<times> string) + string list" where
  "open_all fs stdin [] = Inr []"
| "open_all fs stdin (p # ps) =
     (if p = ''-'' then
        (case open_all fs [] ps of Inl e \<Rightarrow> Inl e | Inr cs \<Rightarrow> Inr (stdin # cs))
      else
        (case fs p of
           Inl e \<Rightarrow> Inl (p, e)
         | Inr c \<Rightarrow> (case open_all fs stdin ps of Inl e \<Rightarrow> Inl e | Inr cs \<Rightarrow> Inr (c # cs))))"

definition operands :: "files \<Rightarrow> string \<Rightarrow> string list \<Rightarrow> (string \<times> string) + string list" where
  "operands fs stdin ps = (if ps = [] then Inr [stdin] else open_all fs stdin ps)"

section \<open>bufio.Scanner with its token limit\<close>

text \<open>The lines before the first one of 65536 bytes or more, and whether there was no such line.\<close>

definition token_limit :: nat where "token_limit = 65536"

definition Scanner :: "string \<Rightarrow> string list \<times> bool" where
  "Scanner s =
     (let ls = text_lines s; good = takeWhile (\<lambda>l. length l < token_limit) ls
      in (map drop_cr good, length good = length ls))"

definition scan_error :: string where "scan_error = ''bufio.Scanner: token too long''"

text \<open>The same with \<^verbatim>\<open>bufio.ScanWords\<close>: the words before the first that is too long.\<close>

definition ScanWords :: "string \<Rightarrow> string list" where
  "ScanWords s = takeWhile (\<lambda>w. length w < token_limit) (Fields s)"

section \<open>strings, fmt\<close>

definition ascii_lower :: "nat \<Rightarrow> nat" where
  "ascii_lower r = (if 65 \<le> r \<and> r \<le> 90 then r + 32 else r)"

text \<open>\<^verbatim>\<open>strings.ToLower\<close>; \<open>uni\<close> is the Unicode table for the runes that are not ASCII.\<close>

definition ToLower :: "(nat \<Rightarrow> nat) \<Rightarrow> string \<Rightarrow> string" where
  "ToLower uni s = of_runes (map (\<lambda>r. if r < 128 then ascii_lower r else uni r) (runes s))"

definition is_blank :: "char \<Rightarrow> bool" where
  "is_blank c \<longleftrightarrow> c = CHR '' '' \<or> c = TAB"

text \<open>\<^verbatim>\<open>fmt.Sscanf(s, "%d", &n)\<close>: leading space other than a newline, an optional sign, digits, and anything
  after them; \<^const>\<open>None\<close> leaves the variable unchanged.\<close>

definition Sscanf_d :: "string \<Rightarrow> int option" where
  "Sscanf_d s =
     (let t = concat (map snd (dropWhile (\<lambda>(r, p). isSpaceRune r \<and> r \<noteq> 10) (rune_pieces s)));
          sign = (if t \<noteq> [] \<and> (hd t = CHR ''-'' \<or> hd t = CHR ''+'') then [hd t] else []);
          ds = takeWhile isDecDigit (drop (length sign) t)
      in if ds = [] then None else ParseInt (sign @ ds))"

definition scan_flag :: "string \<Rightarrow> int" where
  "scan_flag val = (case (if val = [] then None else Sscanf_d val) of None \<Rightarrow> 0 | Some n \<Rightarrow> n)"

text \<open>\<^verbatim>\<open>strconv.ParseUint(s, 10, 64)\<close>: digits only, a value that fits.\<close>

definition ParseUint64 :: "string \<Rightarrow> nat option" where
  "ParseUint64 s = (case parse_digits s of None \<Rightarrow> None | Some n \<Rightarrow> if n < 2 ^ 64 then Some n else None)"

text \<open>The value \<^verbatim>\<open>strconv.Atoi\<close> returns beside an error that is ignored: zero for text that is not a number, the nearest
  bound for a number out of range.\<close>

definition Atoi_value :: "string \<Rightarrow> int" where
  "Atoi_value s =
     (case ParseInt s of
        Some v \<Rightarrow> v
      | None \<Rightarrow>
          (case parse_digits (if s \<noteq> [] \<and> (hd s = CHR ''-'' \<or> hd s = CHR ''+'') then tl s else s) of
             None \<Rightarrow> 0
           | Some _ \<Rightarrow> if hd s = CHR ''-'' then MinInt64 else MaxInt64))"

text \<open>\<^verbatim>\<open>%7d\<close> and its like: padded on the left with spaces.\<close>

definition pad_left :: "nat \<Rightarrow> string \<Rightarrow> string" where
  "pad_left n s = replicate (n - length s) CHR '' '' @ s"

text \<open>\<^verbatim>\<open>strings.SplitN(s, sep, 2)\<close> when the separator occurs, and \<^verbatim>\<open>strings.Compare\<close>.\<close>

definition SplitN2 :: "string \<Rightarrow> string \<Rightarrow> string \<times> string" where
  "SplitN2 s sep = (case Index s sep of None \<Rightarrow> (s, []) | Some i \<Rightarrow> (take i s, drop (i + length sep) s))"

fun str_less :: "string \<Rightarrow> string \<Rightarrow> bool" where
  "str_less xs [] = False"
| "str_less [] (y # ys) = True"
| "str_less (x # xs) (y # ys) = (code x < code y \<or> x = y \<and> str_less xs ys)"

section \<open>Facts\<close>

lemma open_all_length: "open_all fs stdin ps = Inr cs \<Longrightarrow> length cs = length ps"
  by (induction fs stdin ps arbitrary: cs rule: open_all.induct) (auto split: if_splits sum.splits)

lemma Scanner_short: "\<forall>l \<in> set (text_lines s). length l < token_limit \<Longrightarrow> Scanner s = (scan_lines s, True)"
  by (simp add: Scanner_def scan_lines_def Let_def takeWhile_eq_all_conv [THEN iffD2])

lemma runes_code: "ascii s \<Longrightarrow> runes s = map code s"
  by (simp add: runes_def range_runes_ascii)

lemma of_runes_ascii: "\<forall>r \<in> set rs. r < 128 \<Longrightarrow> of_runes rs = map char_of rs"
proof (induction rs)
  case (Cons r rs)
  then have "encodeRune r = [char_of r]" by (simp add: encodeRune_def valid_rune_def)
  then show ?case using Cons by (simp add: of_runes_def)
qed (simp add: of_runes_def)

lemma of_runes_runes: "ascii s \<Longrightarrow> of_runes (runes s) = s"
  by (simp add: runes_code of_runes_ascii ascii_def list_all_iff comp_def)

lemma runes_of_runes:
  assumes "\<forall>r \<in> set rs. r < 128"
  shows "runes (of_runes rs) = rs"
proof -
  have c: "code (char_of r) = r" if "r \<in> set rs" for r using assms that by (intro code_char_of) fastforce
  then have "map code (map char_of rs) = rs" unfolding map_map by (intro map_idI) simp
  moreover have "ascii (map char_of rs)" using assms c by (auto simp: ascii_def list_all_iff)
  ultimately show ?thesis using assms runes_code [of "map char_of rs"] by (simp add: of_runes_ascii del: map_map)
qed

lemma str_less_linear: "str_less a b \<or> a = b \<or> str_less b a"
proof (induction a b rule: str_less.induct)
  case (3 x xs y ys)
  then show ?case using code_inject [of x y] by (auto simp del: code_inject)
qed (auto elim: str_less.elims)

lemma str_less_irrefl [simp]: "\<not> str_less a a"
  by (induction a) auto

lemma str_less_trans: "str_less a b \<Longrightarrow> str_less b c \<Longrightarrow> str_less a c"
proof (induction a b arbitrary: c rule: str_less.induct)
  case (3 x xs y ys)
  then show ?case by (cases c) auto
next
  case (2 y ys)
  then show ?case by (cases c) auto
qed simp

lemma str_less_asym: "str_less a b \<Longrightarrow> \<not> str_less b a"
  using str_less_trans str_less_irrefl by blast

text \<open>Printed lines are read back, and printed words are split again.\<close>

lemma split_char_println: "\<forall>l \<in> set ls. NL \<notin> set l \<Longrightarrow> split_char NL (println_all ls @ s) = ls @ split_char NL s"
  by (induction ls) (simp_all add: println_all_def split_char_append_sep)

lemma text_lines_println: "\<forall>l \<in> set ls. NL \<notin> set l \<Longrightarrow> text_lines (println_all ls) = ls"
  using split_char_println [of ls "[]"] by (simp add: text_lines_split)

definition plain_line :: "string \<Rightarrow> bool" where
  "plain_line l \<longleftrightarrow> NL \<notin> set l \<and> CHR 0x0D \<notin> set l \<and> length l < token_limit"

lemma Scanner_println: "\<forall>l \<in> set ls. plain_line l \<Longrightarrow> Scanner (println_all ls) = (ls, True)"
proof -
  assume p: "\<forall>l \<in> set ls. plain_line l"
  then have t: "text_lines (println_all ls) = ls" by (intro text_lines_println) (simp add: plain_line_def)
  have "map drop_cr ls = ls" using p by (intro map_idI) (auto simp: plain_line_def drop_cr_def dest: last_in_set)
  then show ?thesis using p t Scanner_short [of "println_all ls"] by (simp add: scan_lines_def plain_line_def)
qed

lemma ascii_pieces: "ascii s \<Longrightarrow> rune_pieces s = map (\<lambda>c. (code c, [c])) s"
proof (induction s)
  case (Cons c s)
  then show ?case by (simp add: rune_pieces.simps [of "c # s"] decode_multi_def ascii_def)
qed (simp add: rune_pieces.simps)

definition plain_word :: "string \<Rightarrow> bool" where
  "plain_word w \<longleftrightarrow> w \<noteq> [] \<and> list_all (\<lambda>c. 33 \<le> code c \<and> code c < 127) w"

lemma plain_word_ascii: "plain_word w \<Longrightarrow> ascii w"
  by (auto simp: plain_word_def ascii_def list_all_iff)

lemma isSpaceRune_ascii: "33 \<le> r \<Longrightarrow> r < 127 \<Longrightarrow> \<not> isSpaceRune r"
  by (simp add: isSpaceRune_def)

lemma fields_aux_word:
  "list_all (\<lambda>c. 33 \<le> code c \<and> code c < 127) w \<Longrightarrow>
   fields_aux cur (map (\<lambda>c. (code c, [c])) w @ ps) = fields_aux (cur @ w) ps"
  by (induction w arbitrary: cur) (simp_all add: isSpaceRune_ascii)

lemma Fields_words:
  assumes "\<forall>w \<in> set ws. plain_word w"
  shows "Fields (Join ws '' '') = ws"
proof -
  have "ascii (Join ws '' '')" using assms
  proof (induction ws)
    case (Cons w ws)
    then show ?case by (cases ws) (auto simp: ascii_def plain_word_def list_all_iff code_def)
  qed (simp add: ascii_def)
  moreover have "fields_aux [] (map (\<lambda>c. (code c, [c])) (Join ws '' '')) = ws" using assms
  proof (induction ws)
    case (Cons w ws)
    have w: "w \<noteq> []" "list_all (\<lambda>c. 33 \<le> code c \<and> code c < 127) w" using Cons.prems by (auto simp: plain_word_def)
    have sp: "isSpaceRune (code (CHR '' ''))" by (simp add: isSpaceRune_def code_def)
    show ?case
    proof (cases "ws = []")
      case True
      then show ?thesis using w fields_aux_word [of w "[]" "[]"] by simp
    next
      case False
      then show ?thesis using w Cons sp by (simp add: Join_Cons fields_aux_word)
    qed
  qed simp
  ultimately show ?thesis by (simp add: Fields_def ascii_pieces)
qed

lemma TrimSpace_id:
  assumes "ascii s" and "s \<noteq> [] \<longrightarrow> \<not> isSpaceRune (code (hd s)) \<and> \<not> isSpaceRune (code (last s))"
  shows "TrimSpace s = s"
proof (cases "s = []")
  case False
  let ?p = "map (\<lambda>c. (code c, [c])) s"
  have "dropWhile (\<lambda>rp. isSpaceRune (fst rp)) ?p = ?p" using assms(2) False by (cases s) simp_all
  moreover have "dropWhile (\<lambda>rp. isSpaceRune (fst rp)) (rev ?p) = rev ?p" using assms(2) False by (cases s rule: rev_cases) simp_all
  ultimately show ?thesis using assms(1) by (simp add: TrimSpace_def Let_def ascii_pieces comp_def)
qed (simp add: TrimSpace_def rune_pieces.simps)

lemma str_le_trans: "\<not> str_less b a \<Longrightarrow> \<not> str_less c b \<Longrightarrow> \<not> str_less c a"
  using str_less_linear str_less_trans by metis

definition str_sorted :: "string list \<Rightarrow> bool" where
  "str_sorted xs = sorted_wrt (\<lambda>a b. \<not> str_less b a) xs"

end
