(* ===== verification/Tsort.thy ===== *)
theory Tsort
  imports Cli
begin

text \<open>
  The utility \<^verbatim>\<open>tsort\<close>: \<^verbatim>\<open>pkg/tsort/tsort.go\<close>.  The Go maps of the graph are functions with the zero value
  for absent keys; the queue loop has fuel, one unit per node, which is shown to be enough.
\<close>

section \<open>The program\<close>

definition tsort_spec :: FlagSpec where
  "tsort_spec = mkSpec [mkFlag [] ''json'' FlagBool]"

record graph =
  g_nodes :: "string list"
  g_keys :: "string list"
  g_adj :: "string \<Rightarrow> string list"
  g_deg :: "string \<Rightarrow> int"

definition addNode :: "string \<Rightarrow> graph \<Rightarrow> graph" where
  "addNode n g = (if n \<in> set (g_nodes g) then g else g\<lparr>g_nodes := g_nodes g @ [n]\<rparr>)"

definition edgeKey :: "string \<Rightarrow> string \<Rightarrow> string" where
  "edgeKey u v = u @ ''->'' @ v"

definition addEdge :: "string \<Rightarrow> string \<Rightarrow> graph \<Rightarrow> graph" where
  "addEdge u v g =
     (let g1 = addNode v (addNode u g)
      in if u = v then g1
         else if edgeKey u v \<in> set (g_keys g1) then g1
         else g1\<lparr>g_keys := edgeKey u v # g_keys g1, g_adj := (g_adj g1)(u := g_adj g1 u @ [v]),
                 g_deg := (g_deg g1)(v := g_deg g1 v + 1)\<rparr>)"

fun build :: "string list \<Rightarrow> graph \<Rightarrow> graph" where
  "build (u # v # ws) g = build ws (addEdge u v g)"
| "build _ g = g"

definition empty_graph :: graph where
  "empty_graph = \<lparr>g_nodes = [], g_keys = [], g_adj = (\<lambda>_. []), g_deg = (\<lambda>_. 0)\<rparr>"

text \<open>The loop over the successors of a node: degrees go down, and a node that reaches zero is queued.\<close>

fun relax :: "string list \<Rightarrow> (string \<Rightarrow> int) \<Rightarrow> string list \<Rightarrow> (string \<Rightarrow> int) \<times> string list" where
  "relax [] deg queue = (deg, queue)"
| "relax (v # vs) deg queue =
     (let d = deg v - 1 in relax vs (deg(v := d)) (if d = 0 then queue @ [v] else queue))"

fun kahn :: "nat \<Rightarrow> (string \<Rightarrow> string list) \<Rightarrow> (string \<Rightarrow> int) \<Rightarrow> string list \<Rightarrow> string list \<Rightarrow> string list option" where
  "kahn fuel adj deg [] acc = Some acc"
| "kahn 0 adj deg (u # queue) acc = None"
| "kahn (Suc fuel) adj deg (u # queue) acc =
     (let (deg', queue') = relax (adj u) deg queue in kahn fuel adj deg' queue' (acc @ [u]))"

definition tsort_order :: "graph \<Rightarrow> string list option" where
  "tsort_order g =
     kahn (length (g_nodes g)) (g_adj g) (g_deg g) (filter (\<lambda>n. g_deg g n = 0) (g_nodes g)) []"

definition tsort_json :: "string list \<Rightarrow> json" where
  "tsort_json nodes = JObj [(''nodes'', nil_strings nodes)]"

text \<open>The exit code, standard output and standard error on a list of words; \<^const>\<open>None\<close> would be a loop that
  does not end.\<close>

definition tsort_words :: "bool \<Rightarrow> string list \<Rightarrow> result option" where
  "tsort_words jsonMode words =
     (if length words mod 2 \<noteq> 0 then Some (1, [], ''tsort: odd number of words in input'' @ [NL])
      else
        (let g = build words empty_graph
         in map_option (\<lambda>order.
              (if length order < length (g_nodes g) then 1 else 0,
               Render ''tsort'' (tsort_json order) jsonMode (println_all order),
               if length order < length (g_nodes g) then ''tsort: cycle detected'' @ [NL] else []))
            (tsort_order g)))"

definition tsort_run :: "files \<Rightarrow> string \<Rightarrow> string list \<Rightarrow> result option" where
  "tsort_run fs stdin args =
     (case ParseFlags args tsort_spec of
        Inl e \<Rightarrow> Some (flag_failure ''tsort'' args e 1)
      | Inr flags \<Rightarrow>
          (case Positional flags of
             p # q # ps \<Rightarrow> Some (1, [], ''tsort: extra operand'' @ [NL])
           | [p] \<Rightarrow>
               (if p \<noteq> ''-'' then
                  (case fs p of
                     Inl e \<Rightarrow> Some (1, [], ''tsort: '' @ e @ [NL])
                   | Inr data \<Rightarrow> tsort_words (Has flags ''json'') (Fields data))
                else tsort_words (Has flags ''json'') (Fields stdin))
           | [] \<Rightarrow> tsort_words (Has flags ''json'') (Fields stdin)))"

section \<open>Specification\<close>

text \<open>The edges a list of words names, and an order that puts the source of each edge first.\<close>

fun edges :: "string list \<Rightarrow> (string \<times> string) set" where
  "edges (u # v # ws) = (if u = v then {} else {(u, v)}) \<union> edges ws"
| "edges _ = {}"

fun topological :: "('a \<times> 'a) set \<Rightarrow> 'a set \<Rightarrow> 'a list \<Rightarrow> bool" where
  "topological E seen [] = True"
| "topological E seen (v # vs) = ((\<forall>u. (u, v) \<in> E \<longrightarrow> u \<in> seen) \<and> topological E (insert v seen) vs)"

section \<open>Building the graph\<close>

text \<open>The graph holds exactly the edge set \<open>E\<close>: successors without repetition, degrees counted, and keys that
  tell the edges apart.\<close>

definition graph_inv :: "(string \<times> string) set \<Rightarrow> graph \<Rightarrow> bool" where
  "graph_inv E g \<longleftrightarrow>
     finite E \<and> distinct (g_nodes g) \<and> (\<forall>(u, v) \<in> E. u \<in> set (g_nodes g) \<and> v \<in> set (g_nodes g))
     \<and> (\<forall>u. set (g_adj g u) = {v. (u, v) \<in> E} \<and> distinct (g_adj g u))
     \<and> (\<forall>v. g_deg g v = int (card {u. (u, v) \<in> E}))
     \<and> set (g_keys g) = (\<lambda>(u, v). edgeKey u v) ` E"

definition plain :: "string \<Rightarrow> bool" where
  "plain w \<longleftrightarrow> CHR ''>'' \<notin> set w"

lemma edgeKey_inject:
  assumes "plain u" and "plain v" and "plain u'" and "plain v'" and "edgeKey u v = edgeKey u' v'"
  shows "u = u' \<and> v = v'"
proof -
  let ?p = "\<lambda>c. c \<noteq> CHR ''>''"
  have t: "takeWhile ?p (edgeKey a b) = a @ ''-''" "dropWhile ?p (edgeKey a b) = ''>'' @ b" if "plain a" for a b
  proof -
    have "\<forall>c \<in> set a. ?p c" using that by (auto simp: plain_def)
    then show "takeWhile ?p (edgeKey a b) = a @ ''-''" "dropWhile ?p (edgeKey a b) = ''>'' @ b"
      by (simp_all add: edgeKey_def takeWhile_append dropWhile_append)
  qed
  have "u @ ''-'' = u' @ ''-''" "''>'' @ v = ''>'' @ v'" using t [OF assms(1), of v] t [OF assms(3), of v'] assms(5) by metis+
  then show ?thesis by simp
qed

lemma addNode_simps [simp]:
  "set (g_nodes (addNode n g)) = insert n (set (g_nodes g))" "g_keys (addNode n g) = g_keys g"
  "g_adj (addNode n g) = g_adj g" "g_deg (addNode n g) = g_deg g"
  "distinct (g_nodes g) \<Longrightarrow> distinct (g_nodes (addNode n g))"
  by (auto simp: addNode_def)

lemma graph_inv_addNode: "graph_inv E g \<Longrightarrow> graph_inv E (addNode n g)"
  by (auto simp: graph_inv_def)

lemma in_degree_insert:
  assumes "finite E" and "(u, v) \<notin> E"
  shows "card {x. (x, w) \<in> insert (u, v) E} = card {x. (x, w) \<in> E} + (if w = v then 1 else 0)"
proof (cases "w = v")
  case True
  have "{x. (x, v) \<in> E} \<subseteq> fst ` E" by force
  then have "finite {x. (x, v) \<in> E}" using assms(1) by (auto intro: finite_subset)
  moreover have "{x. (x, v) \<in> insert (u, v) E} = insert u {x. (x, v) \<in> E}" by auto
  ultimately show ?thesis using True assms(2) by simp
qed simp

lemma graph_inv_new:
  assumes g: "graph_inv E g" and ne: "(u, v) \<notin> E" and n: "u \<in> set (g_nodes g)" "v \<in> set (g_nodes g)"
  shows "graph_inv (insert (u, v) E)
    (g\<lparr>g_keys := edgeKey u v # g_keys g, g_adj := (g_adj g)(u := g_adj g u @ [v]), g_deg := (g_deg g)(v := g_deg g v + 1)\<rparr>)"
proof -
  have fin: "finite E" and a: "\<And>x. set (g_adj g x) = {y. (x, y) \<in> E}" "\<And>x. distinct (g_adj g x)"
    and d: "\<And>x. g_deg g x = int (card {y. (y, x) \<in> E})"
    using g unfolding graph_inv_def by blast+
  have "set (((g_adj g)(u := g_adj g u @ [v])) x) = {y. (x, y) \<in> insert (u, v) E}" for x
    using a(1) by (cases "x = u") auto
  moreover have "distinct (((g_adj g)(u := g_adj g u @ [v])) x)" for x using a ne by (cases "x = u") auto
  moreover have "((g_deg g)(v := g_deg g v + 1)) x = int (card {y. (y, x) \<in> insert (u, v) E})" for x
    using in_degree_insert [OF fin ne, of x] d by simp
  ultimately show ?thesis using g n fin unfolding graph_inv_def by simp
qed

lemma graph_inv_addEdge:
  assumes g: "graph_inv E g" and p: "plain u" "plain v" "\<forall>(a, b) \<in> E. plain a \<and> plain b"
  shows "graph_inv (E \<union> (if u = v then {} else {(u, v)})) (addEdge u v g)"
proof -
  let ?g = "addNode v (addNode u g)"
  have g1: "graph_inv E ?g" by (intro graph_inv_addNode g)
  have k: "edgeKey u v \<in> set (g_keys ?g) \<longleftrightarrow> (u, v) \<in> E"
  proof
    assume "edgeKey u v \<in> set (g_keys ?g)"
    then obtain a b where ab: "(a, b) \<in> E" "edgeKey u v = edgeKey a b" using g1 unfolding graph_inv_def by auto
    then have "plain a" "plain b" using p(3) by auto
    then show "(u, v) \<in> E" using edgeKey_inject [OF p(1,2) _ _ ab(2)] ab(1) by simp
  next
    assume "(u, v) \<in> E"
    then show "edgeKey u v \<in> set (g_keys ?g)" using g1 unfolding graph_inv_def by force
  qed
  show ?thesis
  proof (cases "u = v \<or> (u, v) \<in> E")
    case True
    then have "E \<union> (if u = v then {} else {(u, v)}) = E" by auto
    then show ?thesis using g1 k True by (auto simp: addEdge_def Let_def)
  next
    case False
    then have "addEdge u v g = ?g\<lparr>g_keys := edgeKey u v # g_keys ?g, g_adj := (g_adj ?g)(u := g_adj ?g u @ [v]),
        g_deg := (g_deg ?g)(v := g_deg ?g v + 1)\<rparr>"
      using k by (simp add: addEdge_def Let_def)
    then show ?thesis using graph_inv_new [OF g1, of u v] False by simp
  qed
qed

lemma graph_inv_build:
  "graph_inv E g \<Longrightarrow> \<forall>(a, b) \<in> E. plain a \<and> plain b \<Longrightarrow> list_all plain ws \<Longrightarrow> even (length ws) \<Longrightarrow>
   graph_inv (E \<union> edges ws) (build ws g) \<and> set (g_nodes (build ws g)) = set (g_nodes g) \<union> set ws"
proof (induction ws g arbitrary: E rule: build.induct)
  case (1 u v ws g)
  let ?E = "E \<union> (if u = v then {} else {(u, v)})"
  have "graph_inv ?E (addEdge u v g)" using 1 by (intro graph_inv_addEdge) auto
  moreover have "set (g_nodes (addEdge u v g)) = set (g_nodes g) \<union> {u, v}" by (auto simp: addEdge_def Let_def)
  moreover have "\<forall>(a, b) \<in> ?E. plain a \<and> plain b" using 1 by auto
  moreover have "?E \<union> edges ws = E \<union> edges (u # v # ws)" by auto
  ultimately have "graph_inv (E \<union> edges (u # v # ws)) (build ws (addEdge u v g))"
    "set (g_nodes (build ws (addEdge u v g))) = set (g_nodes g) \<union> {u, v} \<union> set ws"
    using "1.IH" [of ?E] 1(4,5) by simp_all
  then show ?case by auto
qed auto

text \<open>Whatever the words, the graph that is built holds some edge set.\<close>

lemma graph_inv_any:
  assumes g: "graph_inv E g"
  shows "\<exists>E'. graph_inv E' (addEdge u v g)"
proof -
  let ?g = "addNode v (addNode u g)"
  have g1: "graph_inv E ?g" by (intro graph_inv_addNode g)
  show ?thesis
  proof (cases "u = v \<or> edgeKey u v \<in> set (g_keys ?g)")
    case True
    then show ?thesis using g1 by (auto simp: addEdge_def Let_def)
  next
    case False
    moreover have "(\<lambda>(a, b). edgeKey a b) ` E = set (g_keys ?g)" using g1 unfolding graph_inv_def by blast
    ultimately have "(u, v) \<notin> E" by force
    then show ?thesis using graph_inv_new [OF g1, of u v] False by (auto simp: addEdge_def Let_def)
  qed
qed

lemma graph_inv_build_any: "graph_inv E g \<Longrightarrow> \<exists>E'. graph_inv E' (build ws g)"
proof (induction ws g arbitrary: E rule: build.induct)
  case (1 u v ws g)
  then show ?case using graph_inv_any [of E g u v] by auto
qed auto

lemma graph_inv_empty: "graph_inv {} empty_graph"
  by (simp add: graph_inv_def empty_graph_def)

section \<open>The queue loop\<close>

definition kahn_inv :: "('a \<times> 'a) set \<Rightarrow> 'a set \<Rightarrow> ('a \<Rightarrow> int) \<Rightarrow> 'a list \<Rightarrow> 'a list \<Rightarrow> bool" where
  "kahn_inv E N deg queue acc \<longleftrightarrow>
     distinct (acc @ queue) \<and> set (acc @ queue) \<subseteq> N
     \<and> (\<forall>v. deg v = int (card {u. (u, v) \<in> E \<and> u \<notin> set acc}))
     \<and> (\<forall>v \<in> N. deg v = 0 \<longleftrightarrow> v \<in> set (acc @ queue))
     \<and> topological E {} acc"

lemma topological_snoc:
  "topological E S (xs @ [v]) \<longleftrightarrow> topological E S xs \<and> (\<forall>u. (u, v) \<in> E \<longrightarrow> u \<in> S \<union> set xs)"
  by (induction xs arbitrary: S) auto

lemma topological_position:
  "topological E S vs \<Longrightarrow> (u, v) \<in> E \<Longrightarrow> v \<in> set vs \<Longrightarrow>
   u \<in> S \<or> length (takeWhile (\<lambda>x. x \<noteq> u) vs) < length (takeWhile (\<lambda>x. x \<noteq> v) vs)"
proof (induction vs arbitrary: S)
  case (Cons w vs)
  show ?case
  proof (cases "v = w")
    case True
    then show ?thesis using Cons.prems by auto
  next
    case False
    then have "u \<in> insert w S \<or> length (takeWhile (\<lambda>x. x \<noteq> u) vs) < length (takeWhile (\<lambda>x. x \<noteq> v) vs)"
      using Cons.IH [of "insert w S"] Cons.prems by simp
    then show ?thesis using False by auto
  qed
qed simp

lemma topological_acyclic:
  assumes "topological E {} vs" and "\<forall>(u, v) \<in> E. v \<in> set vs"
  shows "acyclic E"
proof -
  have "E \<subseteq> measure (\<lambda>x. length (takeWhile (\<lambda>y. y \<noteq> x) vs))"
    using topological_position [OF assms(1)] assms(2) by fastforce
  then show ?thesis using wf_subset wf_measure wf_acyclic by blast
qed

text \<open>A finite set in which every element has a predecessor contains a cycle.\<close>

lemma pred_closed_cycle:
  assumes "finite E" and "acyclic E" and "\<forall>v \<in> R. \<exists>u \<in> R. (u, v) \<in> E"
  shows "R = {}"
proof (rule ccontr)
  assume "R \<noteq> {}"
  then obtain v where "v \<in> R" by auto
  moreover have "wf E" using assms(1,2) by (rule finite_acyclic_wf)
  ultimately obtain z where "z \<in> R" "\<And>y. (y, z) \<in> E \<Longrightarrow> y \<notin> R" using wfE_min [of E v R] by blast
  then show False using assms(3) by blast
qed

lemma relax_spec:
  "distinct vs \<Longrightarrow> relax vs deg queue = (\<lambda>x. deg x - (if x \<in> set vs then 1 else 0), queue @ filter (\<lambda>v. deg v = 1) vs)"
proof (induction vs arbitrary: deg queue)
  case (Cons v vs)
  have "filter (\<lambda>x. (deg(v := deg v - 1)) x = 1) vs = filter (\<lambda>x. deg x = 1) vs"
    using Cons.prems by (intro filter_cong) auto
  then show ?case using Cons by (auto simp: Let_def fun_eq_iff)
qed (simp add: fun_eq_iff)

lemma kahn_inv_step:
  assumes E: "finite E" and adj: "set vs = {v. (u, v) \<in> E}" "distinct vs" and N: "\<forall>(a, b) \<in> E. a \<in> N \<and> b \<in> N"
    and inv: "kahn_inv E N deg (u # queue) acc"
  shows "kahn_inv E N (\<lambda>x. deg x - (if x \<in> set vs then 1 else 0)) (queue @ filter (\<lambda>v. deg v = 1) vs) (acc @ [u])"
proof -
  let ?P = "\<lambda>S v. {x. (x, v) \<in> E \<and> x \<notin> S}"
  let ?deg = "\<lambda>x. deg x - (if x \<in> set vs then 1 else 0)"
  have fin: "finite (?P S v)" for S v
    by (rule finite_subset [OF _ finite_imageI [OF E, of fst]]) force
  from inv have d: "\<And>v. deg v = int (card (?P (set acc) v))" and z: "\<And>v. v \<in> N \<Longrightarrow> deg v = 0 \<longleftrightarrow> v \<in> set (acc @ u # queue)"
    and dis: "distinct (acc @ u # queue)" and sub: "set (acc @ u # queue) \<subseteq> N" and top: "topological E {} acc"
    unfolding kahn_inv_def by blast+
  have u: "u \<notin> set acc" using dis by simp
  have d': "?deg v = int (card (?P (set (acc @ [u])) v))" for v
  proof (cases "v \<in> set vs")
    case True
    then have "?P (set acc) v = insert u (?P (set (acc @ [u])) v)" using adj u by auto
    then have "card (?P (set acc) v) = Suc (card (?P (set (acc @ [u])) v))"
      using card_insert_disjoint [OF fin [of v "set (acc @ [u])"], of u] by simp
    then show ?thesis using True d by simp
  next
    case False
    then have "?P (set acc) v = ?P (set (acc @ [u])) v" using adj by auto
    then show ?thesis using False d by simp
  qed
  have pos: "deg v \<noteq> 0" if "v \<in> set vs" for v
  proof -
    have "u \<in> ?P (set acc) v" using that adj u by simp
    then show ?thesis using d [of v] fin [of v "set acc"] by (auto simp: card_eq_0_iff)
  qed
  have vs: "set vs \<subseteq> N" using adj N by auto
  have new: "v \<notin> set (acc @ u # queue)" if "v \<in> set vs" for v using pos [OF that] z [of v] vs that by blast
  have z': "?deg v = 0 \<longleftrightarrow> v \<in> set ((acc @ [u]) @ queue @ filter (\<lambda>v. deg v = 1) vs)" if "v \<in> N" for v
    using z [OF that] new [of v] by (cases "v \<in> set vs") auto
  have "deg u = 0" using z [of u] sub by simp
  then have "?P (set acc) u = {}" using d [of u] fin [of u "set acc"] by simp
  then have "topological E {} (acc @ [u])" using top by (auto simp: topological_snoc)
  moreover have "distinct ((acc @ [u]) @ queue @ filter (\<lambda>v. deg v = 1) vs)" using dis new adj(2) by auto
  moreover have "set ((acc @ [u]) @ queue @ filter (\<lambda>v. deg v = 1) vs) \<subseteq> N" using sub vs by auto
  ultimately show ?thesis using d' z' unfolding kahn_inv_def by blast
qed

text \<open>The loop ends when the fuel is the number of nodes not yet output, in a state with an empty queue.\<close>

lemma kahn_runs:
  assumes E: "finite E" and adj: "\<And>u. set (adj u) = {v. (u, v) \<in> E}" "\<And>u. distinct (adj u)"
    and N: "\<forall>(a, b) \<in> E. a \<in> N \<and> b \<in> N" "finite N"
  shows "kahn_inv E N deg queue acc \<Longrightarrow> card N \<le> fuel + length acc \<Longrightarrow>
    \<exists>out deg'. kahn fuel adj deg queue acc = Some out \<and> kahn_inv E N deg' [] out"
proof (induction fuel arbitrary: deg queue acc)
  case 0
  then have "distinct (acc @ queue)" "set (acc @ queue) \<subseteq> N" unfolding kahn_inv_def by blast+
  then have "length (acc @ queue) \<le> card N" using card_mono [OF N(2)] by (metis distinct_card)
  then have "length queue = 0" using "0.prems"(2) by (simp del: length_0_conv)
  then show ?case using "0.prems" by auto
next
  case (Suc fuel)
  show ?case
  proof (cases queue)
    case Nil
    then show ?thesis using Suc.prems by auto
  next
    case (Cons u us)
    show ?thesis
      using Suc.IH [OF kahn_inv_step [OF E adj N(1) Suc.prems(1) [unfolded Cons]]] Suc.prems(2)
      by (simp add: Cons relax_spec [OF adj(2)])
  qed
qed

text \<open>The nodes the loop does not output are those on a cycle or behind one.\<close>

lemma kahn_inv_final:
  assumes E: "finite E" and N: "\<forall>(a, b) \<in> E. a \<in> N \<and> b \<in> N" and inv: "kahn_inv E N deg [] out"
  shows "\<forall>v \<in> N - set out. \<exists>u \<in> N - set out. (u, v) \<in> E" and "set out = N \<longleftrightarrow> acyclic E"
proof -
  show p: "\<forall>v \<in> N - set out. \<exists>u \<in> N - set out. (u, v) \<in> E"
  proof
    fix v assume v: "v \<in> N - set out"
    have "\<forall>v \<in> N. deg v = 0 \<longleftrightarrow> v \<in> set (out @ [])" using inv unfolding kahn_inv_def by blast
    then have "deg v \<noteq> 0" using v by simp
    moreover have "deg v = int (card {u. (u, v) \<in> E \<and> u \<notin> set out})" using inv unfolding kahn_inv_def by blast
    ultimately have "{u. (u, v) \<in> E \<and> u \<notin> set out} \<noteq> {}" by force
    then show "\<exists>u \<in> N - set out. (u, v) \<in> E" using N by auto
  qed
  show "set out = N \<longleftrightarrow> acyclic E"
  proof
    assume "set out = N"
    then show "acyclic E" using N inv topological_acyclic [of E out] unfolding kahn_inv_def by auto
  next
    assume "acyclic E"
    then have "N - set out = {}" using pred_closed_cycle [OF E _ p] by simp
    then show "set out = N" using inv unfolding kahn_inv_def by auto
  qed
qed

section \<open>Properties\<close>

lemma kahn_graph:
  assumes g: "graph_inv E g"
  shows "\<exists>order deg. tsort_order g = Some order \<and> kahn_inv E (set (g_nodes g)) deg [] order"
proof -
  let ?N = "set (g_nodes g)" and ?queue = "filter (\<lambda>n. g_deg g n = 0) (g_nodes g)"
  from g have E: "finite E" "\<forall>(a, b) \<in> E. a \<in> ?N \<and> b \<in> ?N" and adj: "\<And>u. set (g_adj g u) = {v. (u, v) \<in> E}" "\<And>u. distinct (g_adj g u)"
    and dis: "distinct (g_nodes g)"
    unfolding graph_inv_def by simp_all
  have "kahn_inv E ?N (g_deg g) ?queue []" using g unfolding graph_inv_def kahn_inv_def by simp
  moreover have "card ?N \<le> length (g_nodes g) + length []" using distinct_card [OF dis] by simp
  ultimately show ?thesis
    using kahn_runs [OF E(1) adj E(2), of "g_deg g" ?queue "[]" "length (g_nodes g)"] unfolding tsort_order_def by auto
qed

lemma tsort_order_spec:
  assumes w: "list_all plain words" "even (length words)"
  shows "\<exists>order. tsort_order (build words empty_graph) = Some order \<and> distinct order \<and> set order \<subseteq> set words
    \<and> topological (edges words) {} order
    \<and> (\<forall>v \<in> set words - set order. \<exists>u \<in> set words - set order. (u, v) \<in> edges words)
    \<and> (length order < length (g_nodes (build words empty_graph)) \<longleftrightarrow> \<not> acyclic (edges words))"
proof -
  let ?g = "build words empty_graph" and ?E = "edges words" and ?N = "set words"
  have "graph_inv ({} \<union> ?E) ?g \<and> set (g_nodes ?g) = set (g_nodes empty_graph) \<union> ?N"
    by (rule graph_inv_build [OF graph_inv_empty]) (use w in auto)
  then have g: "graph_inv ?E ?g" and n: "set (g_nodes ?g) = ?N" by (auto simp: empty_graph_def)
  then have E: "finite ?E" "\<forall>(a, b) \<in> ?E. a \<in> ?N \<and> b \<in> ?N" and c: "card ?N = length (g_nodes ?g)"
    unfolding graph_inv_def using distinct_card [of "g_nodes ?g"] by auto
  obtain out deg where out: "tsort_order ?g = Some out" "kahn_inv ?E ?N deg [] out" using kahn_graph [OF g] n by auto
  then have o: "distinct out" "set out \<subseteq> ?N" "topological ?E {} out" unfolding kahn_inv_def by auto
  then have "length out < length (g_nodes ?g) \<longleftrightarrow> set out \<noteq> ?N"
    using c distinct_card [OF o(1)] card_mono [OF _ o(2)] card_subset_eq [OF _ o(2)] by fastforce
  then show ?thesis using out(1) o kahn_inv_final [OF E out(2)] by blast
qed

text \<open>The queue loop ends on every list of words, with or without \<^verbatim>\<open>>\<close> in them.\<close>

lemma tsort_words_returns: "tsort_words jsonMode words \<noteq> None"
proof -
  obtain E where "graph_inv E (build words empty_graph)" using graph_inv_build_any [OF graph_inv_empty] by blast
  then obtain order where "tsort_order (build words empty_graph) = Some order" using kahn_graph by blast
  then show ?thesis by (simp add: tsort_words_def Let_def)
qed

lemma tsort_run_returns: "tsort_run fs stdin args \<noteq> None"
  using tsort_words_returns by (simp add: tsort_run_def del: not_None_eq split: sum.split list.split)

text \<open>C3. \<^verbatim>\<open>tsort\<close> on an even number of words without the character \<^verbatim>\<open>>\<close> terminates, prints distinct words in an order
  in which every word comes after all the words an input pair puts before it, leaves out only words that
  have a predecessor that is left out as well, and succeeds exactly when the relation has no cycle; otherwise
  it exits with 1 and says that a cycle was detected.\<close>

theorem tsort_correct:
  assumes "list_all plain words" and "even (length words)"
  shows "\<exists>order. tsort_words False words =
      Some (if acyclic (edges words) then (0, println_all order, []) else (1, println_all order, ''tsort: cycle detected'' @ [NL]))
    \<and> distinct order \<and> set order \<subseteq> set words \<and> topological (edges words) {} order
    \<and> (\<forall>v \<in> set words - set order. \<exists>u \<in> set words - set order. (u, v) \<in> edges words)"
proof -
  obtain order where o: "tsort_order (build words empty_graph) = Some order" "distinct order" "set order \<subseteq> set words"
    "topological (edges words) {} order"
    "\<forall>v \<in> set words - set order. \<exists>u \<in> set words - set order. (u, v) \<in> edges words"
    "length order < length (g_nodes (build words empty_graph)) \<longleftrightarrow> \<not> acyclic (edges words)"
    using tsort_order_spec [OF assms] by blast
  have "length words mod 2 = 0" using assms(2) by presburger
  then have "tsort_words False words =
      Some (if acyclic (edges words) then (0, println_all order, []) else (1, println_all order, ''tsort: cycle detected'' @ [NL]))"
    using o(1,6) by (simp add: tsort_words_def Let_def Render_def)
  then show ?thesis using o(2-5) by blast
qed

theorem tsort_correct_witness:
  "\<exists>order. tsort_words False [''a'', ''b'', ''b'', ''c''] =
      Some (if acyclic (edges [''a'', ''b'', ''b'', ''c'']) then (0, println_all order, [])
            else (1, println_all order, ''tsort: cycle detected'' @ [NL]))
    \<and> distinct order \<and> set order \<subseteq> set [''a'', ''b'', ''b'', ''c'']
    \<and> topological (edges [''a'', ''b'', ''b'', ''c'']) {} order
    \<and> (\<forall>v \<in> set [''a'', ''b'', ''b'', ''c''] - set order. \<exists>u \<in> set [''a'', ''b'', ''b'', ''c''] - set order.
         (u, v) \<in> edges [''a'', ''b'', ''b'', ''c''])"
  by (rule tsort_correct [of "[''a'', ''b'', ''b'', ''c'']"]) (simp_all add: plain_def)

text \<open>The key under which an edge is remembered does not tell all edges apart: after the pair \<^verbatim>\<open>a->b c\<close> the pair
  \<^verbatim>\<open>a b->c\<close> is taken for a repetition, so \<^verbatim>\<open>b->c\<close> is printed before \<^verbatim>\<open>a\<close>, with exit code 0.\<close>

theorem tsort_key_collision:
  "tsort_words False [''b->c'', ''b->c'', ''a->b'', ''c'', ''a'', ''b->c''] =
     Some (0, println_all [''b->c'', ''a->b'', ''a'', ''c''], [])
   \<and> (''a'', ''b->c'') \<in> edges [''b->c'', ''b->c'', ''a->b'', ''c'', ''a'', ''b->c'']"
  by (simp add: tsort_words_def tsort_order_def empty_graph_def addEdge_def addNode_def edgeKey_def Render_def Let_def
      eval_nat_numeral mod_Suc)

end
