(* ===== verification/Uniq.thy ===== *)
theory Uniq
  imports Cli
begin

text \<open>
  The utility \<^verbatim>\<open>uniq\<close>: \<^verbatim>\<open>pkg/uniq/uniq.go\<close>.  The scanner loop carries the key and the text of the current group and its
  size; it is shown to be the run-length encoding of the lines under the comparison key.
\<close>

section \<open>The program\<close>

record UniqItem =
  UI_Line :: string
  UI_Count :: int

definition uniq_spec :: FlagSpec where
  "uniq_spec = mkSpec [mkFlag ''c'' ''count'' FlagBool, mkFlag ''d'' ''repeated'' FlagBool, mkFlag ''u'' ''unique'' FlagBool,
     mkFlag ''i'' ''ignore-case'' FlagBool, mkFlag ''f'' ''skip-fields'' FlagValue, mkFlag ''s'' ''skip-chars'' FlagValue,
     mkFlag ''w'' ''check-chars'' FlagValue, mkFlag [] ''json'' FlagBool]"

fun skip_fields :: "nat \<Rightarrow> string \<Rightarrow> string" where
  "skip_fields 0 line = line"
| "skip_fields (Suc n) line =
     (let rest = dropWhile (\<lambda>c. \<not> is_blank c) (dropWhile is_blank line)
      in if rest = [] then [] else skip_fields n rest)"

definition extractCompareKey :: "string \<Rightarrow> int \<Rightarrow> int \<Rightarrow> int \<Rightarrow> string" where
  "extractCompareKey line skipFields skipChars checkChars =
     (let l1 = skip_fields (nat skipFields) line;
          l2 = (if skipChars > 0
                then (if int (length (runes l1)) > skipChars then of_runes (drop (nat skipChars) (runes l1)) else [])
                else l1)
      in if checkChars > 0 \<and> int (length (runes l2)) > checkChars then of_runes (take (nat checkChars) (runes l2))
         else l2)"

definition uniq_selected :: "bool \<Rightarrow> bool \<Rightarrow> int \<Rightarrow> bool" where
  "uniq_selected duplicatesOnly uniqueOnly n \<longleftrightarrow>
     (\<not> duplicatesOnly \<and> \<not> uniqueOnly) \<or> (duplicatesOnly \<and> n > 1) \<or> (uniqueOnly \<and> n = 1)"

text \<open>The loop; the state is \<^const>\<open>None\<close> while \<^verbatim>\<open>first\<close> holds, and then \<^verbatim>\<open>prev\<close>, \<^verbatim>\<open>prevOrig\<close> and \<^verbatim>\<open>count\<close>.\<close>

definition uniq_flush :: "(int \<Rightarrow> bool) \<Rightarrow> string \<Rightarrow> int \<Rightarrow> UniqItem list \<Rightarrow> UniqItem list" where
  "uniq_flush sel prevOrig n items =
     (if sel n then items @ [\<lparr>UI_Line = prevOrig, UI_Count = n\<rparr>] else items)"

fun uniq_loop :: "(string \<Rightarrow> string) \<Rightarrow> (int \<Rightarrow> bool) \<Rightarrow> (string \<times> string \<times> int) option \<Rightarrow> UniqItem list \<Rightarrow> string list
    \<Rightarrow> UniqItem list" where
  "uniq_loop key sel None items [] = items"
| "uniq_loop key sel (Some (prev, prevOrig, n)) items [] = uniq_flush sel prevOrig n items"
| "uniq_loop key sel None items (orig # ls) = uniq_loop key sel (Some (key orig, orig, 1)) items ls"
| "uniq_loop key sel (Some (prev, prevOrig, n)) items (orig # ls) =
     (if key orig = prev then uniq_loop key sel (Some (prev, prevOrig, n + 1)) items ls
      else uniq_loop key sel (Some (key orig, orig, 1)) (uniq_flush sel prevOrig n items) ls)"

text \<open>\<^verbatim>\<open>Run\<close>: the items and the scanner's error; \<open>uni\<close> is the Unicode lower-case table.\<close>

definition uniq_Run :: "(nat \<Rightarrow> nat) \<Rightarrow> string \<Rightarrow> bool \<Rightarrow> bool \<Rightarrow> bool \<Rightarrow> int \<Rightarrow> int \<Rightarrow> int \<Rightarrow> UniqItem list \<times> string option" where
  "uniq_Run uni r duplicatesOnly uniqueOnly ignoreCase skipFields skipChars checkChars =
     (if uniqueOnly \<and> duplicatesOnly then ([], None)
      else
        (let (ls, ok) = Scanner r;
             key = (\<lambda>orig. extractCompareKey (if ignoreCase then ToLower uni orig else orig) skipFields skipChars checkChars)
         in (uniq_loop key (uniq_selected duplicatesOnly uniqueOnly) None [] ls, if ok then None else Some scan_error)))"

definition UniqItem_json :: "UniqItem \<Rightarrow> json" where
  "UniqItem_json i = JObj [(''line'', JStr (UI_Line i)), (''count'', JInt (UI_Count i))]"

definition uniq_line :: "bool \<Rightarrow> UniqItem \<Rightarrow> string" where
  "uniq_line countMode i =
     (if countMode then pad_left 7 (Itoa (UI_Count i)) @ '' '' @ UI_Line i @ [NL] else UI_Line i @ [NL])"

text \<open>The command: the exit code, standard output, standard error and the file it wrote, if any.  \<open>create\<close> is
  \<^verbatim>\<open>os.Create\<close>, \<^const>\<open>None\<close> for success; creating the file that is being read (\<open>same\<close>) leaves nothing to read.\<close>

definition uniqRun :: "(nat \<Rightarrow> nat) \<Rightarrow> files \<Rightarrow> (string \<Rightarrow> string option) \<Rightarrow> (string \<Rightarrow> string \<Rightarrow> bool) \<Rightarrow> string \<Rightarrow> string list
    \<Rightarrow> int \<times> string \<times> string \<times> (string \<times> string) option" where
  "uniqRun uni fs create same stdin args =
     (case ParseFlags args uniq_spec of
        Inl e \<Rightarrow> (case flag_failure ''uniq'' args e 2 of (c, out, err) \<Rightarrow> (c, out, err, None))
      | Inr flags \<Rightarrow>
          (let jsonMode = Has flags ''json'';
               pos = Positional flags;
               input = (if pos \<noteq> [] \<and> hd pos \<noteq> ''-'' then fs (hd pos) else Inr stdin);
               outPath = (if \<not> jsonMode \<and> length pos > 1 \<and> pos ! 1 \<noteq> ''-'' then Some (pos ! 1) else None)
           in case input of
                Inl e \<Rightarrow> (1, [], ''uniq: '' @ e @ [NL], None)
              | Inr content \<Rightarrow>
                  (case (case outPath of None \<Rightarrow> None | Some p \<Rightarrow> create p) of
                     Some e \<Rightarrow> (1, [], ''uniq: '' @ e @ [NL], None)
                   | None \<Rightarrow>
                       (let dat = (case outPath of
                              Some p \<Rightarrow> if hd pos \<noteq> ''-'' \<and> same (hd pos) p then [] else content
                            | None \<Rightarrow> content);
                            (items, err) = uniq_Run uni dat (Has flags ''d'') (Has flags ''u'') (Has flags ''i'')
                              (scan_flag (Get flags ''f'')) (scan_flag (Get flags ''s'')) (scan_flag (Get flags ''w''))
                        in case err of
                             Some e \<Rightarrow> (1, [], ''uniq: '' @ e @ [NL], map_option (\<lambda>p. (p, [])) outPath)
                           | None \<Rightarrow>
                               (if jsonMode then
                                  (0, Render ''uniq'' (if items = [] then JNull else JArr (map UniqItem_json items)) True [], [], None)
                                else
                                  (let text = concat (map (uniq_line (Has flags ''c'')) items)
                                   in case outPath of
                                        None \<Rightarrow> (0, text, [], None)
                                      | Some p \<Rightarrow> (0, [], [], Some (p, text))))))))"

section \<open>Reference: run-length encoding\<close>

function groups :: "('a \<Rightarrow> 'k) \<Rightarrow> 'a list \<Rightarrow> 'a list list" where
  "groups key [] = []"
| "groups key (x # xs) = (x # takeWhile (\<lambda>y. key y = key x) xs) # groups key (dropWhile (\<lambda>y. key y = key x) xs)"
  by pat_completeness auto
termination
  by (relation "measure (length \<circ> snd)") (auto simp: length_dropWhile_le less_Suc_eq_le)

definition rle_item :: "string list \<Rightarrow> UniqItem" where
  "rle_item g = \<lparr>UI_Line = hd g, UI_Count = int (length g)\<rparr>"

section \<open>Facts\<close>

lemma concat_groups: "concat (groups key xs) = xs"
  by (induction key xs rule: groups.induct) auto

lemma groups_not_Nil: "g \<in> set (groups key xs) \<Longrightarrow> g \<noteq> []"
  by (induction key xs rule: groups.induct) auto

lemma groups_same: "g \<in> set (groups key xs) \<Longrightarrow> y \<in> set g \<Longrightarrow> key y = key (hd g)"
  by (induction key xs rule: groups.induct) (auto dest: set_takeWhileD)

lemma hd_groups: "xs \<noteq> [] \<Longrightarrow> hd (hd (groups key xs)) = hd xs \<and> groups key xs \<noteq> []"
  by (cases xs) auto

lemma groups_adjacent: "successively (\<lambda>g h. key (hd g) \<noteq> key (hd h)) (groups key xs)"
proof (induction key xs rule: groups.induct)
  case (2 key x xs)
  let ?rest = "dropWhile (\<lambda>y. key y = key x) xs"
  have "key (hd (hd (groups key ?rest))) \<noteq> key x" if "groups key ?rest \<noteq> []"
  proof -
    have "?rest \<noteq> []" using that by (metis groups.simps(1))
    then show ?thesis using hd_groups [of ?rest key] hd_dropWhile [of "\<lambda>y. key y = key x" xs] by simp
  qed
  then show ?case using 2 by (auto simp: successively_Cons)
qed simp

definition rle_items :: "(string \<Rightarrow> string) \<Rightarrow> (int \<Rightarrow> bool) \<Rightarrow> string list \<Rightarrow> UniqItem list" where
  "rle_items key sel ls = map rle_item (filter (\<lambda>g. sel (int (length g))) (groups key ls))"

lemma uniq_loop_group:
  "uniq_loop key sel (Some (key o0, o0, n)) items ls =
     uniq_flush sel o0 (n + int (length (takeWhile (\<lambda>y. key y = key o0) ls))) items
     @ rle_items key sel (dropWhile (\<lambda>y. key y = key o0) ls)"
proof (induction ls arbitrary: o0 n items)
  case (Cons l ls)
  show ?case
  proof (cases "key l = key o0")
    case True
    then show ?thesis using Cons [of o0 "n + 1" items] by (simp add: add.assoc)
  next
    case False
    then show ?thesis using Cons [of l 1 "uniq_flush sel o0 n items"]
      by (simp add: rle_items_def uniq_flush_def rle_item_def)
  qed
qed (simp add: rle_items_def)

lemma uniq_loop_rle: "uniq_loop key sel None [] ls = rle_items key sel ls"
  by (cases ls) (simp_all add: uniq_loop_group rle_items_def uniq_flush_def rle_item_def)

section \<open>Properties\<close>

text \<open>C26. The single pass of \<^verbatim>\<open>uniq\<close> computes the run-length encoding of its input under the comparison key: it reports
  the first line and the length of every maximal group of adjacent lines with equal keys, of those groups that
  \<^verbatim>\<open>-d\<close> and \<^verbatim>\<open>-u\<close> select, in order.\<close>

theorem uniq_run_length:
  assumes "\<forall>l \<in> set (text_lines s). length l < token_limit" and "\<not> (u \<and> d)"
  shows "uniq_Run uni s d u ic f sc w =
    (map rle_item (filter (\<lambda>g. uniq_selected d u (int (length g)))
       (groups (\<lambda>l. extractCompareKey (if ic then ToLower uni l else l) f sc w) (scan_lines s))), None)"
  using assms by (auto simp: uniq_Run_def Scanner_short uniq_loop_rle rle_items_def)

theorem uniq_run_length_witness:
  "uniq_Run id (''a'' @ [NL] @ ''a'' @ [NL] @ ''b'' @ [NL]) True False False 0 0 0 =
    (map rle_item (filter (\<lambda>g. uniq_selected True False (int (length g)))
       (groups (\<lambda>l. extractCompareKey (if False then ToLower id l else l) 0 0 0) (scan_lines (''a'' @ [NL] @ ''a'' @ [NL] @ ''b'' @ [NL])))), None)"
  by (rule uniq_run_length) (simp_all add: text_lines_split token_limit_def)

lemma extractCompareKey_id: "extractCompareKey l 0 0 0 = l"
  by (simp add: extractCompareKey_def)

lemma replicate_group: "\<forall>y \<in> set g. y = hd g \<Longrightarrow> replicate (length g) (hd g) = g"
  by (cases g) (auto simp: replicate_length_same)

text \<open>C27. Without options \<^verbatim>\<open>uniq -c\<close> loses nothing: repeating every reported line as often as its count says gives back
  the lines of the input, no two adjacent reported lines are equal, and every count is positive.\<close>

theorem uniq_count_roundtrip:
  assumes "\<forall>l \<in> set (text_lines s). length l < token_limit"
  shows "\<exists>items. uniq_Run uni s False False False 0 0 0 = (items, None)
    \<and> concat (map (\<lambda>i. replicate (nat (UI_Count i)) (UI_Line i)) items) = scan_lines s
    \<and> successively (\<lambda>i j. UI_Line i \<noteq> UI_Line j) items \<and> list_all (\<lambda>i. UI_Count i > 0) items"
proof -
  let ?g = "groups id (scan_lines s)"
  have r: "uniq_Run uni s False False False 0 0 0 = (map rle_item ?g, None)"
    using assms by (simp add: uniq_Run_def Scanner_short uniq_loop_rle rle_items_def extractCompareKey_id uniq_selected_def id_def)
  have "map (\<lambda>g. replicate (length g) (hd g)) ?g = ?g"
    using groups_same [of _ id "scan_lines s"] by (intro map_idI replicate_group) force
  then have "concat (map (\<lambda>g. replicate (length g) (hd g)) ?g) = scan_lines s" by (simp add: concat_groups)
  moreover have "(\<lambda>i. replicate (nat (UI_Count i)) (UI_Line i)) \<circ> rle_item = (\<lambda>g. replicate (length g) (hd g))"
    by (simp add: rle_item_def comp_def)
  ultimately have c: "concat (map (\<lambda>i. replicate (nat (UI_Count i)) (UI_Line i)) (map rle_item ?g)) = scan_lines s"
    by (simp only: map_map)
  have a: "successively (\<lambda>i j. UI_Line i \<noteq> UI_Line j) (map rle_item ?g)"
    using groups_adjacent [of id "scan_lines s"] by (simp add: successively_map rle_item_def)
  have "list_all (\<lambda>i. UI_Count i > 0) (map rle_item ?g)"
    using groups_not_Nil [of _ id "scan_lines s"] by (auto simp: list_all_iff rle_item_def)
  then show ?thesis using r a c by blast
qed

theorem uniq_count_roundtrip_witness:
  "\<exists>items. uniq_Run id (''a'' @ [NL] @ ''a'' @ [NL] @ ''b'' @ [NL]) False False False 0 0 0 = (items, None)
    \<and> concat (map (\<lambda>i. replicate (nat (UI_Count i)) (UI_Line i)) items) = scan_lines (''a'' @ [NL] @ ''a'' @ [NL] @ ''b'' @ [NL])
    \<and> successively (\<lambda>i j. UI_Line i \<noteq> UI_Line j) items \<and> list_all (\<lambda>i. UI_Count i > 0) items"
  by (rule uniq_count_roundtrip) (simp add: text_lines_split token_limit_def)

end
