(* ===== verification/Comm.thy ===== *)
theory Comm
  imports Cli "HOL-Library.Multiset"
begin

text \<open>
  The utility \<^verbatim>\<open>comm\<close>: \<^verbatim>\<open>pkg/comm/comm.go\<close>.  The merge loop over two indices is a recursion on the two remaining lists.
  On sorted input it refines the multiset specification: lines only in the first file, only in the second, in both.
\<close>

section \<open>The program\<close>

record Entry =
  E_Text :: string
  E_Col :: int

definition comm_spec :: FlagSpec where
  "comm_spec = mkSpec [mkFlag ''1'' [] FlagBool, mkFlag ''2'' [] FlagBool, mkFlag ''3'' [] FlagBool,
     mkFlag [] ''total'' FlagBool, mkFlag [] ''json'' FlagBool]"

definition entry :: "bool \<Rightarrow> int \<Rightarrow> string \<Rightarrow> Entry list" where
  "entry suppress col text = (if \<not> suppress then [\<lparr>E_Text = text, E_Col = col\<rparr>] else [])"

fun Compare :: "string list \<Rightarrow> string list \<Rightarrow> bool \<times> bool \<times> bool \<Rightarrow> Entry list" where
  "Compare (a # as) (b # bs) (s1, s2, s3) =
     (if str_less a b then entry s1 1 a @ Compare as (b # bs) (s1, s2, s3)
      else if str_less b a then entry s2 2 b @ Compare (a # as) bs (s1, s2, s3)
      else entry s3 3 a @ Compare as bs (s1, s2, s3))"
| "Compare as [] (s1, s2, s3) = concat (map (entry s1 1) as)"
| "Compare [] bs (s1, s2, s3) = concat (map (entry s2 2) bs)"

definition column :: "int \<Rightarrow> Entry list \<Rightarrow> string list" where
  "column c es = map E_Text (filter (\<lambda>e. E_Col e = c) es)"

text \<open>\<^verbatim>\<open>toResult\<close> with the encoding of its fields.\<close>

definition toResult :: "Entry list \<Rightarrow> json" where
  "toResult es = JObj [(''only_file1'', nil_strings (column 1 es)), (''only_file2'', nil_strings (column 2 es)),
     (''both'', nil_strings (column 3 es))]"

definition Format :: "Entry list \<Rightarrow> string" where
  "Format es = concat (map (\<lambda>e.
     (if E_Col e = 1 then E_Text e else if E_Col e = 2 then TAB # E_Text e
      else if E_Col e = 3 then TAB # TAB # E_Text e else []) @ [NL]) es)"

definition Counts :: "Entry list \<Rightarrow> int \<times> int \<times> int" where
  "Counts es = (int (length (column 1 es)), int (length (column 2 es)), int (length (column 3 es)))"

definition readLines :: "string \<Rightarrow> string + string list" where
  "readLines r = (let (ls, ok) = Scanner r in if ok then Inr ls else Inl scan_error)"

text \<open>\<^verbatim>\<open>getLines\<close>: standard input is read once when both operands name it.\<close>

definition getLines :: "files \<Rightarrow> string \<Rightarrow> string \<Rightarrow> string + string list" where
  "getLines fs stdin path =
     (if path = ''-'' then readLines stdin
      else (case fs path of Inl e \<Rightarrow> Inl e | Inr c \<Rightarrow> readLines c))"

definition commRun :: "files \<Rightarrow> string \<Rightarrow> string list \<Rightarrow> result" where
  "commRun fs stdin args =
     (case ParseFlags args comm_spec of
        Inl e \<Rightarrow> flag_failure ''comm'' args e 2
      | Inr flags \<Rightarrow>
          (case Positional flags of
             [] \<Rightarrow> (2, [], ''comm: missing file operands'' @ [NL])
           | [p] \<Rightarrow> (2, [], ''comm: missing second file operand'' @ [NL])
           | p # q # ps \<Rightarrow>
               (case (if p = ''-'' \<and> q = ''-'' then readLines stdin else Inr []) of
                  Inl e \<Rightarrow> (1, [], ''comm: stdin: '' @ e @ [NL])
                | Inr stdinData \<Rightarrow>
                    (case getLines fs stdin p of
                       Inl e \<Rightarrow> (1, [], ''comm: '' @ p @ '': '' @ e @ [NL])
                     | Inr lines1 \<Rightarrow>
                         (case getLines fs stdin q of
                            Inl e \<Rightarrow> (1, [], ''comm: '' @ q @ '': '' @ e @ [NL])
                          | Inr lines2 \<Rightarrow>
                              (let entries = Compare lines1 lines2 (Has flags ''1'', Has flags ''2'', Has flags ''3'')
                               in if Has flags ''json'' then (0, Render ''comm'' (toResult entries) True [], [])
                                  else (0, Format entries,
                                        if Has flags ''total''
                                        then (let (c1, c2, c3) = Counts entries
                                              in Itoa c1 @ [TAB] @ Itoa c2 @ [TAB] @ Itoa c3 @ [NL])
                                        else [])))))))"

section \<open>Facts\<close>

lemma column_simps [simp]:
  "column c [] = []" "column c (xs @ ys) = column c xs @ column c ys"
  "column c (entry s d t) = (if \<not> s \<and> c = d then [t] else [])"
  by (auto simp: column_def entry_def)

lemma column_entries [simp]: "column c (concat (map (entry s d) xs)) = (if \<not> s \<and> c = d then xs else [])"
  by (induction xs) (auto simp: column_def entry_def)

lemma mset_no_smaller:
  assumes "str_less a b" and "str_sorted (b # bs)"
  shows "a \<notin># mset (b # bs)"
proof
  assume "a \<in># mset (b # bs)"
  then have "a = b \<or> \<not> str_less a b" using assms(2) by (auto simp: str_sorted_def)
  then show False using assms(1) by auto
qed

definition compare_spec :: "string list \<Rightarrow> string list \<Rightarrow> string multiset \<times> string multiset \<times> string multiset" where
  "compare_spec xs ys = (mset xs - mset ys, mset ys - mset xs, mset xs \<inter># mset ys)"

definition columns :: "Entry list \<Rightarrow> string multiset \<times> string multiset \<times> string multiset" where
  "columns es = (mset (column 1 es), mset (column 2 es), mset (column 3 es))"

lemma compare_columns:
  "str_sorted xs \<Longrightarrow> str_sorted ys \<Longrightarrow> columns (Compare xs ys (False, False, False)) = compare_spec xs ys"
proof (induction xs ys "(False, False, False)" rule: Compare.induct)
  case (1 a as b bs)
  have s: "str_sorted as" "str_sorted bs" using 1(4,5) by (auto simp: str_sorted_def)
  consider "str_less a b" | "str_less b a" | "a = b" using str_less_linear by blast
  then show ?case
  proof cases
    case 1
    then have "a \<notin># mset (b # bs)" using mset_no_smaller "1.prems"(2) by blast
    then show ?thesis using "1.hyps"(1) [OF 1 s(1) "1.prems"(2)] 1
      by (auto simp: columns_def compare_spec_def inter_add_left1)
  next
    case 2
    then have "b \<notin># mset (a # as)" using mset_no_smaller "1.prems"(1) by blast
    then show ?thesis using "1.hyps"(2) [OF str_less_asym [OF 2] 2 "1.prems"(1) s(2)] str_less_asym [OF 2] 2
      by (auto simp: columns_def compare_spec_def inter_add_right1)
  next
    case 3
    then show ?thesis using 1 s by (auto simp: columns_def compare_spec_def)
  qed
qed (auto simp: columns_def compare_spec_def)

definition suppressed :: "bool \<times> bool \<times> bool \<Rightarrow> int \<Rightarrow> bool" where
  "suppressed s c = (case s of (s1, s2, s3) \<Rightarrow> c = 1 \<and> s1 \<or> c = 2 \<and> s2 \<or> c = 3 \<and> s3)"

lemma suppressed_simps [simp]:
  "suppressed (s1, s2, s3) 1 = s1" "suppressed (s1, s2, s3) 2 = s2" "suppressed (s1, s2, s3) 3 = s3"
  by (auto simp: suppressed_def)

lemma entry_suppressed [simp]:
  "filter (\<lambda>e. \<not> suppressed s (E_Col e)) (entry False c t) = entry (suppressed s c) c t"
  by (simp add: entry_def)

lemma entries_suppressed [simp]:
  "filter (\<lambda>e. \<not> suppressed s (E_Col e)) (concat (map (entry False c) ts)) = concat (map (entry (suppressed s c) c) ts)"
  by (induction ts) (simp_all add: filter_concat)

lemma Compare_suppress: "Compare xs ys s = filter (\<lambda>e. \<not> suppressed s (E_Col e)) (Compare xs ys (False, False, False))"
  by (induction xs ys s rule: Compare.induct) auto

lemma Compare_texts:
  "e \<in> set (Compare xs ys (False, False, False)) \<Longrightarrow> E_Text e \<in> set xs \<union> set ys"
  by (induction xs ys "(False, False, False)" rule: Compare.induct) (auto simp: entry_def split: if_splits)

lemma Compare_sorted:
  "str_sorted xs \<Longrightarrow> str_sorted ys \<Longrightarrow> str_sorted (map E_Text (Compare xs ys (False, False, False)))"
proof (induction xs ys "(False, False, False)" rule: Compare.induct)
  case (1 a as b bs)
  have s: "str_sorted as" "str_sorted bs" and le: "\<forall>x \<in> set as. \<not> str_less x a" "\<forall>x \<in> set bs. \<not> str_less x b"
    using 1(4,5) by (auto simp: str_sorted_def)
  consider "str_less a b" | "str_less b a" | "a = b" using str_less_linear by blast
  then show ?case
  proof cases
    case 1
    have "\<not> str_less x a" if "x \<in> set as \<union> set (b # bs)" for x
      using that le str_less_asym [OF 1] str_le_trans by (metis Un_iff set_ConsD)
    then show ?thesis using "1.hyps"(1) [OF 1 s(1) "1.prems"(2)] 1 Compare_texts [of _ as "b # bs"]
      by (auto simp: str_sorted_def entry_def)
  next
    case 2
    have "\<not> str_less x b" if "x \<in> set (a # as) \<union> set bs" for x
      using that le str_less_asym [OF 2] str_le_trans by (metis Un_iff set_ConsD)
    then show ?thesis
      using "1.hyps"(2) [OF str_less_asym [OF 2] 2 "1.prems"(1) s(2)] str_less_asym [OF 2] 2 Compare_texts [of _ "a # as" bs]
      by (auto simp: str_sorted_def entry_def)
  next
    case 3
    then show ?thesis using "1.hyps"(3) s le Compare_texts [of _ as bs] by (auto simp: str_sorted_def entry_def)
  qed
next
  case (2 as)
  have "map E_Text (concat (map (entry False 1) as)) = as" by (induction as) (auto simp: entry_def)
  then show ?case using 2 by simp
next
  case (3 b bs)
  have "map E_Text (concat (map (entry False 2) xs)) = xs" for xs by (induction xs) (auto simp: entry_def)
  from this [of "b # bs"] show ?case using 3 by simp
qed

lemma column_suppress: "column c (filter (\<lambda>e. \<not> suppressed s (E_Col e)) es) = (if suppressed s c then [] else column c es)"
proof -
  have "filter (\<lambda>e. E_Col e = c \<and> \<not> suppressed s (E_Col e)) es = (if suppressed s c then [] else filter (\<lambda>e. E_Col e = c) es)"
    by (induction es) auto
  then show ?thesis by (simp add: column_def filter_filter conj_commute)
qed

section \<open>Properties\<close>

text \<open>C4. The merge of \<^verbatim>\<open>comm\<close> refines the multiset specification: on sorted files column 1 holds the lines of the
  first file that are left when those of the second are taken away one for one, column 2 the converse, and
  column 3 the lines the two files share; a suppressed column is empty, and the output stays sorted.\<close>

theorem comm_refines:
  assumes "str_sorted xs" and "str_sorted ys"
  shows "columns (Compare xs ys (s1, s2, s3)) =
      (if s1 then {#} else mset xs - mset ys, if s2 then {#} else mset ys - mset xs, if s3 then {#} else mset xs \<inter># mset ys)
    \<and> str_sorted (map E_Text (Compare xs ys (s1, s2, s3)))"
proof
  let ?es = "Compare xs ys (False, False, False)"
  show "columns (Compare xs ys (s1, s2, s3)) =
      (if s1 then {#} else mset xs - mset ys, if s2 then {#} else mset ys - mset xs, if s3 then {#} else mset xs \<inter># mset ys)"
  proof -
    have "column c (Compare xs ys (s1, s2, s3)) = (if suppressed (s1, s2, s3) c then [] else column c ?es)" for c
      using column_suppress [of c "(s1, s2, s3)" ?es] Compare_suppress [of xs ys "(s1, s2, s3)"] by simp
    then show ?thesis using compare_columns [OF assms] by (simp add: columns_def compare_spec_def)
  qed
  have "sorted_wrt (\<lambda>a b. \<not> str_less b a) (map E_Text (filter (\<lambda>e. \<not> suppressed (s1, s2, s3) (E_Col e)) ?es))"
    using Compare_sorted [OF assms] by (simp add: str_sorted_def sorted_wrt_map sorted_wrt_filter)
  then show "str_sorted (map E_Text (Compare xs ys (s1, s2, s3)))"
    by (subst Compare_suppress) (simp add: str_sorted_def)
qed

theorem comm_refines_witness:
  "columns (Compare [''a'', ''b'', ''b''] [''b'', ''c''] (False, True, False)) =
      (if False then {#} else mset [''a'', ''b'', ''b''] - mset [''b'', ''c''],
       if True then {#} else mset [''b'', ''c''] - mset [''a'', ''b'', ''b''],
       if False then {#} else mset [''a'', ''b'', ''b''] \<inter># mset [''b'', ''c''])
    \<and> str_sorted (map E_Text (Compare [''a'', ''b'', ''b''] [''b'', ''c''] (False, True, False)))"
  by (rule comm_refines) (simp_all add: str_sorted_def code_def)

end
