(* ===== verification/Cut.thy ===== *)
theory Cut
  imports Cli
begin

text \<open>
  The utility \<^verbatim>\<open>cut\<close>: \<^verbatim>\<open>pkg/cut/cut.go\<close>.  Lists of ranges, the selection of fields, characters and bytes of a line, and the
  command.
\<close>

section \<open>The program\<close>

record CutLine =
  CL_Fields :: "string list"

definition cut_spec :: FlagSpec where
  "cut_spec = mkSpec [mkFlag ''f'' ''fields'' FlagValue, mkFlag ''d'' ''delimiter'' FlagValue,
     mkFlag ''c'' ''characters'' FlagValue, mkFlag ''b'' ''bytes'' FlagValue, mkFlag ''n'' ''no-split-chars'' FlagBool,
     mkFlag ''s'' ''only-delimited'' FlagBool, mkFlag ''D'' ''no-suppress'' FlagBool,
     mkFlag ''F'' ''whitespace-fields'' FlagBool, mkFlag [] ''json'' FlagBool]"

record rangeSpec =
  r_start :: int
  r_end :: int

definition list_error :: string where
  "list_error = ''invalid byte, character or field list''"

definition position :: "string \<Rightarrow> string + int" where
  "position p = (case ParseInt p of None \<Rightarrow> Inl list_error | Some v \<Rightarrow> if v < 1 then Inl list_error else Inr v)"

definition parsePart :: "string \<Rightarrow> string + rangeSpec" where
  "parsePart p =
     (if Contains p ''-'' then
        (let (a, b) = SplitN2 p ''-''
         in res_bind (if a \<noteq> [] then position a else Inr 1) (\<lambda>st.
            res_bind (if b \<noteq> [] then position b else Inr MaxInt64) (\<lambda>en.
              Inr \<lparr>r_start = st, r_end = en\<rparr>)))
      else res_bind (position p) (\<lambda>v. Inr \<lparr>r_start = v, r_end = v\<rparr>))"

fun parseParts :: "string list \<Rightarrow> string + rangeSpec list" where
  "parseParts [] = Inr []"
| "parseParts (p # ps) = res_bind (parsePart p) (\<lambda>r. res_bind (parseParts ps) (\<lambda>rs. Inr (r # rs)))"

definition parseList :: "string \<Rightarrow> string + rangeSpec list" where
  "parseList lst = parseParts (Split lst '','')"

definition inRange :: "int \<Rightarrow> rangeSpec list \<Rightarrow> bool" where
  "inRange idx specs = list_ex (\<lambda>s. idx \<ge> r_start s \<and> idx \<le> r_end s) specs"

text \<open>The loop over one range of fields, from \<open>f\<close> to the end of the range or of the line.\<close>

definition range_fields :: "string list \<Rightarrow> rangeSpec \<Rightarrow> string list" where
  "range_fields parts s =
     map (\<lambda>f. parts ! nat (f - 1)) (filter (\<lambda>f. f > 0) [r_start s .. min (r_end s) (int (length parts))])"

text \<open>The selection in one line; \<^const>\<open>None\<close> suppresses the line.\<close>

definition cut_fields :: "rangeSpec list \<Rightarrow> string \<Rightarrow> bool \<Rightarrow> bool \<Rightarrow> bool \<Rightarrow> string \<Rightarrow> string list option" where
  "cut_fields fieldSel delim onlyDelimited noSuppress whitespaceFields text =
     (let parts = (if whitespaceFields then Fields text else Split text delim);
          hasDelim = (whitespaceFields \<or> Contains text delim)
      in if \<not> hasDelim then
           (if \<not> onlyDelimited \<and> \<not> noSuppress then Some [text] else if noSuppress then Some [[]] else None)
         else Some [Join (concat (map (range_fields parts) fieldSel)) (if whitespaceFields then '' '' else delim)])"

definition cut_chars :: "rangeSpec list \<Rightarrow> string \<Rightarrow> string" where
  "cut_chars charSel text = of_runes (map fst (filter (\<lambda>(r, i). inRange (int i + 1) charSel) (zip (runes text) [0..<length (runes text)])))"

definition cut_bytes :: "rangeSpec list \<Rightarrow> string \<Rightarrow> string" where
  "cut_bytes byteSel text = map fst (filter (\<lambda>(c, i). inRange (int i + 1) byteSel) (zip text [0..<length text]))"

definition optList :: "string \<Rightarrow> string + rangeSpec list" where
  "optList l = (if l \<noteq> [] then parseList l else Inr [])"

definition cut_Run :: "string \<Rightarrow> string \<Rightarrow> string \<Rightarrow> string \<Rightarrow> string \<Rightarrow> bool \<Rightarrow> bool \<Rightarrow> bool \<Rightarrow> string + CutLine list" where
  "cut_Run r fieldList delimiter chars bytesList onlyDelimited noSuppress whitespaceFields =
     (let delim = (if delimiter \<noteq> [] then delimiter else [TAB])
      in res_bind (optList fieldList) (\<lambda>fieldSel.
         res_bind (optList chars) (\<lambda>charSel.
         res_bind (optList bytesList) (\<lambda>byteSel.
           (let (ls, ok) = Scanner r;
                extract = (\<lambda>text.
                  if fieldList \<noteq> [] then cut_fields fieldSel delim onlyDelimited noSuppress whitespaceFields text
                  else if chars \<noteq> [] then Some [cut_chars charSel text]
                  else if bytesList \<noteq> [] then Some [cut_bytes byteSel text]
                  else Some [])
            in if ok then Inr (map (\<lambda>fs. \<lparr>CL_Fields = fs\<rparr>) (List.map_filter extract ls)) else Inl scan_error)))))"

definition CutResult_json :: "CutLine list \<Rightarrow> json" where
  "CutResult_json ls =
     JObj [(''lines'', if ls = [] then JNull else JArr (map (\<lambda>l. JObj [(''fields'', nil_strings (CL_Fields l))]) ls))]"

fun cut_readers :: "(string \<Rightarrow> string + CutLine list) \<Rightarrow> string list \<Rightarrow> string + CutLine list" where
  "cut_readers run1 [] = Inr []"
| "cut_readers run1 (r # rs) = res_bind (run1 r) (\<lambda>ls. res_bind (cut_readers run1 rs) (\<lambda>ms. Inr (ls @ ms)))"

definition cutRun :: "files \<Rightarrow> string \<Rightarrow> string list \<Rightarrow> result" where
  "cutRun fs stdin args =
     (case ParseFlags args cut_spec of
        Inl e \<Rightarrow> flag_failure ''cut'' args e 2
      | Inr flags \<Rightarrow>
          (let shift = Has flags ''F'' \<and> Get flags ''f'' = [] \<and> Positional flags \<noteq> [];
               fieldList = (if shift then hd (Positional flags) else Get flags ''f'');
               pos = (if shift then tl (Positional flags) else Positional flags);
               chars = Get flags ''c'';
               bytesList = Get flags ''b''
           in if fieldList = [] \<and> chars = [] \<and> bytesList = [] then
                (1, [], ''cut: you must specify a list of bytes, characters, or fields'' @ [NL])
              else
                (case operands fs stdin pos of
                   Inl (p, e) \<Rightarrow> (1, [], ''cut: '' @ p @ '': '' @ e @ [NL])
                 | Inr readers \<Rightarrow>
                     (case cut_readers (\<lambda>r. cut_Run r fieldList (Get flags ''d'') chars bytesList
                              (Has flags ''s'') (Has flags ''D'') (Has flags ''F'')) readers of
                        Inl e \<Rightarrow> (1, [], ''cut: '' @ e @ [NL])
                      | Inr ls \<Rightarrow>
                          (if Has flags ''json'' then (0, Render ''cut'' (CutResult_json ls) True [], [])
                           else (0, println_all (map hd (filter (\<lambda>fs. fs \<noteq> []) (map CL_Fields ls))), []))))))"

section \<open>Facts\<close>

lemma position_pos: "position p = Inr v \<Longrightarrow> 1 \<le> v \<and> v \<le> MaxInt64"
  by (auto simp: position_def split: option.splits if_splits dest: ParseInt_range)

lemma parsePart_pos: "parsePart p = Inr r \<Longrightarrow> 1 \<le> r_start r \<and> r_end r \<le> MaxInt64 \<and> 1 \<le> r_end r"
  by (auto simp: parsePart_def res_bind_Inr_iff split: if_splits prod.splits dest: position_pos)
     (auto simp: MaxInt64_def)

lemma parseParts_pos: "parseParts ps = Inr rs \<Longrightarrow> list_all (\<lambda>r. 1 \<le> r_start r \<and> 1 \<le> r_end r \<and> r_end r \<le> MaxInt64) rs"
  by (induction ps arbitrary: rs) (auto simp: res_bind_Inr_iff dest: parsePart_pos)

lemma range_fields_slice:
  assumes "1 \<le> r_start r"
  shows "range_fields parts r = take (nat (r_end r - r_start r + 1)) (drop (nat (r_start r - 1)) parts)"
proof -
  let ?hi = "min (r_end r) (int (length parts))"
  have f: "filter (\<lambda>f. f > 0) [r_start r .. ?hi] = [r_start r .. ?hi]" using assms by (intro filter_True) auto
  have "map (\<lambda>f. parts ! nat (f - 1)) [r_start r .. ?hi] = take (nat (r_end r - r_start r + 1)) (drop (nat (r_start r - 1)) parts)"
    (is "?l = ?r")
  proof (rule nth_equalityI)
    show len: "length ?l = length ?r" using assms by simp
    fix i assume "i < length ?l"
    then have i: "i < nat (?hi - r_start r + 1)" by simp
    then have "r_start r + int i \<le> ?hi" by linarith
    then have "?l ! i = parts ! nat (r_start r + int i - 1)" using i by (simp add: nth_upto)
    moreover have "nat (r_start r + int i - 1) = nat (r_start r - 1) + i" using assms by linarith
    moreover have "?r ! i = parts ! (nat (r_start r - 1) + i)" using i assms by (subst nth_take) auto
    ultimately show "?l ! i = ?r ! i" by simp
  qed
  then show ?thesis by (simp add: range_fields_def f)
qed

definition show_range :: "rangeSpec \<Rightarrow> string" where
  "show_range r = Itoa (r_start r) @ ''-'' @ Itoa (r_end r)"

definition good_range :: "rangeSpec \<Rightarrow> bool" where
  "good_range r \<longleftrightarrow> 1 \<le> r_start r \<and> r_start r \<le> MaxInt64 \<and> 1 \<le> r_end r \<and> r_end r \<le> MaxInt64"

lemma Itoa_pos_digits: "1 \<le> v \<Longrightarrow> list_all isDecDigit (Itoa v) \<and> Itoa v \<noteq> []"
  using itoa_nat_digits [of "nat v"] by (simp add: Itoa_def)

lemma position_Itoa: "1 \<le> v \<Longrightarrow> v \<le> MaxInt64 \<Longrightarrow> position (Itoa v) = Inr v"
  by (simp add: position_def ParseInt_Itoa MinInt64_def)

lemma Index_char_skip: "c \<notin> set a \<Longrightarrow> Index (a @ c # b) [c] = Some (length a)"
  by (induction a) auto

lemma digits_no_char: "list_all isDecDigit a \<Longrightarrow> \<not> isDecDigit c \<Longrightarrow> c \<notin> set a"
  by (auto simp: list_all_iff)

lemma parsePart_show:
  assumes "good_range r"
  shows "parsePart (show_range r) = Inr r"
proof -
  have a: "list_all isDecDigit (Itoa (r_start r))" "Itoa (r_start r) \<noteq> []" "Itoa (r_end r) \<noteq> []"
    using assms Itoa_pos_digits by (auto simp: good_range_def)
  then have i: "Index (show_range r) ''-'' = Some (length (Itoa (r_start r)))"
    using Index_char_skip [OF digits_no_char [OF a(1) not_isDecDigit_sign(1)]] by (simp add: show_range_def)
  then have "SplitN2 (show_range r) ''-'' = (Itoa (r_start r), Itoa (r_end r))" "Contains (show_range r) ''-''"
    by (simp_all add: SplitN2_def Contains_def show_range_def)
  then show ?thesis using assms a position_Itoa by (simp add: parsePart_def good_range_def)
qed

lemma show_range_no_comma: "good_range r \<Longrightarrow> CHR '','' \<notin> set (show_range r)"
  using Itoa_pos_digits [of "r_start r"] Itoa_pos_digits [of "r_end r"]
  by (auto simp: show_range_def good_range_def list_all_iff isDecDigit_def code_def)

section \<open>Properties\<close>

text \<open>Parsing a printed list gives the list back: for every non-empty list of ranges with positive bounds that fit
  an int, \<^verbatim>\<open>parseList\<close> reads \<^verbatim>\<open>a-b,c-d,...\<close> as exactly those ranges, in their order.\<close>

theorem cut_list_roundtrip:
  assumes "rs \<noteq> []" and "list_all good_range rs"
  shows "parseList (Join (map show_range rs) '','') = Inr rs"
proof -
  have "parseParts (map show_range rs) = Inr rs" using assms(2) by (induction rs) (auto simp: parsePart_show)
  moreover have "Split (Join (map show_range rs) '','') '','' = map show_range rs"
    using assms split_char_Join [of "map show_range rs" "CHR '',''"] show_range_no_comma
    by (auto simp: Split_char list_all_iff)
  ultimately show ?thesis by (simp add: parseList_def)
qed

theorem cut_list_roundtrip_witness:
  "parseList (Join (map show_range [\<lparr>r_start = 3, r_end = 4\<rparr>, \<lparr>r_start = 1, r_end = 9\<rparr>]) '','') =
     Inr [\<lparr>r_start = 3, r_end = 4\<rparr>, \<lparr>r_start = 1, r_end = 9\<rparr>]"
  by (rule cut_list_roundtrip) (simp_all add: good_range_def MaxInt64_def)

text \<open>C39. \<^verbatim>\<open>cut -f\<close> with a list that parses: a line of at least two fields joined by the delimiter byte gives, for each range
  in the order of the list, the fields from its start to its end that the line has, joined by the delimiter.\<close>

theorem cut_selects_fields:
  assumes "parseList lst = Inr rs" and "length parts \<ge> 2" and "\<forall>p \<in> set parts. d \<notin> set p"
  shows "cut_fields rs [d] s D False (Join parts [d]) =
    Some [Join (concat (map (\<lambda>r. take (nat (r_end r - r_start r + 1)) (drop (nat (r_start r - 1)) parts)) rs)) [d]]"
proof -
  have sp: "Split (Join parts [d]) [d] = parts"
    using assms(2,3) split_char_Join [of parts d] by (cases parts) (auto simp: Split_char)
  obtain a b ps where parts: "parts = a # b # ps" using assms(2) by (cases parts; cases "tl parts") auto
  have "Index (Join parts [d]) [d] = Some (length a)"
    using Index_char_skip [of d a "Join (b # ps) [d]"] assms(3) by (simp add: parts)
  then have "Contains (Join parts [d]) [d]" by (simp add: Contains_def)
  moreover have "concat (map (range_fields parts) rs) =
      concat (map (\<lambda>r. take (nat (r_end r - r_start r + 1)) (drop (nat (r_start r - 1)) parts)) rs)"
  proof -
    have "range_fields parts r = take (nat (r_end r - r_start r + 1)) (drop (nat (r_start r - 1)) parts)" if "r \<in> set rs" for r
      using that parseParts_pos [of _ rs] assms(1) by (intro range_fields_slice) (auto simp: parseList_def list_all_iff)
    then show ?thesis by (metis (no_types, lifting) map_cong)
  qed
  ultimately show ?thesis by (simp add: cut_fields_def sp)
qed

theorem cut_selects_fields_witness:
  "cut_fields [\<lparr>r_start = 2, r_end = 2\<rparr>, \<lparr>r_start = 1, r_end = 1\<rparr>] '':'' False False False (Join [''a'', ''b'', ''c''] '':'') =
    Some [Join (concat (map (\<lambda>r. take (nat (r_end r - r_start r + 1)) (drop (nat (r_start r - 1)) [''a'', ''b'', ''c'']))
      [\<lparr>r_start = 2, r_end = 2\<rparr>, \<lparr>r_start = 1, r_end = 1\<rparr>])) '':'']"
  by (rule cut_selects_fields [of "''2,1''"])
     (simp_all add: parseList_def Split_char parsePart_def Contains_def position_def ParseInt_def parse_digits_def
       dec_value_def isDecDigit_def code_def MaxInt64_def MinInt64_def)

end
