(* ===== verification/Tr.thy ===== *)
theory Tr
  imports Cli
begin

text \<open>
  The utility \<^verbatim>\<open>tr\<close>: \<^verbatim>\<open>pkg/tr/tr.go\<close>.  The character classes are a Go map, so each pass over them has an order of its
  own: \<open>orders n\<close> is the order of the \<open>n\<close>-th pass.
\<close>

section \<open>The program\<close>

type_synonym class_order = "(string \<times> nat list) list"

definition tr_spec :: FlagSpec where
  "tr_spec = mkSpec [mkFlag ''d'' ''delete'' FlagBool, mkFlag ''s'' ''squeeze-repeats'' FlagBool,
     mkFlag ''c'' ''complement'' FlagBool, mkFlag [] ''json'' FlagBool]"

definition buildCntrl :: "nat list" where
  "buildCntrl = [0..<32] @ [127]"

text \<open>The classes, written as ranges of ASCII codes.\<close>

definition charClasses :: class_order where
  "charClasses =
     [(''[:digit:]'', [48..<58]),
      (''[:xdigit:]'', [48..<58] @ [65..<71] @ [97..<103]),
      (''[:alpha:]'', [65..<91] @ [97..<123]),
      (''[:alnum:]'', [48..<58] @ [65..<91] @ [97..<123]),
      (''[:lower:]'', [97..<123]),
      (''[:upper:]'', [65..<91]),
      (''[:space:]'', [32, 9, 10, 13, 12, 11]),
      (''[:blank:]'', [32, 9]),
      (''[:punct:]'', [33..<48] @ [58..<65] @ [91..<97] @ [123..<127]),
      (''[:print:]'', [32..<127]),
      (''[:graph:]'', [33..<127]),
      (''[:cntrl:]'', buildCntrl)]"

definition expand_classes :: "class_order \<Rightarrow> string \<Rightarrow> string" where
  "expand_classes order s = fold (\<lambda>(name, rs) t. ReplaceAll t name (of_runes rs)) order s"

fun expand_runes :: "nat list \<Rightarrow> nat list" where
  "expand_runes (a # b # c # rest) =
     (if b = 45 then [a..<Suc c] @ expand_runes rest else a # expand_runes (b # c # rest))"
| "expand_runes rs = rs"

definition expandSet :: "class_order \<Rightarrow> string \<Rightarrow> nat set" where
  "expandSet order s = set (expand_runes (runes (expand_classes order s)))"

definition expandSetList :: "class_order \<Rightarrow> string \<Rightarrow> nat list" where
  "expandSetList order s = expand_runes (runes (expand_classes order s))"

text \<open>The translation map: the last entry for a rune counts, and the last rune of the second set is repeated.\<close>

definition tr_pairs :: "nat list \<Rightarrow> nat list \<Rightarrow> (nat \<times> nat) list" where
  "tr_pairs s1List s2List =
     zip s1List (map (\<lambda>i. if i < length s2List then s2List ! i else last s2List) [0..<length s1List])"

record tr_cfg =
  t_set1 :: "nat set"
  t_list2 :: "nat list"
  t_trans :: "nat \<Rightarrow> nat option"
  t_squeeze :: "nat set"
  t_delete :: bool
  t_sq :: bool
  t_compl :: bool

definition in_set1 :: "tr_cfg \<Rightarrow> nat \<Rightarrow> bool" where
  "in_set1 T rn = (if t_compl T then rn \<notin> t_set1 T else rn \<in> t_set1 T)"

definition out_rune :: "tr_cfg \<Rightarrow> nat \<Rightarrow> nat" where
  "out_rune T rn =
     (if in_set1 T rn \<and> \<not> t_delete T \<and> t_list2 T \<noteq> [] then
        (case t_trans T rn of Some m \<Rightarrow> m | None \<Rightarrow> if t_compl T then last (t_list2 T) else rn)
      else rn)"

definition in_squeeze :: "tr_cfg \<Rightarrow> nat \<Rightarrow> bool" where
  "in_squeeze T rn = (if t_list2 T \<noteq> [] then out_rune T rn \<in> t_squeeze T else in_set1 T rn)"

fun tr_loop :: "tr_cfg \<Rightarrow> nat \<Rightarrow> nat list \<Rightarrow> nat list" where
  "tr_loop T lastWrite [] = []"
| "tr_loop T lastWrite (rn # rs) =
     (if t_delete T \<and> in_set1 T rn then tr_loop T lastWrite rs
      else if t_sq T \<and> in_squeeze T rn \<and> out_rune T rn = lastWrite then tr_loop T lastWrite rs
      else out_rune T rn # tr_loop T (out_rune T rn) rs)"

definition tr_config :: "(nat \<Rightarrow> class_order) \<Rightarrow> string \<Rightarrow> string \<Rightarrow> bool \<Rightarrow> bool \<Rightarrow> bool \<Rightarrow> tr_cfg" where
  "tr_config orders set1 set2 deleteFlag squeezeFlag complementFlag =
     (let s1List = expandSetList (orders 0) set1;
          s2List = (if set2 \<noteq> [] then expandSetList (orders 2) set2 else [])
      in \<lparr>t_set1 = expandSet (orders 1) set1, t_list2 = s2List,
          t_trans = (if \<not> deleteFlag \<and> \<not> squeezeFlag \<and> s2List \<noteq> [] then map_of (rev (tr_pairs s1List s2List)) else (\<lambda>_. None)),
          t_squeeze = (if squeezeFlag \<and> s2List \<noteq> [] then expandSet (orders 3) set2 else {}),
          t_delete = deleteFlag, t_sq = squeezeFlag, t_compl = complementFlag\<rparr>)"

text \<open>\<^verbatim>\<open>Run\<close>: what is written for the input \<open>r\<close>.\<close>

definition tr_Run :: "(nat \<Rightarrow> class_order) \<Rightarrow> string \<Rightarrow> string \<Rightarrow> string \<Rightarrow> bool \<Rightarrow> bool \<Rightarrow> bool \<Rightarrow> string" where
  "tr_Run orders r set1 set2 deleteFlag squeezeFlag complementFlag =
     of_runes (tr_loop (tr_config orders set1 set2 deleteFlag squeezeFlag complementFlag) RuneError (runes r))"

definition tr_unescape :: "string \<Rightarrow> string" where
  "tr_unescape s = ReplaceAll (ReplaceAll s [CHR 0x5C, CHR ''n''] [NL]) [CHR 0x5C, CHR ''t''] [TAB]"

definition TrResult_json :: "string list \<Rightarrow> int \<Rightarrow> int \<Rightarrow> json" where
  "TrResult_json ls bytesIn bytesOut =
     JObj [(''lines'', JArr (map JStr ls)), (''lineCount'', JInt (int (length ls))),
           (''bytesIn'', JInt bytesIn), (''bytesOut'', JInt bytesOut)]"

definition trRun :: "(nat \<Rightarrow> class_order) \<Rightarrow> string \<Rightarrow> string list \<Rightarrow> result" where
  "trRun orders stdin args =
     (case ParseFlags args tr_spec of
        Inl e \<Rightarrow> flag_failure ''tr'' args e 2
      | Inr flags \<Rightarrow>
          (let jsonMode = Has flags ''json''; pos = Positional flags
           in if pos = [] then
                (1, RenderError ''tr'' 1 ''MISSING'' ''missing operand'' jsonMode, ''tr: missing operand'' @ [NL])
              else
                (let set1 = tr_unescape (hd pos);
                     set2 = tr_unescape (if length pos > 1 then pos ! 1 else []);
                     buf = tr_Run orders stdin set1 set2 (Has flags ''d'') (Has flags ''s'') (Has flags ''c'');
                     parts = Split buf [NL];
                     ls = (if last parts = [] then butlast parts else parts)
                 in if jsonMode
                    then (0, Render ''tr'' (TrResult_json ls (int (length stdin)) (int (length buf))) True [], [])
                    else (0, buf, []))))"

section \<open>Facts\<close>

text \<open>An order of the classes has the same entries as the table.\<close>

definition class_orders :: "(nat \<Rightarrow> class_order) \<Rightarrow> bool" where
  "class_orders orders \<longleftrightarrow> (\<forall>n. set (orders n) = set charClasses)"

lemma ReplaceAll_absent: "b \<notin> set s \<Longrightarrow> ReplaceAll s (b # old) new = s"
proof (induction s)
  case (Cons c s)
  then have "\<not> prefix (b # old) (c # s)" by auto
  then show ?case using Cons by (subst ReplaceAll.simps) auto
qed (simp add: ReplaceAll.simps)

lemma class_names: "(name, rs) \<in> set charClasses \<Longrightarrow> \<exists>t. name = CHR ''['' # t"
  by (auto simp: charClasses_def)

lemma expand_classes_plain:
  "set order \<subseteq> set charClasses \<Longrightarrow> CHR ''['' \<notin> set s \<Longrightarrow> expand_classes order s = s"
proof (induction order)
  case (Cons x order)
  obtain name rs where x: "x = (name, rs)" by (cases x)
  then obtain t where "name = CHR ''['' # t" using Cons.prems(1) class_names [of name rs] by auto
  then have "ReplaceAll s name (of_runes rs) = s" using ReplaceAll_absent Cons.prems(2) by simp
  then show ?case using Cons x by (simp add: expand_classes_def)
qed (simp add: expand_classes_def)

lemma ReplaceAll_whole: "old \<noteq> [] \<Longrightarrow> ReplaceAll old old new = new"
  by (subst ReplaceAll.simps) (simp add: ReplaceAll.simps)

lemma ReplaceAll_head:
  assumes "b \<notin> set t" and "\<not> prefix (b # old) (b # t)"
  shows "ReplaceAll (b # t) (b # old) new = b # t"
  using assms ReplaceAll_absent [of b t old new] by (subst ReplaceAll.simps) auto

lemma class_names_apart:
  "distinct (map fst charClasses)" "list_all (\<lambda>a. list_all (\<lambda>b. prefix b a \<longrightarrow> b = a) (map fst charClasses)) (map fst charClasses)"
  by (simp_all add: charClasses_def)

lemma class_prefix:
  assumes "(n1, r1) \<in> set charClasses" and "(n2, r2) \<in> set charClasses" and "prefix n2 n1"
  shows "(n2, r2) = (n1, r1)"
proof -
  have "n1 \<in> set (map fst charClasses)" "n2 \<in> set (map fst charClasses)" using assms(1,2) by force+
  then have "n2 = n1" using class_names_apart(2) assms(3) unfolding list_all_iff by blast
  then show ?thesis using assms(1,2) eq_key_imp_eq_value [OF class_names_apart(1)] by simp
qed

lemma class_tail: "(name, rs) \<in> set charClasses \<Longrightarrow> \<exists>t. name = CHR ''['' # t \<and> CHR ''['' \<notin> set t"
  unfolding charClasses_def by auto

lemma expand_class_skip:
  assumes x: "(name, rs) \<in> set charClasses"
  shows "set order \<subseteq> set charClasses \<Longrightarrow> (name, rs) \<notin> set order \<Longrightarrow> expand_classes order name = name"
proof (induction order)
  case (Cons y order)
  obtain n2 rs2 where y: "y = (n2, rs2)" by (cases y)
  obtain t where t: "name = CHR ''['' # t" "CHR ''['' \<notin> set t" using class_tail [OF x] by auto
  obtain t2 where t2: "n2 = CHR ''['' # t2" using class_tail [of n2 rs2] Cons.prems(1) y by auto
  have "\<not> prefix n2 name" using class_prefix [OF x, of n2 rs2] Cons.prems y by auto
  then have "ReplaceAll name n2 (of_runes rs2) = name" using ReplaceAll_head [OF t(2)] t(1) t2 by simp
  then show ?case using Cons y by (simp add: expand_classes_def)
qed (simp add: expand_classes_def)

text \<open>A class name alone expands to its runes, whatever the order of the table.\<close>

lemma expand_class:
  assumes o: "set order = set charClasses" and x: "(name, rs) \<in> set charClasses" and p: "CHR ''['' \<notin> set (of_runes rs)"
  shows "expand_classes order name = of_runes rs"
proof -
  obtain ys zs where s: "order = ys @ (name, rs) # zs" "(name, rs) \<notin> set ys" using split_list_first [of "(name, rs)" order] x o by auto
  have sub: "set ys \<subseteq> set charClasses" "set zs \<subseteq> set charClasses" using s(1) o by auto
  have "name \<noteq> []" using class_tail [OF x] by auto
  have "expand_classes order name = expand_classes zs (ReplaceAll (expand_classes ys name) name (of_runes rs))"
    by (simp add: s(1) expand_classes_def)
  also have "\<dots> = expand_classes zs (of_runes rs)"
    using expand_class_skip [OF x sub(1) s(2)] ReplaceAll_whole [OF \<open>name \<noteq> []\<close>] by simp
  also have "\<dots> = of_runes rs" using expand_classes_plain [OF sub(2) p] .
  finally show ?thesis .
qed

lemma expand_runes_plain: "45 \<notin> set rs \<Longrightarrow> expand_runes rs = rs"
  by (induction rs rule: expand_runes.induct) auto

lemma expand_range:
  assumes "set order = set charClasses" and "ascii [a, b]" and "a \<noteq> CHR ''[''" and "b \<noteq> CHR ''[''"
  shows "expandSetList order [a, CHR ''-'', b] = [code a..<Suc (code b)]"
proof -
  have "expand_classes order [a, CHR ''-'', b] = [a, CHR ''-'', b]" using assms by (intro expand_classes_plain) auto
  moreover have "runes [a, CHR ''-'', b] = [code a, 45, code b]" using assms(2) by (subst runes_code) (auto simp: ascii_def code_def)
  ultimately show ?thesis by (simp add: expandSetList_def)
qed

lemma no_bracket:
  assumes "\<forall>r \<in> set rs. r < 128 \<and> r \<noteq> 91"
  shows "CHR ''['' \<notin> set (of_runes rs)"
proof
  assume "CHR ''['' \<in> set (of_runes rs)"
  then obtain r where r: "r \<in> set rs" "CHR ''['' = char_of r" using assms by (auto simp: of_runes_ascii)
  then have "r < 256" using assms by fastforce
  then have "code (CHR ''['') = r" using r(2) by (simp add: code_char_of)
  then show False using r(1) assms by (auto simp: code_def)
qed

lemma expand_class_list:
  assumes "set order = set charClasses" and "(name, rs) \<in> set charClasses" and "\<forall>r \<in> set rs. r < 128 \<and> r \<noteq> 91 \<and> r \<noteq> 45"
  shows "expandSetList order name = rs"
  using expand_class [OF assms(1,2)] no_bracket [of rs] runes_of_runes [of rs] expand_runes_plain [of rs] assms(3)
  by (auto simp: expandSetList_def)

lemma expandSet_list: "expandSet order s = set (expandSetList order s)"
  by (simp add: expandSet_def expandSetList_def)

lemma tr_pairs_shift:
  "tr_pairs [a..<a + n] [b..<b + n] = map (\<lambda>r. (r, r - a + b)) [a..<a + n]"
  by (rule nth_equalityI) (auto simp: tr_pairs_def)

lemma tr_loop_translate: "\<not> t_delete T \<Longrightarrow> \<not> t_sq T \<Longrightarrow> tr_loop T l rs = map (out_rune T) rs"
  by (induction rs arbitrary: l) auto

definition upper_rune :: "nat \<Rightarrow> nat" where
  "upper_rune r = (if 97 \<le> r \<and> r \<le> 122 then r - 32 else r)"

lemma tr_Run_upper:
  assumes "expandSetList (orders 0) set1 = [97..<97 + 26]" and "expandSetList (orders 1) set1 = [97..<97 + 26]"
    and "expandSetList (orders 2) set2 = [65..<65 + 26]" and "set2 \<noteq> []"
  shows "tr_Run orders s set1 set2 False False False = of_runes (map upper_rune (runes s))"
proof -
  let ?T = "tr_config orders set1 set2 False False False"
  have "t_trans ?T = map_of (rev (map (\<lambda>r. (r, r - 97 + 65)) [97..<97 + 26]))"
    using assms tr_pairs_shift [of 97 26 65] by (simp add: tr_config_def Let_def)
  also have "\<dots> = (\<lambda>r. Some (r - 97 + 65)) |` {97..<97 + 26}"
    by (simp only: rev_map map_of_map_restrict set_rev set_upt comp_def)
  finally have t: "t_trans ?T r = (if 97 \<le> r \<and> r \<le> 122 then Some (r - 32) else None)" for r
    by (auto simp: restrict_map_def)
  have "out_rune ?T = upper_rune"
  proof
    fix r
    have "set (expandSetList (orders 1) set1) = {97..<97 + 26}" by (simp only: assms(2) set_upt)
    then have "in_set1 ?T r \<longleftrightarrow> 97 \<le> r \<and> r \<le> 122" by (auto simp: in_set1_def tr_config_def Let_def expandSet_list)
    moreover have "t_list2 ?T \<noteq> []" "\<not> t_delete ?T" "\<not> t_compl ?T" using assms(3,4) by (simp_all add: tr_config_def Let_def)
    ultimately show "out_rune ?T r = upper_rune r" using t [of r] by (auto simp: out_rune_def upper_rune_def)
  qed
  then show ?thesis by (simp add: tr_Run_def tr_loop_translate tr_config_def Let_def)
qed

section \<open>Properties\<close>

text \<open>C40. \<^verbatim>\<open>tr a-z A-Z\<close> and \<^verbatim>\<open>tr [:lower:] [:upper:]\<close> turn the lower-case ASCII letters into their upper-case letters and leave
  every other rune as it is, on every input and for every order in which the table of classes is traversed.\<close>

theorem tr_upcase:
  assumes "class_orders orders"
  shows "tr_Run orders s ''a-z'' ''A-Z'' False False False = of_runes (map upper_rune (runes s))
    \<and> tr_Run orders s ''[:lower:]'' ''[:upper:]'' False False False = of_runes (map upper_rune (runes s))"
proof
  have o: "set (orders n) = set charClasses" for n using assms by (simp add: class_orders_def)
  have "expandSetList (orders n) ''a-z'' = [97..<97 + 26]" "expandSetList (orders n) ''A-Z'' = [65..<65 + 26]" for n
    using expand_range [OF o, of "CHR ''a''" "CHR ''z''" n] expand_range [OF o, of "CHR ''A''" "CHR ''Z''" n]
    by (simp_all add: ascii_def code_def)
  then show "tr_Run orders s ''a-z'' ''A-Z'' False False False = of_runes (map upper_rune (runes s))"
    by (intro tr_Run_upper) simp_all
  have "expandSetList (orders n) ''[:lower:]'' = [97..<97 + 26]" "expandSetList (orders n) ''[:upper:]'' = [65..<65 + 26]" for n
    by (rule expand_class_list [OF o]; simp add: charClasses_def)+
  then show "tr_Run orders s ''[:lower:]'' ''[:upper:]'' False False False = of_runes (map upper_rune (runes s))"
    by (intro tr_Run_upper) simp_all
qed

theorem tr_upcase_witness:
  "tr_Run (\<lambda>_. rev charClasses) ''Hi-z'' ''a-z'' ''A-Z'' False False False = of_runes (map upper_rune (runes ''Hi-z''))
    \<and> tr_Run (\<lambda>_. rev charClasses) ''Hi-z'' ''[:lower:]'' ''[:upper:]'' False False False = of_runes (map upper_rune (runes ''Hi-z''))"
  by (rule tr_upcase) (simp add: class_orders_def)

text \<open>The specification of squeezing: of adjacent equal runes in the set, one is kept.\<close>

fun squeeze :: "(nat \<Rightarrow> bool) \<Rightarrow> nat list \<Rightarrow> nat list" where
  "squeeze P (a # b # rs) = (if a = b \<and> P a then squeeze P (b # rs) else a # squeeze P (b # rs))"
| "squeeze P rs = rs"

lemma tr_loop_squeeze:
  "\<not> t_delete T \<Longrightarrow> t_sq T \<Longrightarrow> t_list2 T = [] \<Longrightarrow> l # tr_loop T l rs = squeeze (in_set1 T) (l # rs)"
proof (induction rs arbitrary: l)
  case (Cons r rs)
  then show ?case using Cons.IH [of r] by (auto simp: in_squeeze_def out_rune_def)
qed simp

text \<open>\<^verbatim>\<open>tr -s SET\<close> keeps one of adjacent equal runes that are in the set and every other rune, on every input that does
  not start with U+FFFD or a byte that is not UTF-8.\<close>

theorem tr_squeezes:
  assumes "runes s = r # rs" and "r \<noteq> RuneError"
  shows "tr_Run orders s set1 [] False True c =
    of_runes (squeeze (in_set1 (tr_config orders set1 [] False True c)) (runes s))"
proof -
  let ?T = "tr_config orders set1 [] False True c"
  have "\<not> t_delete ?T" "t_sq ?T" "t_list2 ?T = []" by (simp_all add: tr_config_def Let_def)
  then show ?thesis using tr_loop_squeeze [of ?T r rs] assms by (simp add: tr_Run_def out_rune_def)
qed

theorem tr_squeezes_witness:
  "tr_Run (\<lambda>_. charClasses) ''aabb'' ''a'' [] False True False =
    of_runes (squeeze (in_set1 (tr_config (\<lambda>_. charClasses) ''a'' [] False True False)) (runes ''aabb''))"
  by (rule tr_squeezes [of _ 97 "[97, 98, 98]"]) (simp_all add: runes_code ascii_def code_def RuneError_def)

text \<open>Two inputs \<^verbatim>\<open>tr -s\<close> gets wrong: with two sets it translates nothing (\<^verbatim>\<open>tr -s a x\<close> leaves \<^verbatim>\<open>aab\<close> as it is), and a first
  U+FFFD in the set is taken for a repetition and dropped.\<close>

theorem tr_squeeze_defects:
  "tr_Run (\<lambda>_. charClasses) ''aab'' ''a'' ''x'' False True False = ''aab''
   \<and> tr_Run (\<lambda>_. charClasses) (encodeRune RuneError) (encodeRune RuneError) [] False True False = []"
proof
  have e: "expand_classes charClasses ''a'' = ''a''" "expand_classes charClasses ''x'' = ''x''"
    by (simp_all add: expand_classes_plain)
  have r: "runes ''a'' = [97]" "runes ''x'' = [120]" "runes ''aab'' = [97, 97, 98]"
    by (simp_all add: runes_code ascii_def code_def)
  show "tr_Run (\<lambda>_. charClasses) ''aab'' ''a'' ''x'' False True False = ''aab''"
    by (simp add: tr_Run_def tr_config_def expandSetList_def expandSet_def e r in_set1_def in_squeeze_def out_rune_def
        RuneError_def of_runes_ascii char_of_eq_iff) (simp add: code_def)
  have f: "encodeRune RuneError = [CHR 0xEF, CHR 0xBF, CHR 0xBD]"
    by (simp add: encodeRune_def valid_rune_def RuneError_def char_of_eq_iff code_def)
  have g: "runes [CHR 0xEF, CHR 0xBF, CHR 0xBD] = [RuneError]"
    by (simp add: runes_def range_runes.simps decode_multi_def code_def is_cont_def RuneError_def)
  have "expand_classes charClasses [CHR 0xEF, CHR 0xBF, CHR 0xBD] = [CHR 0xEF, CHR 0xBF, CHR 0xBD]"
    by (simp add: expand_classes_plain)
  then show "tr_Run (\<lambda>_. charClasses) (encodeRune RuneError) (encodeRune RuneError) [] False True False = []"
    unfolding f by (simp add: tr_Run_def tr_config_def expandSetList_def expandSet_def g in_set1_def in_squeeze_def out_rune_def
        of_runes_def)
qed

end
