(* ===== verification/Fold.thy ===== *)
theory Fold
  imports Cli
begin

text \<open>
  The utility \<^verbatim>\<open>fold\<close>: \<^verbatim>\<open>pkg/fold/fold.go\<close>.  The scanning loop moves its index back at a break, so it is a partial function
  whose value \<^const>\<open>None\<close> would be a loop that does not end; it is shown to return on every input.
\<close>

section \<open>The program\<close>

definition fold_spec :: FlagSpec where
  "fold_spec = mkSpec [mkFlag ''w'' ''width'' FlagValue, mkFlag ''b'' [] FlagBool, mkFlag ''s'' ''spaces'' FlagBool,
     mkFlag [] ''json'' FlagBool]"

text \<open>The search for a space before position \<open>i\<close>, back to \<open>start\<close>: the position after it, or \<open>i\<close>.\<close>

definition break_at :: "('a \<Rightarrow> bool) \<Rightarrow> 'a list \<Rightarrow> nat \<Rightarrow> nat \<Rightarrow> nat" where
  "break_at sp line start i =
     (let js = filter (\<lambda>j. sp (line ! j)) [start..<i] in if js = [] then i else Suc (last js))"

definition piece :: "'a list \<Rightarrow> nat \<Rightarrow> nat \<Rightarrow> 'a list" where
  "piece xs a b = take (b - a) (drop a xs)"

text \<open>The loops of \<^verbatim>\<open>foldLineBytes\<close> and \<^verbatim>\<open>foldLineRunes\<close>, which differ in the width of an element (\<open>adv\<close>), in the bytes
  of a piece (\<open>enc\<close>), in what a space is (\<open>sp\<close>), and in the branch for an element wider than a line, which
  only the first has (\<open>wide\<close>).\<close>

partial_function (option) fold_loop ::
  "('a \<Rightarrow> nat \<Rightarrow> nat) \<Rightarrow> ('a list \<Rightarrow> string) \<Rightarrow> ('a \<Rightarrow> bool) \<Rightarrow> bool \<Rightarrow> bool \<Rightarrow> nat \<Rightarrow> 'a list \<Rightarrow> nat \<Rightarrow> nat \<Rightarrow> nat \<Rightarrow> string
    \<Rightarrow> string option" where
  "fold_loop adv enc sp wide spaceBreak width line i start pos result =
     (if i < length line then
        (let advance = adv (line ! i) pos
         in if pos + advance > width \<and> pos > 0 then
              (let breakAt = (if spaceBreak then break_at sp line start i else i);
                   start' = (if spaceBreak \<and> breakAt < length line \<and> sp (line ! breakAt) then Suc breakAt else breakAt)
               in fold_loop adv enc sp wide spaceBreak width line start' start' 0
                    (result @ enc (piece line start breakAt) @ [NL]))
            else if wide \<and> pos = 0 \<and> advance > width then
              fold_loop adv enc sp wide spaceBreak width line (Suc i) (Suc i) 0 (result @ enc [line ! i] @ [NL])
            else fold_loop adv enc sp wide spaceBreak width line (Suc i) start (pos + advance) result)
      else Some (result @ (if start < length line then enc (drop start line) else [])))"

definition foldLineBytes :: "string \<Rightarrow> nat \<Rightarrow> bool \<Rightarrow> string option" where
  "foldLineBytes line width spaceBreak =
     fold_loop (\<lambda>c pos. 1) id (\<lambda>c. c = CHR '' '') True spaceBreak width line 0 0 0 []"

definition foldLineRunes :: "string \<Rightarrow> nat \<Rightarrow> bool \<Rightarrow> string option" where
  "foldLineRunes line width spaceBreak =
     fold_loop (\<lambda>r pos. if r = 9 then 8 - pos mod 8 else 1) of_runes (\<lambda>r. r = 32) False spaceBreak width (runes line) 0 0 0 []"

definition foldLine :: "string \<Rightarrow> int \<Rightarrow> bool \<Rightarrow> bool \<Rightarrow> string option" where
  "foldLine line width byteMode spaceBreak =
     (if line = [] then Some []
      else if width \<le> 0 then Some line
      else if byteMode then foldLineBytes line (nat width) spaceBreak
      else foldLineRunes line (nat width) spaceBreak)"

fun fold_lines :: "(string \<Rightarrow> string option) \<Rightarrow> string list \<Rightarrow> string list option" where
  "fold_lines f [] = Some []"
| "fold_lines f (l # ls) =
     (case f l of None \<Rightarrow> None | Some x \<Rightarrow> map_option ((#) x) (fold_lines f ls))"

definition Fold :: "string \<Rightarrow> int \<Rightarrow> bool \<Rightarrow> bool \<Rightarrow> string option" where
  "Fold dat width byteMode spaceBreak =
     (if dat = [] then Some []
      else
        (let hasTrailingNL = (last dat = NL);
             body = (if hasTrailingNL then butlast dat else dat)
         in map_option (\<lambda>ls. Join ls [NL] @ (if hasTrailingNL then [NL] else []))
              (fold_lines (\<lambda>l. foldLine l width byteMode spaceBreak) (Split body [NL]))))"

definition fold_width :: "string \<Rightarrow> int" where
  "fold_width w = (case (if w \<noteq> [] then ParseInt w else None) of Some v \<Rightarrow> if v > 0 then v else 80 | None \<Rightarrow> 80)"

definition trim_newline :: "string \<Rightarrow> string" where
  "trim_newline s = (if s \<noteq> [] \<and> last s = NL then butlast s else s)"

definition foldRun :: "files \<Rightarrow> string \<Rightarrow> string list \<Rightarrow> result option" where
  "foldRun fs stdin args =
     (case ParseFlags args fold_spec of
        Inl e \<Rightarrow> Some (flag_failure ''fold'' args e 2)
      | Inr flags \<Rightarrow>
          (case operands fs stdin (Positional flags) of
             Inl (p, e) \<Rightarrow> Some (1, [], ''fold: '' @ p @ '': '' @ e @ [NL])
           | Inr readers \<Rightarrow>
               map_option (\<lambda>out.
                 if Has flags ''json''
                 then (0, Render ''fold'' (JObj [(''lines'', JArr (map JStr (Split (trim_newline out) [NL])))]) True [], [])
                 else (0, out, []))
               (Fold (concat readers) (fold_width (Get flags ''w'')) (Has flags ''b'') (Has flags ''s''))))"

section \<open>The loop returns\<close>

lemma break_at_bounds:
  assumes "start < i"
  shows "start < break_at sp line start i \<and> break_at sp line start i \<le> i"
proof -
  let ?js = "filter (\<lambda>j. sp (line ! j)) [start..<i]"
  show ?thesis
  proof (cases "?js = []")
    case False
    then have "last ?js \<in> set ?js" by (rule last_in_set)
    then have "start \<le> last ?js" "last ?js < i" by auto
    then show ?thesis using False by (simp add: break_at_def Let_def)
  qed (use assms in \<open>simp add: break_at_def Let_def\<close>)
qed

text \<open>Between breaks the index advances; a break advances the start of the piece.\<close>

lemma fold_loop_returns:
  assumes "pos > 0 \<Longrightarrow> start < i" and "start \<le> i"
  shows "\<exists>out. fold_loop adv enc sp wide brk width line i start pos result = Some out"
  using assms
proof (induction "(Suc (length line) - start, Suc (length line) - i)" arbitrary: i start pos result rule: wf_induct_rule
    [OF wf_lex_prod [OF wf_less_than wf_less_than]])
  case 1
  note IH = "1.hyps"
  show ?case
  proof (cases "i < length line")
    case i: True
    let ?adv = "adv (line ! i) pos"
    consider "pos + ?adv > width \<and> pos > 0" | "\<not> (pos + ?adv > width \<and> pos > 0)" "wide \<and> pos = 0 \<and> ?adv > width"
      | "\<not> (pos + ?adv > width \<and> pos > 0)" "\<not> (wide \<and> pos = 0 \<and> ?adv > width)" by blast
    then show ?thesis
    proof cases
      case 1
      let ?b = "if brk then break_at sp line start i else i"
      let ?s = "if brk \<and> ?b < length line \<and> sp (line ! ?b) then Suc ?b else ?b"
      have "start < ?b" "?b \<le> i" using break_at_bounds [of start i sp line] "1.prems" 1 by auto
      then have "Suc (length line) - ?s < Suc (length line) - start" using i by auto
      then have "\<exists>out. fold_loop adv enc sp wide brk width line ?s ?s 0 (result @ enc (piece line start ?b) @ [NL]) = Some out"
        by (intro IH) auto
      then show ?thesis using i 1 by (subst fold_loop.simps) (simp add: Let_def)
    next
      case 2
      have "\<exists>out. fold_loop adv enc sp wide brk width line (Suc i) (Suc i) 0 (result @ enc [line ! i] @ [NL]) = Some out"
        using i "1.prems"(2) by (intro IH) auto
      then show ?thesis using i 2 by (subst fold_loop.simps) (auto simp: Let_def)
    next
      case 3
      have "\<exists>out. fold_loop adv enc sp wide brk width line (Suc i) start (pos + ?adv) result = Some out"
        using i "1.prems"(2) by (intro IH) auto
      then show ?thesis using i 3 by (subst fold_loop.simps) (auto simp: Let_def)
    qed
  qed (simp add: fold_loop.simps)
qed

lemma foldLine_returns: "\<exists>out. foldLine line width byteMode spaceBreak = Some out"
proof -
  have "\<exists>out. foldLineBytes line w spaceBreak = Some out" for w
    unfolding foldLineBytes_def by (rule fold_loop_returns) simp_all
  moreover have "\<exists>out. foldLineRunes line w spaceBreak = Some out" for w
    unfolding foldLineRunes_def by (rule fold_loop_returns) simp_all
  ultimately show ?thesis by (simp add: foldLine_def)
qed

lemma fold_lines_returns: "\<forall>l. \<exists>x. f l = Some x \<Longrightarrow> \<exists>xs. fold_lines f ls = Some xs"
proof (induction ls)
  case (Cons l ls)
  then obtain x xs where "f l = Some x" "fold_lines f ls = Some xs" by blast
  then show ?case by simp
qed simp

lemma Fold_returns: "\<exists>out. Fold dat width byteMode spaceBreak = Some out"
proof -
  have "\<exists>ls. fold_lines (\<lambda>l. foldLine l width byteMode spaceBreak) lines = Some ls" for lines
    by (intro fold_lines_returns allI foldLine_returns)
  then show ?thesis by (auto simp: Fold_def Let_def)
qed

lemma foldRun_returns: "foldRun fs stdin args \<noteq> None"
proof -
  have "Fold d w b s \<noteq> None" for d w b s using Fold_returns [of d w b s] by auto
  then show ?thesis by (simp add: foldRun_def del: not_None_eq split: sum.split prod.split)
qed

section \<open>Reference: pieces of a fixed width\<close>

function chunks :: "nat \<Rightarrow> 'a list \<Rightarrow> 'a list list" where
  "chunks w xs = (if w = 0 \<or> length xs \<le> w then [xs] else take w xs # chunks w (drop w xs))"
  by pat_completeness auto
termination
  by (relation "measure (length \<circ> snd)") auto

declare chunks.simps [simp del]

lemma chunks_not_Nil [simp]: "chunks w xs \<noteq> []"
  by (subst chunks.simps) simp

lemma concat_chunks: "concat (chunks w xs) = xs"
proof (induction w xs rule: chunks.induct)
  case (1 w xs)
  then show ?case by (subst chunks.simps) auto
qed

lemma length_chunks: "0 < w \<Longrightarrow> c \<in> set (chunks w xs) \<Longrightarrow> length c \<le> w"
proof (induction w xs rule: chunks.induct)
  case (1 w xs)
  then show ?case by (subst (asm) (2) chunks.simps) (auto split: if_splits)
qed

lemma fold_loop_chunks:
  assumes "0 < width"
  shows "start \<le> i \<Longrightarrow> i \<le> length line \<Longrightarrow> i - start \<le> width \<Longrightarrow> start < length line \<Longrightarrow>
    fold_loop (\<lambda>c pos. 1) id sp wide False width line i start (i - start) result =
      Some (result @ Join (chunks width (drop start line)) [NL])"
proof (induction "(Suc (length line) - start, Suc (length line) - i)" arbitrary: i start result rule: wf_induct_rule
    [OF wf_lex_prod [OF wf_less_than wf_less_than]])
  case 1
  note IH = "1.hyps"
  show ?case
  proof (cases "i < length line")
    case i: True
    show ?thesis
    proof (cases "i - start + 1 > width")
      case True
      then have w: "i = start + width" using "1.prems" by linarith
      have "fold_loop (\<lambda>c pos. 1) id sp wide False width line i i (i - i) (result @ piece line start i @ [NL]) =
          Some ((result @ piece line start i @ [NL]) @ Join (chunks width (drop i line)) [NL])"
        using i w assms by (intro IH) auto
      moreover have "chunks width (drop start line) = piece line start i # chunks width (drop i line)"
      proof -
        have "\<not> length (drop start line) \<le> width" using i w by simp
        then show ?thesis using w assms chunks.simps [of width "drop start line"] by (simp add: piece_def add.commute)
      qed
      ultimately show ?thesis using i w assms by (subst fold_loop.simps) (simp add: Join_Cons Let_def)
    next
      case False
      then have "fold_loop (\<lambda>c pos. 1) id sp wide False width line (Suc i) start (Suc i - start) result =
          Some (result @ Join (chunks width (drop start line)) [NL])"
        using i "1.prems" by (intro IH) auto
      then show ?thesis using i False assms "1.prems"(1) by (subst fold_loop.simps) (simp add: Suc_diff_le Let_def)
    qed
  next
    case False
    then have "chunks width (drop start line) = [drop start line]" using "1.prems" by (subst chunks.simps) auto
    then show ?thesis using False "1.prems" by (subst fold_loop.simps) simp
  qed
qed

section \<open>Properties\<close>

text \<open>C37. \<^verbatim>\<open>fold\<close> returns on every input, for every width and every combination of options, although a break moves the
  scanning index back.\<close>

theorem fold_returns: "\<exists>out. Fold dat width byteMode spaceBreak = Some out"
  by (rule Fold_returns)

text \<open>C38. \<^verbatim>\<open>fold -b\<close> cuts a line into pieces of the width, joined by newlines: no piece is longer than the width, and
  without the inserted newlines the pieces are the line.\<close>

theorem fold_bytes_pieces:
  assumes "0 < width" and "line \<noteq> []"
  shows "foldLine line width True False = Some (Join (chunks (nat width) line) [NL])
    \<and> concat (chunks (nat width) line) = line \<and> list_all (\<lambda>c. length c \<le> nat width) (chunks (nat width) line)"
proof (intro conjI)
  show "foldLine line width True False = Some (Join (chunks (nat width) line) [NL])"
    using fold_loop_chunks [of "nat width" 0 0 line _ True "[]"] assms by (simp add: foldLine_def foldLineBytes_def)
  show "list_all (\<lambda>c. length c \<le> nat width) (chunks (nat width) line)"
    using length_chunks [of "nat width" _ line] assms(1) by (auto simp: list_all_iff)
qed (rule concat_chunks)

theorem fold_bytes_pieces_witness:
  "foldLine ''abcdefg'' 3 True False = Some (Join (chunks (nat 3) ''abcdefg'') [NL])
    \<and> concat (chunks (nat 3) ''abcdefg'') = ''abcdefg'' \<and> list_all (\<lambda>c. length c \<le> nat 3) (chunks (nat 3) ''abcdefg'')"
  by (rule fold_bytes_pieces) simp_all

text \<open>With \<^verbatim>\<open>-s\<close> a space is lost when it follows a break: \<^verbatim>\<open>fold -b -s -w 5\<close> prints \<^verbatim>\<open>aaaaa bbb\<close> as the lines \<^verbatim>\<open>aaaaa\<close> and
  \<^verbatim>\<open>bbb\<close>, where only a newline was to be inserted.\<close>

theorem fold_space_lost: "foldLine ''aaaaa bbb'' 5 True True = Some (''aaaaa'' @ [NL] @ ''bbb'')"
  by (simp add: foldLine_def foldLineBytes_def fold_loop.simps break_at_def piece_def Let_def eval_nat_numeral)

end
