(* ===== verification/Cursor.thy ===== *)
theory Cursor
  imports Cli
begin

text \<open>
  The token cursor of \<^verbatim>\<open>pkg/common/cursor.go\<close>, as the list of the tokens that are left, and the parsing loops that \<^verbatim>\<open>expr\<close> and
  \<^verbatim>\<open>test\<close> build on it.  A parse is \<^const>\<open>None\<close> when its fuel is used up (shown never to happen), \<open>Some (Inl e)\<close> for an
  error and \<open>Some (Inr (v, ts))\<close> for the value \<open>v\<close> with the tokens \<open>ts\<close> left.
\<close>

section \<open>The cursor\<close>

type_synonym tokens = "string list"
type_synonym ('e, 'v) parse = "('e + 'v \<times> tokens) option"

definition Peek :: "tokens \<Rightarrow> string" where
  "Peek ts = (case ts of [] \<Rightarrow> [] | t # _ \<Rightarrow> t)"

definition Next :: "tokens \<Rightarrow> string \<times> tokens" where
  "Next ts = (Peek ts, tl ts)"

definition Done :: "tokens \<Rightarrow> bool" where
  "Done ts \<longleftrightarrow> ts = []"

definition Lookahead :: "tokens \<Rightarrow> nat \<Rightarrow> string" where
  "Lookahead ts n = (if n < length ts then ts ! n else [])"

definition HasToken :: "tokens \<Rightarrow> nat \<Rightarrow> bool" where
  "HasToken ts n \<longleftrightarrow> n < length ts"

section \<open>Parsing\<close>

fun pbind :: "('e, 'a) parse \<Rightarrow> ('a \<Rightarrow> tokens \<Rightarrow> ('e, 'b) parse) \<Rightarrow> ('e, 'b) parse" where
  "pbind None f = None"
| "pbind (Some (Inl e)) f = Some (Inl e)"
| "pbind (Some (Inr (v, ts))) f = f v ts"

definition lift_act :: "'e + 'v \<Rightarrow> tokens \<Rightarrow> ('e, 'v) parse" where
  "lift_act r ts = (case r of Inl e \<Rightarrow> Some (Inl e) | Inr v \<Rightarrow> Some (Inr (v, ts)))"

text \<open>A loop over operators of one level: \<open>act\<close> combines the values, \<open>sub\<close> parses an operand.\<close>

fun opLoop :: "nat \<Rightarrow> string list \<Rightarrow> (string \<Rightarrow> 'v \<Rightarrow> 'v \<Rightarrow> 'e + 'v) \<Rightarrow> (tokens \<Rightarrow> ('e, 'v) parse) \<Rightarrow> 'v \<Rightarrow> tokens \<Rightarrow> ('e, 'v) parse" where
  "opLoop 0 ops act sub left ts = None"
| "opLoop (Suc n) ops act sub left ts =
     (if Peek ts \<in> set ops then
        pbind (sub (snd (Next ts))) (\<lambda>right ts'.
          case act (Peek ts) left right of
            Inl e \<Rightarrow> Some (Inl e)
          | Inr v \<Rightarrow> opLoop n ops act sub v ts')
      else Some (Inr (left, ts)))"

definition level :: "string list \<Rightarrow> (string \<Rightarrow> 'v \<Rightarrow> 'v \<Rightarrow> 'e + 'v) \<Rightarrow> (tokens \<Rightarrow> ('e, 'v) parse) \<Rightarrow> tokens \<Rightarrow> ('e, 'v) parse" where
  "level ops act sub ts = pbind (sub ts) (\<lambda>left ts'. opLoop (Suc (length ts')) ops act sub left ts')"

section \<open>Every parse consumes tokens and returns\<close>

definition consumes :: "(tokens \<Rightarrow> ('e, 'v) parse) \<Rightarrow> bool" where
  "consumes sub \<longleftrightarrow> (\<forall>ts v ts'. sub ts = Some (Inr (v, ts')) \<longrightarrow> length ts' \<le> length ts)"

definition returned :: "('e, 'v) parse \<Rightarrow> bool" where
  "returned p \<longleftrightarrow> p \<noteq> None"

definition returns_below :: "nat \<Rightarrow> (tokens \<Rightarrow> ('e, 'v) parse) \<Rightarrow> bool" where
  "returns_below n sub \<longleftrightarrow> (\<forall>ts. length ts < n \<longrightarrow> returned (sub ts))"

lemma consumesD: "consumes sub \<Longrightarrow> sub ts = Some (Inr (v, ts')) \<Longrightarrow> length ts' \<le> length ts"
  by (simp add: consumes_def)

lemma pbind_value: "pbind p f = Some (Inr r) \<longleftrightarrow> (\<exists>v ts. p = Some (Inr (v, ts)) \<and> f v ts = Some (Inr r))"
  by (cases "(p, f)" rule: pbind.cases) auto

lemma pbind_None: "pbind p f = None \<longleftrightarrow> p = None \<or> (\<exists>v ts. p = Some (Inr (v, ts)) \<and> f v ts = None)"
  by (cases "(p, f)" rule: pbind.cases) auto

lemma Next_snd [simp]: "snd (Next ts) = tl ts"
  by (simp add: Next_def)

lemma Peek_simps [simp]: "Peek [] = []" "Peek (t # ts) = t"
  by (simp_all add: Peek_def)

lemma lift_act_value: "lift_act r ts = Some (Inr (v, ts')) \<Longrightarrow> ts' = ts"
  by (auto simp: lift_act_def split: sum.splits)

lemma returned_simps [simp]: "returned (Some x)" "\<not> returned None" "returned (lift_act r ts)"
  by (auto simp: returned_def lift_act_def split: sum.splits)

definition shorter :: "nat \<Rightarrow> ('e, 'v) parse \<Rightarrow> bool" where
  "shorter k p \<longleftrightarrow> (\<forall>v ts. p = Some (Inr (v, ts)) \<longrightarrow> length ts < k)"

lemma shorter_pbind: "(\<And>v ts. p = Some (Inr (v, ts)) \<Longrightarrow> shorter k (f v ts)) \<Longrightarrow> shorter k (pbind p f)"
  by (auto simp: shorter_def pbind_value)

lemma shorter_lift: "length ts < k \<Longrightarrow> shorter k (lift_act r ts)"
  by (auto simp: shorter_def dest: lift_act_value)

lemma shorter_simps [simp]: "shorter k (Some (Inl e))" "shorter k None" "shorter k (Some (Inr (v, ts))) \<longleftrightarrow> length ts < k"
  by (auto simp: shorter_def)

lemma consumes_shorter: "consumes sub \<longleftrightarrow> (\<forall>ts. shorter (Suc (length ts)) (sub ts))"
  by (auto simp: consumes_def shorter_def less_Suc_eq_le)

lemma Peek_op: "Peek ts \<in> set ops \<Longrightarrow> [] \<notin> set ops \<Longrightarrow> length (tl ts) < length ts"
  by (cases ts) auto

lemma returned_pbind: "returned p \<Longrightarrow> (\<And>v ts. p = Some (Inr (v, ts)) \<Longrightarrow> returned (f v ts)) \<Longrightarrow> returned (pbind p f)"
  by (auto simp: returned_def pbind_None)

lemma opLoop_consumes:
  assumes "consumes sub"
  shows "length ts < k \<Longrightarrow> shorter k (opLoop n ops act sub left ts)"
proof (induction n arbitrary: left ts)
  case (Suc n)
  show ?case
  proof (cases "Peek ts \<in> set ops")
    case True
    have "shorter k (case act (Peek ts) left r of Inl e \<Rightarrow> Some (Inl e) | Inr v \<Rightarrow> opLoop n ops act sub v ts1)"
      if "sub (tl ts) = Some (Inr (r, ts1))" for r ts1
      using consumesD [OF assms that] Suc.prems Suc.IH [of ts1] by (auto split: sum.splits)
    then show ?thesis using True by (auto intro: shorter_pbind)
  qed (use Suc in simp)
qed simp

lemma opLoop_returns:
  assumes "consumes sub" and "returns_below n sub" and "[] \<notin> set ops"
  shows "length ts < n \<Longrightarrow> length ts < k \<Longrightarrow> returned (opLoop k ops act sub left ts)"
proof (induction k arbitrary: left ts)
  case (Suc k)
  have "returned (sub (tl ts))" using assms(2) Suc.prems by (simp add: returns_below_def)
  moreover have "returned (case act (Peek ts) left r of Inl e \<Rightarrow> Some (Inl e) | Inr v \<Rightarrow> opLoop k ops act sub v ts1)"
    if "sub (tl ts) = Some (Inr (r, ts1))" "Peek ts \<in> set ops" for r ts1
    using consumesD [OF assms(1) that(1)] Peek_op [OF that(2) assms(3)] Suc.prems Suc.IH [of ts1] by (auto split: sum.splits)
  ultimately show ?case by (auto intro!: returned_pbind)
qed simp

lemma level_consumes: "consumes sub \<Longrightarrow> consumes (level ops act sub)"
  unfolding consumes_shorter [of "level ops act sub"] level_def
  by (intro allI shorter_pbind opLoop_consumes) (simp_all add: consumesD less_Suc_eq_le)

lemma level_returns:
  assumes "consumes sub" and "returns_below n sub" and "[] \<notin> set ops"
  shows "returns_below n (level ops act sub)"
proof -
  have "returned (opLoop (Suc (length ts')) ops act sub v ts')" if "sub ts = Some (Inr (v, ts'))" "length ts < n" for ts v ts'
    using consumesD [OF assms(1) that(1)] that(2) by (intro opLoop_returns [OF assms]) auto
  then show ?thesis using assms(2) unfolding returns_below_def level_def by (simp add: returned_pbind del: opLoop.simps)
qed

lemma pbind_cong: "(\<And>v ts. p = Some (Inr (v, ts)) \<Longrightarrow> f v ts = g v ts) \<Longrightarrow> pbind p f = pbind p g"
  by (cases "(p, f)" rule: pbind.cases) auto

lemma opLoop_fuel:
  assumes "consumes sub" and "[] \<notin> set os"
  shows "length ts < n \<Longrightarrow> length ts < m \<Longrightarrow> opLoop n os act sub left ts = opLoop m os act sub left ts"
proof (induction n arbitrary: m left ts)
  case (Suc n)
  then obtain m' where m: "m = Suc m'" by (cases m) auto
  have "(case act (Peek ts) left r of Inl e \<Rightarrow> Some (Inl e) | Inr v \<Rightarrow> opLoop n os act sub v ts1) =
      (case act (Peek ts) left r of Inl e \<Rightarrow> Some (Inl e) | Inr v \<Rightarrow> opLoop m' os act sub v ts1)"
    if "sub (tl ts) = Some (Inr (r, ts1))" "Peek ts \<in> set os" for r ts1
    using consumesD [OF assms(1) that(1)] Peek_op [OF that(2) assms(2)] Suc.prems Suc.IH [of ts1 m'] m by (auto split: sum.splits)
  then have "Peek ts \<in> set os \<Longrightarrow> pbind (sub (tl ts)) (\<lambda>r ts1. case act (Peek ts) left r of Inl e \<Rightarrow> Some (Inl e) | Inr v \<Rightarrow> opLoop n os act sub v ts1) =
      pbind (sub (tl ts)) (\<lambda>r ts1. case act (Peek ts) left r of Inl e \<Rightarrow> Some (Inl e) | Inr v \<Rightarrow> opLoop m' os act sub v ts1)"
    by (intro pbind_cong)
  then show ?case by (simp add: m)
qed simp

section \<open>Levels of precedence\<close>

text \<open>What may follow an operand of level \<open>k\<close>, the rest of the parse at that level, and that the tokens \<open>p\<close> are parsed at
  level \<open>k\<close> with the result \<open>r\<close>, whatever follows.\<close>

definition ends :: "(nat \<Rightarrow> string list) \<Rightarrow> nat \<Rightarrow> (string \<Rightarrow> bool) \<Rightarrow> nat \<Rightarrow> tokens \<Rightarrow> bool" where
  "ends ops hi follow k ts \<longleftrightarrow> follow (Peek ts) \<and> (\<forall>j. k < j \<and> j < hi \<longrightarrow> Peek ts \<notin> set (ops j))"

definition cont :: "(nat \<Rightarrow> tokens \<Rightarrow> ('e, 'v) parse) \<Rightarrow> (nat \<Rightarrow> string list) \<Rightarrow> (nat \<Rightarrow> string \<Rightarrow> 'v \<Rightarrow> 'v \<Rightarrow> 'e + 'v) \<Rightarrow> nat \<Rightarrow> nat \<Rightarrow> 'v
    \<Rightarrow> tokens \<Rightarrow> ('e, 'v) parse" where
  "cont plev ops acts hi k v ts =
     (if k < hi then opLoop (Suc (length ts)) (ops k) (acts k) (plev (Suc k)) v ts else Some (Inr (v, ts)))"

definition parses :: "(nat \<Rightarrow> tokens \<Rightarrow> ('e, 'v) parse) \<Rightarrow> (nat \<Rightarrow> string list) \<Rightarrow> (nat \<Rightarrow> string \<Rightarrow> 'v \<Rightarrow> 'v \<Rightarrow> 'e + 'v) \<Rightarrow> nat
    \<Rightarrow> (string \<Rightarrow> bool) \<Rightarrow> nat \<Rightarrow> tokens \<Rightarrow> 'e + 'v \<Rightarrow> bool" where
  "parses plev ops acts hi follow k p r \<longleftrightarrow>
     (\<forall>ts. ends ops hi follow k ts \<longrightarrow>
        plev k (p @ ts) = (case r of Inl e \<Rightarrow> Some (Inl e) | Inr v \<Rightarrow> cont plev ops acts hi k v ts))"

lemma cont_stop: "(k < hi \<Longrightarrow> Peek ts \<notin> set (ops k)) \<Longrightarrow> cont plev ops acts hi k v ts = Some (Inr (v, ts))"
  by (simp add: cont_def)

text \<open>A parser in levels: each level below the top is a loop over its operators with the next level as operands, no
  operator belongs to two levels, and every operator may follow an operand.\<close>

locale precedence_parser =
  fixes plev :: "nat \<Rightarrow> tokens \<Rightarrow> ('e, 'v) parse" and ops :: "nat \<Rightarrow> string list"
    and acts :: "nat \<Rightarrow> string \<Rightarrow> 'v \<Rightarrow> 'v \<Rightarrow> 'e + 'v" and hi :: nat and follow :: "string \<Rightarrow> bool"
  assumes plev_level: "k < hi \<Longrightarrow> plev k = level (ops k) (acts k) (plev (Suc k))"
    and hi_consumes: "consumes (plev hi)"
    and ops_not_empty: "k < hi \<Longrightarrow> [] \<notin> set (ops k)"
    and ops_apart: "j < hi \<Longrightarrow> i < hi \<Longrightarrow> o1 \<in> set (ops j) \<Longrightarrow> o1 \<in> set (ops i) \<Longrightarrow> i = j"
    and ops_follow: "j < hi \<Longrightarrow> o1 \<in> set (ops j) \<Longrightarrow> follow o1"
begin

lemma plev_consumes: "k \<le> hi \<Longrightarrow> consumes (plev k)"
proof (induction k rule: inc_induct)
  case base
  show ?case by (rule hi_consumes)
next
  case (step k)
  show ?case unfolding plev_level [OF step.hyps(2)] by (rule level_consumes [OF step.IH])
qed

lemma cont_step:
  assumes "k < hi" and "o1 \<in> set (ops k)" and "plev (Suc k) ts = Some (Inr (w, ts1))"
  shows "cont plev ops acts hi k v (o1 # ts) =
    (case acts k o1 v w of Inl e \<Rightarrow> Some (Inl e) | Inr x \<Rightarrow> cont plev ops acts hi k x ts1)"
proof -
  have c: "consumes (plev (Suc k))" using assms(1) by (intro plev_consumes) simp
  have "length ts1 \<le> length ts" using consumesD [OF c assms(3)] .
  then have "opLoop (Suc (length ts)) (ops k) (acts k) (plev (Suc k)) x ts1 =
      opLoop (Suc (length ts1)) (ops k) (acts k) (plev (Suc k)) x ts1" for x
    using ops_not_empty [OF assms(1)] by (intro opLoop_fuel [OF c]) auto
  then show ?thesis using assms by (simp add: cont_def split: sum.splits)
qed

lemma parses_down:
  assumes p: "parses plev ops acts hi follow (Suc k) p r" and k: "k < hi"
  shows "parses plev ops acts hi follow k p r"
  unfolding parses_def
proof (intro allI impI)
  fix ts assume e: "ends ops hi follow k ts"
  have "ends ops hi follow (Suc k) ts" using e by (auto simp: ends_def)
  moreover have "cont plev ops acts hi (Suc k) v ts = Some (Inr (v, ts))" for v
    using e by (intro cont_stop) (auto simp: ends_def)
  ultimately show "plev k (p @ ts) = (case r of Inl e \<Rightarrow> Some (Inl e) | Inr v \<Rightarrow> cont plev ops acts hi k v ts)"
    using p k by (auto simp: parses_def plev_level [OF k] level_def cont_def split: sum.splits)
qed

lemma parses_below:
  assumes "parses plev ops acts hi follow m p r" and "l \<le> m" and "m \<le> hi"
  shows "parses plev ops acts hi follow l p r"
  using assms(2,1)
proof (induction l rule: inc_induct)
  case (step k)
  then show ?case using assms(3) parses_down [of k p r] by simp
qed

lemma parses_op:
  assumes j: "j < hi" "o1 \<in> set (ops j)" and a: "parses plev ops acts hi follow j pa ra"
    and b: "parses plev ops acts hi follow (Suc j) pb rb"
  shows "parses plev ops acts hi follow j (pa @ o1 # pb) (res_bind ra (\<lambda>x. res_bind rb (\<lambda>y. acts j o1 x y)))"
  unfolding parses_def
proof (intro allI impI)
  let ?cont = "cont plev ops acts hi"
  fix ts assume e: "ends ops hi follow j ts"
  have "ends ops hi follow j (o1 # pb @ ts)" using ops_apart [OF j(1) _ j(2)] ops_follow [OF j] by (auto simp: ends_def)
  then have l: "plev j (pa @ o1 # pb @ ts) = (case ra of Inl e \<Rightarrow> Some (Inl e) | Inr v \<Rightarrow> ?cont j v (o1 # pb @ ts))"
    using a by (simp add: parses_def)
  have "ends ops hi follow (Suc j) ts" using e by (auto simp: ends_def)
  moreover have "?cont (Suc j) y ts = Some (Inr (y, ts))" for y using e by (intro cont_stop) (auto simp: ends_def)
  ultimately have r: "plev (Suc j) (pb @ ts) = (case rb of Inl e \<Rightarrow> Some (Inl e) | Inr y \<Rightarrow> Some (Inr (y, ts)))"
    using b by (simp add: parses_def split: sum.splits)
  have "?cont j x (o1 # pb @ ts) =
      (case res_bind rb (\<lambda>y. acts j o1 x y) of Inl e \<Rightarrow> Some (Inl e) | Inr v \<Rightarrow> ?cont j v ts)" for x
  proof (cases rb)
    case (Inl err)
    then show ?thesis using r j by (simp add: cont_def)
  next
    case (Inr y)
    then show ?thesis using r cont_step [OF j, of "pb @ ts" y ts x] by simp
  qed
  then show "plev j ((pa @ o1 # pb) @ ts) =
      (case res_bind ra (\<lambda>x. res_bind rb (\<lambda>y. acts j o1 x y)) of Inl e \<Rightarrow> Some (Inl e) | Inr v \<Rightarrow> ?cont j v ts)"
    using l by (cases ra) simp_all
qed

end

end
