(* ===== verification/Expr.thy ===== *)
theory Expr
  imports Cursor
begin

text \<open>
  The utility \<^verbatim>\<open>expr\<close>: \<^verbatim>\<open>pkg/expr/expr.go\<close>.  Regular expressions are the argument \<open>re\<close>:
  \<^verbatim>\<open>regexp.Compile\<close>, and for a pattern that compiles its \<^verbatim>\<open>FindStringSubmatch\<close>.
\<close>

section \<open>The program\<close>

type_synonym regex = "string \<Rightarrow> string + (string \<Rightarrow> string list option)"

text \<open>Why a parse stops: the errors the code returns, and \<open>SliceRange\<close> for the run-time panic of a slice expression out of
  range, which is no error value: \<open>Eval\<close> and the command turn it into the outcome \<open>Panics\<close>.\<close>

datatype experr = MissingOperand | UnexpectedToken string | SyntaxError | ExpectedParen | UnexpectedEnd
  | NonInteger | DivisionByZero | InvalidRegex string | SliceRange

type_synonym eparse = "(experr, string) parse"

definition exitCode :: "string \<Rightarrow> int" where
  "exitCode result = (if result = [] \<or> result = ''0'' then 1 else 0)"

definition null_value :: "string \<Rightarrow> bool" where
  "null_value v \<longleftrightarrow> v = [] \<or> v = ''0''"

definition orResult :: "string \<Rightarrow> string \<Rightarrow> string \<Rightarrow> experr + string" where
  "orResult op left right = Inr (if left \<noteq> [] \<and> left \<noteq> ''0'' then left else right)"

definition andResult :: "string \<Rightarrow> string \<Rightarrow> string \<Rightarrow> experr + string" where
  "andResult op left right = Inr (if null_value left \<or> null_value right then ''0'' else left)"

definition cmpResult :: "string \<Rightarrow> string \<Rightarrow> string \<Rightarrow> string" where
  "cmpResult left op right =
     (case (ParseInt left, ParseInt right) of
        (Some ln, Some rn) \<Rightarrow>
          (if (op = ''='' \<and> ln = rn) \<or> (op = ''!='' \<and> ln \<noteq> rn) \<or> (op = ''<'' \<and> ln < rn) \<or> (op = ''<='' \<and> ln \<le> rn)
              \<or> (op = ''>'' \<and> ln > rn) \<or> (op = ''>='' \<and> ln \<ge> rn) then ''1'' else ''0'')
      | _ \<Rightarrow>
          (if (op = ''='' \<and> left = right) \<or> (op = ''!='' \<and> left \<noteq> right) \<or> (op = ''<'' \<and> str_less left right)
              \<or> (op = ''<='' \<and> (str_less left right \<or> left = right)) \<or> (op = ''>'' \<and> str_less right left)
              \<or> (op = ''>='' \<and> (str_less right left \<or> left = right)) then ''1'' else ''0''))"

definition cmpAct :: "string \<Rightarrow> string \<Rightarrow> string \<Rightarrow> experr + string" where
  "cmpAct op left right = Inr (cmpResult left op right)"

definition addResult :: "string \<Rightarrow> string \<Rightarrow> string \<Rightarrow> experr + string" where
  "addResult op left right =
     (case (ParseInt left, ParseInt right) of
        (Some ln, Some rn) \<Rightarrow> Inr (Itoa (wrap64 (if op = ''+'' then ln + rn else ln - rn)))
      | _ \<Rightarrow> Inl NonInteger)"

definition mulResult :: "string \<Rightarrow> string \<Rightarrow> string \<Rightarrow> experr + string" where
  "mulResult op left right =
     (case (ParseInt left, ParseInt right) of
        (Some ln, Some rn) \<Rightarrow>
          (if op = ''*'' then Inr (Itoa (wrap64 (ln * rn)))
           else if rn = 0 then Inl DivisionByZero
           else if op = ''/'' then Inr (Itoa (go_div ln rn))
           else Inr (Itoa (go_mod ln rn)))
      | _ \<Rightarrow> Inl NonInteger)"

definition matchStr :: "regex \<Rightarrow> string \<Rightarrow> string \<Rightarrow> experr + string" where
  "matchStr re str pattern0 =
     (let pattern = (if \<not> prefix ''^'' pattern0 then ''^'' @ pattern0 else pattern0)
      in case re pattern of
           Inl e \<Rightarrow> Inl (InvalidRegex e)
         | Inr submatch \<Rightarrow>
             (case submatch str of
                None \<Rightarrow> Inr (if Contains pattern ''('' then [] else ''0'')
              | Some m \<Rightarrow> Inr (if length m > 1 then m ! 1 else Itoa (int (length (hd m))))))"

definition substrStr :: "string \<Rightarrow> string \<Rightarrow> string \<Rightarrow> experr + string" where
  "substrStr str posStr lenStr =
     (case (ParseInt posStr, ParseInt lenStr) of
        (Some pos0, Some len) \<Rightarrow>
          (let pos = (if pos0 < 1 then 1 else pos0);
               start = pos - 1
           in if start \<ge> int (length str) then Inr []
              else
                (let end0 = wrap64 (start + len);
                     en = (if end0 > int (length str) then int (length str) else end0)
                 in if start \<le> en then Inr (take (nat (en - start)) (drop (nat start) str)) else Inl SliceRange))
      | _ \<Rightarrow> Inl NonInteger)"

text \<open>\<^verbatim>\<open>strings.ContainsRune(chars, c)\<close>: the rune of an invalid byte is found at an invalid byte or an encoded U+FFFD.\<close>

definition indexStr :: "string \<Rightarrow> string \<Rightarrow> string" where
  "indexStr str chars =
     (case filter (\<lambda>(i, r). r \<in> set (runes chars)) (range_runes 0 str) of
        [] \<Rightarrow> ''0''
      | (i, r) # _ \<Rightarrow> Itoa (int i + 1))"

text \<open>The levels, over the parser \<open>prim\<close> for primaries.\<close>

definition parseUnary :: "regex \<Rightarrow> (tokens \<Rightarrow> eparse) \<Rightarrow> tokens \<Rightarrow> eparse" where
  "parseUnary re prim ts =
     (let tok = Peek ts; ts1 = snd (Next ts)
      in if tok = ''match'' then
           pbind (prim ts1) (\<lambda>str ts2. pbind (prim ts2) (\<lambda>pat ts3. lift_act (matchStr re str pat) ts3))
         else if tok = ''substr'' then
           pbind (prim ts1) (\<lambda>str ts2. pbind (prim ts2) (\<lambda>posStr ts3. pbind (prim ts3) (\<lambda>lenStr ts4.
             lift_act (substrStr str posStr lenStr) ts4)))
         else if tok = ''index'' then
           pbind (prim ts1) (\<lambda>str ts2. pbind (prim ts2) (\<lambda>chars ts3. Some (Inr (indexStr str chars, ts3))))
         else if tok = ''length'' then
           (if Done ts1 \<or> Peek ts1 = '')'' \<or> Peek ts1 = ''|'' \<or> Peek ts1 = ''&'' then Some (Inl SyntaxError)
            else pbind (prim ts1) (\<lambda>str ts2. Some (Inr (Itoa (int (length str)), ts2))))
         else prim ts)"

definition parseMul :: "regex \<Rightarrow> (tokens \<Rightarrow> eparse) \<Rightarrow> tokens \<Rightarrow> eparse" where
  "parseMul re prim = level [''*'', ''/'', ''%''] mulResult (parseUnary re prim)"

definition parseAdd :: "regex \<Rightarrow> (tokens \<Rightarrow> eparse) \<Rightarrow> tokens \<Rightarrow> eparse" where
  "parseAdd re prim = level [''+'', ''-''] addResult (parseMul re prim)"

definition parseCmp :: "regex \<Rightarrow> (tokens \<Rightarrow> eparse) \<Rightarrow> tokens \<Rightarrow> eparse" where
  "parseCmp re prim = level [''='', ''!='', ''<'', ''<='', ''>'', ''>=''] cmpAct (parseAdd re prim)"

definition parseAnd :: "regex \<Rightarrow> (tokens \<Rightarrow> eparse) \<Rightarrow> tokens \<Rightarrow> eparse" where
  "parseAnd re prim = level [''&''] andResult (parseCmp re prim)"

definition parseOr :: "regex \<Rightarrow> (tokens \<Rightarrow> eparse) \<Rightarrow> tokens \<Rightarrow> eparse" where
  "parseOr re prim = level [''|''] orResult (parseAnd re prim)"

fun parsePrimary :: "nat \<Rightarrow> regex \<Rightarrow> tokens \<Rightarrow> eparse" where
  "parsePrimary 0 re ts = None"
| "parsePrimary (Suc n) re ts =
     (let tok = Peek ts; ts1 = snd (Next ts)
      in if tok = ''('' then
           pbind (parseOr re (parsePrimary n re) ts1) (\<lambda>result ts2.
             if Peek ts2 \<noteq> '')'' then Some (Inl ExpectedParen) else Some (Inr (result, snd (Next ts2))))
         else if tok = [] then Some (Inl UnexpectedEnd)
         else if Peek ts1 = '':'' then
           pbind (parsePrimary n re (snd (Next ts1))) (\<lambda>pat ts3. lift_act (matchStr re tok pat) ts3)
         else Some (Inr (tok, ts1)))"

datatype 'a outcome = Returns 'a | Panics | Diverges

definition Eval :: "regex \<Rightarrow> tokens \<Rightarrow> (experr + string \<times> int) outcome" where
  "Eval re tokens =
     (if tokens = [] then Returns (Inl MissingOperand)
      else
        (case parseOr re (parsePrimary (Suc (length tokens)) re) tokens of
           None \<Rightarrow> Diverges
         | Some (Inl e) \<Rightarrow> if e = SliceRange then Panics else Returns (Inl e)
         | Some (Inr (result, ts)) \<Rightarrow>
             if \<not> Done ts then Returns (Inl (UnexpectedToken (Peek ts))) else Returns (Inr (result, exitCode result))))"

text \<open>The texts of the errors; \<open>quote\<close> is \<^verbatim>\<open>%q\<close>.  A panic has none.\<close>

fun expr_message :: "(string \<Rightarrow> string) \<Rightarrow> experr \<Rightarrow> string" where
  "expr_message quote MissingOperand = ''missing operand''"
| "expr_message quote (UnexpectedToken t) = ''syntax error: unexpected '' @ quote t"
| "expr_message quote SyntaxError = ''syntax error''"
| "expr_message quote ExpectedParen = ''syntax error: expected '' @ [CHR 0x27, CHR '')'', CHR 0x27]"
| "expr_message quote UnexpectedEnd = ''syntax error: unexpected end of expression''"
| "expr_message quote NonInteger = ''non-integer argument''"
| "expr_message quote DivisionByZero = ''division by zero''"
| "expr_message quote (InvalidRegex e) = ''invalid regex: '' @ e"
| "expr_message quote SliceRange = []"

definition ExprResult_json :: "string \<Rightarrow> int \<Rightarrow> json" where
  "ExprResult_json r c = JObj [(''result'', JStr r), (''exitCode'', JInt c)]"

definition expr_run :: "regex \<Rightarrow> (string \<Rightarrow> string) \<Rightarrow> string list \<Rightarrow> result outcome" where
  "expr_run re quote args =
     (let jsonMode = (''--json'' \<in> set args);
          posArgs = filter (\<lambda>a. a \<noteq> ''--json'') args
      in case Eval re posArgs of
           Diverges \<Rightarrow> Diverges
         | Panics \<Rightarrow> Panics
         | Returns (Inl e) \<Rightarrow>
             Returns (2, RenderError ''expr'' 2 ''SYNTAX'' (expr_message quote e) jsonMode,
                      if \<not> jsonMode then ''expr: '' @ expr_message quote e @ [NL] else [])
         | Returns (Inr (result, c)) \<Rightarrow>
             Returns (c, Render ''expr'' (ExprResult_json result c) jsonMode (result @ [NL]), []))"

section \<open>Every parse consumes tokens and returns\<close>

lemma unary_consumes:
  assumes "consumes prim"
  shows "consumes (parseUnary re prim)"
  unfolding consumes_shorter parseUnary_def Let_def
  by (auto intro!: shorter_pbind shorter_lift dest!: consumesD [OF assms] simp: assms [unfolded consumes_shorter] less_Suc_eq_le)

lemma unary_returns:
  assumes "consumes prim" and "returns_below n prim"
  shows "returns_below n (parseUnary re prim)"
proof -
  have step: "length ts2 < n" if "prim ts1 = Some (Inr (v, ts2))" "length ts1 < n" for v ts1 ts2
    using consumesD [OF assms(1) that(1)] that(2) by simp
  have p: "length ts1 < n \<Longrightarrow> returned (prim ts1)" for ts1 using assms(2) by (simp add: returns_below_def)
  have tl: "length ts < n \<Longrightarrow> length (tl ts) < n" for ts :: tokens by simp
  show ?thesis unfolding returns_below_def parseUnary_def Let_def Next_snd
    by (auto intro!: returned_pbind p intro: step tl) (meson step tl)+
qed

lemma or_consumes: "consumes prim \<Longrightarrow> consumes (parseOr re prim)"
  by (simp add: parseOr_def parseAnd_def parseCmp_def parseAdd_def parseMul_def level_consumes unary_consumes)

lemma or_returns: "consumes prim \<Longrightarrow> returns_below n prim \<Longrightarrow> returns_below n (parseOr re prim)"
  by (simp add: parseOr_def parseAnd_def parseCmp_def parseAdd_def parseMul_def level_consumes unary_consumes level_returns
      unary_returns)

lemma primary_consumes: "consumes (parsePrimary n re)"
proof (induction n)
  case (Suc n)
  note c = consumesD [OF Suc] consumesD [OF or_consumes [OF Suc]]
  have "shorter (Suc (length ts)) (parsePrimary (Suc n) re ts)" for ts
    unfolding parsePrimary.simps Let_def Next_snd
    by (auto intro!: shorter_pbind shorter_lift dest!: c simp: less_Suc_eq_le)
  then show ?case by (simp add: consumes_shorter del: parsePrimary.simps)
qed (simp add: consumes_def)

lemma primary_returns: "returns_below n (parsePrimary n re)"
proof (induction n)
  case (Suc n)
  have "returned (parsePrimary (Suc n) re (t # ts))" if "length ts < n" for t ts
  proof -
    have "returned (parseOr re (parsePrimary n re) ts)" "returned (parsePrimary n re (tl ts))"
      using that or_returns [OF primary_consumes Suc] Suc by (simp_all add: returns_below_def)
    then show ?thesis by (auto simp: Let_def intro!: returned_pbind)
  qed
  moreover have "returned (parsePrimary (Suc n) re [])" by (simp add: Let_def)
  ultimately show ?case unfolding returns_below_def
    by (metis Suc_less_eq length_Cons neq_Nil_conv)
qed (simp add: returns_below_def)

lemma Eval_returns: "Eval re tokens \<noteq> Diverges"
proof -
  have "returns_below (Suc (length tokens)) (parseOr re (parsePrimary (Suc (length tokens)) re))"
    by (intro or_returns primary_consumes primary_returns)
  then have "returned (parseOr re (parsePrimary (Suc (length tokens)) re) tokens)" by (simp add: returns_below_def)
  then show ?thesis by (auto simp: Eval_def returned_def split: sum.splits if_splits)
qed

section \<open>Only \<^verbatim>\<open>substr\<close> can panic\<close>

text \<open>A parse of tokens without the word \<^verbatim>\<open>substr\<close> does not stop at a panic and leaves such tokens.\<close>

definition calm :: "eparse \<Rightarrow> bool" where
  "calm p \<longleftrightarrow> p \<noteq> Some (Inl SliceRange) \<and> (\<forall>v ts. p = Some (Inr (v, ts)) \<longrightarrow> ''substr'' \<notin> set ts)"

definition calm_parser :: "(tokens \<Rightarrow> eparse) \<Rightarrow> bool" where
  "calm_parser sub \<longleftrightarrow> (\<forall>ts. ''substr'' \<notin> set ts \<longrightarrow> calm (sub ts))"

lemma calm_simps [simp]: "calm None" "calm (Some (Inl e)) \<longleftrightarrow> e \<noteq> SliceRange" "calm (Some (Inr (v, ts))) \<longleftrightarrow> ''substr'' \<notin> set ts"
  by (simp_all add: calm_def)

lemma calm_pbind: "calm p \<Longrightarrow> (\<And>v ts. p = Some (Inr (v, ts)) \<Longrightarrow> ''substr'' \<notin> set ts \<Longrightarrow> calm (f v ts)) \<Longrightarrow> calm (pbind p f)"
  by (cases "(p, f)" rule: pbind.cases) auto

lemma calm_lift: "r \<noteq> Inl SliceRange \<Longrightarrow> ''substr'' \<notin> set ts \<Longrightarrow> calm (lift_act r ts)"
  by (auto simp: lift_act_def split: sum.splits)

lemma not_in_tl: "x \<notin> set ts \<Longrightarrow> x \<notin> set (tl ts)"
  by (cases ts) auto

lemma calm_opLoop:
  assumes "calm_parser sub" and "\<And>o1 x y. act o1 x y \<noteq> Inl SliceRange"
  shows "''substr'' \<notin> set ts \<Longrightarrow> calm (opLoop n os act sub left ts)"
proof (induction n arbitrary: left ts)
  case (Suc n)
  have "calm (sub (tl ts))" using assms(1) Suc.prems by (simp add: calm_parser_def not_in_tl)
  moreover have "calm (case act (Peek ts) left r of Inl e \<Rightarrow> Some (Inl e) | Inr v \<Rightarrow> opLoop n os act sub v ts1)"
    if "''substr'' \<notin> set ts1" for r ts1
    using assms(2) [of "Peek ts" left r] Suc.IH that by (auto split: sum.splits)
  ultimately show ?case using Suc.prems by (auto intro!: calm_pbind)
qed simp

lemma calm_level:
  assumes "calm_parser sub" and "\<And>o1 x y. act o1 x y \<noteq> Inl SliceRange"
  shows "calm_parser (level os act sub)"
proof -
  have "calm (opLoop n os act sub left ts)" if "''substr'' \<notin> set ts" for n left ts
    using that by (intro calm_opLoop assms)
  then show ?thesis using assms(1) by (auto simp: calm_parser_def level_def intro!: calm_pbind simp del: opLoop.simps)
qed

lemma matchStr_calm: "matchStr re str pat \<noteq> Inl SliceRange"
  by (simp add: matchStr_def Let_def split: sum.split option.split)

lemma calm_unary:
  assumes "calm_parser prim"
  shows "calm_parser (parseUnary re prim)"
  unfolding calm_parser_def
proof (intro allI impI)
  fix ts :: tokens assume ts: "''substr'' \<notin> set ts"
  then have tok: "Peek ts \<noteq> ''substr''" by (cases ts) auto
  have p: "calm (prim us)" if "''substr'' \<notin> set us" for us using assms that by (simp add: calm_parser_def)
  show "calm (parseUnary re prim ts)"
    using ts tok by (auto simp: parseUnary_def Let_def not_in_tl intro!: calm_pbind calm_lift p matchStr_calm)
qed

lemma results_calm:
  "orResult o1 x y \<noteq> Inl SliceRange" "andResult o1 x y \<noteq> Inl SliceRange" "cmpAct o1 x y \<noteq> Inl SliceRange"
  "addResult o1 x y \<noteq> Inl SliceRange" "mulResult o1 x y \<noteq> Inl SliceRange"
  by (auto simp: orResult_def andResult_def cmpAct_def addResult_def mulResult_def split: option.split)

lemma calm_or: "calm_parser prim \<Longrightarrow> calm_parser (parseOr re prim)"
  by (simp add: parseOr_def parseAnd_def parseCmp_def parseAdd_def parseMul_def calm_level calm_unary results_calm)

lemma calm_primary: "calm_parser (parsePrimary n re)"
proof (induction n)
  case (Suc n)
  note c = Suc [unfolded calm_parser_def, rule_format] calm_or [OF Suc, unfolded calm_parser_def, rule_format]
  show ?case unfolding calm_parser_def parsePrimary.simps Let_def
    by (auto simp: not_in_tl intro!: calm_pbind calm_lift c matchStr_calm)
qed (simp add: calm_parser_def)

lemma Eval_calm: "''substr'' \<notin> set tokens \<Longrightarrow> Eval re tokens \<noteq> Panics"
  using calm_or [OF calm_primary, unfolded calm_parser_def, rule_format, of tokens re "Suc (length tokens)" re]
  by (auto simp: Eval_def calm_def split: option.split sum.split)

section \<open>Reference: expression trees\<close>

text \<open>A tree of the binary operators, its tokens with parentheses only where precedence and left associativity
  need them, and its value.\<close>

datatype ex = Lit string | Op string ex ex

definition ops :: "nat \<Rightarrow> string list" where
  "ops k = [[''|''], [''&''], [''='', ''!='', ''<'', ''<='', ''>'', ''>=''], [''+'', ''-''], [''*'', ''/'', ''%'']] ! k"

definition acts :: "nat \<Rightarrow> string \<Rightarrow> string \<Rightarrow> string \<Rightarrow> experr + string" where
  "acts k = [orResult, andResult, cmpAct, addResult, mulResult] ! k"

definition op_level :: "string \<Rightarrow> nat" where
  "op_level o1 = (if o1 \<in> set (ops 0) then 0 else if o1 \<in> set (ops 1) then 1 else if o1 \<in> set (ops 2) then 2
     else if o1 \<in> set (ops 3) then 3 else if o1 \<in> set (ops 4) then 4 else 5)"

definition lit_ok :: "string \<Rightarrow> bool" where
  "lit_ok s \<longleftrightarrow> s \<notin> set [[], ''('', ''match'', ''substr'', ''index'', ''length'']"

fun ex_ok :: "ex \<Rightarrow> bool" where
  "ex_ok (Lit s) = lit_ok s"
| "ex_ok (Op o1 a b) = (op_level o1 < 5 \<and> ex_ok a \<and> ex_ok b)"

fun show_ex :: "nat \<Rightarrow> ex \<Rightarrow> tokens" where
  "show_ex l (Lit s) = [s]"
| "show_ex l (Op o1 a b) =
     (let k = op_level o1; body = show_ex k a @ o1 # show_ex (Suc k) b
      in if l \<le> k then body else ''('' # body @ ['')''])"

fun ex_value :: "ex \<Rightarrow> experr + string" where
  "ex_value (Lit s) = Inr s"
| "ex_value (Op o1 a b) =
     res_bind (ex_value a) (\<lambda>x. res_bind (ex_value b) (\<lambda>y. acts (op_level o1) o1 x y))"

definition plev :: "regex \<Rightarrow> nat \<Rightarrow> nat \<Rightarrow> tokens \<Rightarrow> eparse" where
  "plev re n k = (let prim = parsePrimary n re
     in [parseOr re prim, parseAnd re prim, parseCmp re prim, parseAdd re prim, parseMul re prim, parseUnary re prim] ! k)"

lemma less5: "k < 5 \<Longrightarrow> k = 0 \<or> k = 1 \<or> k = 2 \<or> k = 3 \<or> k = (4::nat)"
  by auto

lemma plev_level: "k < 5 \<Longrightarrow> plev re n k = level (ops k) (acts k) (plev re n (Suc k))"
  by (drule less5) (auto simp: plev_def ops_def acts_def Let_def parseOr_def parseAnd_def parseCmp_def parseAdd_def parseMul_def
      numeral_eq_Suc)

lemma plev_5: "plev re n 5 = parseUnary re (parsePrimary n re)"
  by (simp add: plev_def Let_def)

lemma ops_apart: "j < 5 \<Longrightarrow> i < 5 \<Longrightarrow> o1 \<in> set (ops j) \<Longrightarrow> o1 \<in> set (ops i) \<Longrightarrow> i = j"
  by (drule less5, drule less5) (auto simp: ops_def)

lemma ops_plain: "j < 5 \<Longrightarrow> o1 \<in> set (ops j) \<Longrightarrow> o1 \<noteq> '':'' \<and> o1 \<noteq> '')''"
  by (drule less5) (auto simp: ops_def)

lemma op_level_mem: "op_level o1 < 5 \<Longrightarrow> o1 \<in> set (ops (op_level o1))"
  by (auto simp: op_level_def split: if_splits)

interpretation ep: precedence_parser "plev re n" ops acts 5 "\<lambda>t. t \<noteq> '':''" for re n
proof unfold_locales
  show "k < 5 \<Longrightarrow> plev re n k = level (ops k) (acts k) (plev re n (Suc k))" for k by (rule plev_level)
  show "consumes (plev re n 5)" unfolding plev_5 by (rule unary_consumes [OF primary_consumes])
  show "[] \<notin> set (ops k)" if "k < 5" for k using less5 [OF that] by (auto simp: ops_def)
  show "j < 5 \<Longrightarrow> i < 5 \<Longrightarrow> o1 \<in> set (ops j) \<Longrightarrow> o1 \<in> set (ops i) \<Longrightarrow> i = j" for i j o1 by (rule ops_apart)
  show "j < 5 \<Longrightarrow> o1 \<in> set (ops j) \<Longrightarrow> o1 \<noteq> '':''" for j o1 using ops_plain by blast
qed

abbreviation eparses :: "regex \<Rightarrow> nat \<Rightarrow> nat \<Rightarrow> tokens \<Rightarrow> experr + string \<Rightarrow> bool" where
  "eparses re n \<equiv> parses (plev re n) ops acts 5 (\<lambda>t. t \<noteq> '':'')"

lemma parses_paren:
  assumes "eparses re n 0 p r"
  shows "eparses re (Suc n) 5 (''('' # p @ ['')'']) r"
  unfolding parses_def
proof (intro allI impI)
  fix ts :: tokens
  have "ends ops 5 (\<lambda>t. t \<noteq> '':'') 0 ('')'' # ts)" using ops_plain by (force simp: ends_def)
  moreover have "cont (plev re n) ops acts 5 0 v ('')'' # ts) = Some (Inr (v, '')'' # ts))" for v
    by (intro cont_stop) (simp add: ops_def)
  ultimately have "parseOr re (parsePrimary n re) (p @ '')'' # ts) = (case r of Inl e \<Rightarrow> Some (Inl e) | Inr v \<Rightarrow> Some (Inr (v, '')'' # ts)))"
    using assms by (simp add: parses_def plev_def Let_def split: sum.splits)
  then show "plev re (Suc n) 5 ((''('' # p @ ['')'']) @ ts) =
      (case r of Inl e \<Rightarrow> Some (Inl e) | Inr v \<Rightarrow> cont (plev re (Suc n)) ops acts 5 5 v ts)"
    by (simp add: plev_5 parseUnary_def Let_def cont_def split: sum.splits)
qed

lemma parses_lit: "lit_ok s \<Longrightarrow> eparses re (Suc n) 5 [s] (Inr s)"
  by (auto simp: parses_def plev_5 parseUnary_def Let_def cont_def lit_ok_def ends_def)

fun ex_depth :: "ex \<Rightarrow> nat" where
  "ex_depth (Lit s) = 1"
| "ex_depth (Op o1 a b) = Suc (max (ex_depth a) (ex_depth b))"

lemma depth_tokens: "ex_depth e \<le> length (show_ex l e)"
proof (induction e arbitrary: l)
  case (Op o1 a b)
  then show ?case using Op.IH(1) [of "op_level o1"] Op.IH(2) [of "Suc (op_level o1)"] by (simp add: Let_def trans_le_add1 trans_le_add2 le_SucI)
qed simp

lemma parses_show: "ex_ok e \<Longrightarrow> ex_depth e \<le> n \<Longrightarrow> l \<le> 5 \<Longrightarrow> eparses re n l (show_ex l e) (ex_value e)"
proof (induction e arbitrary: n l)
  case (Lit s)
  then obtain m where "n = Suc m" by (cases n) auto
  then show ?case using Lit ep.parses_below [OF parses_lit [of s re m]] by simp
next
  case (Op o1 a b)
  let ?j = "op_level o1"
  let ?body = "show_ex ?j a @ o1 # show_ex (Suc ?j) b"
  obtain m where n: "n = Suc m" "ex_depth a \<le> m" "ex_depth b \<le> m" using Op.prems(2) by (cases n) auto
  have j: "?j < 5" using Op.prems(1) by simp
  have body: "eparses re i ?j ?body (ex_value (Op o1 a b))" if "ex_depth a \<le> i" "ex_depth b \<le> i" for i
    using ep.parses_op [OF j op_level_mem [OF j]] Op.IH(1) [of i ?j] Op.IH(2) [of i "Suc ?j"] Op.prems(1) j that by simp
  show ?case
  proof (cases "l \<le> ?j")
    case True
    then show ?thesis using body [of n] n j ep.parses_below [of re n ?j ?body _ l] by (simp add: Let_def)
  next
    case False
    have "eparses re m 0 ?body (ex_value (Op o1 a b))" using body [OF n(2,3)] j ep.parses_below by auto
    then have "eparses re n 5 (''('' # ?body @ ['')'']) (ex_value (Op o1 a b))" unfolding n(1) by (rule parses_paren)
    then show ?thesis using ep.parses_below [of re n 5 _ _ l] Op.prems(3) False by (simp add: Let_def)
  qed
qed

lemma acts_error: "k < 5 \<Longrightarrow> acts k o1 x y = Inl e \<Longrightarrow> e = NonInteger \<or> e = DivisionByZero"
  by (drule less5)
     (auto simp: acts_def orResult_def andResult_def cmpAct_def addResult_def mulResult_def split: option.splits if_splits)

lemma ex_value_error: "ex_ok e \<Longrightarrow> ex_value e = Inl x \<Longrightarrow> x = NonInteger \<or> x = DivisionByZero"
proof (induction e)
  case (Op o1 a b)
  have ok: "op_level o1 < 5" "ex_ok a" "ex_ok b" using Op.prems(1) by auto
  then show ?case using Op.IH Op.prems(2) acts_error [OF ok(1)] unfolding ex_value.simps res_bind_Inl_iff by blast
qed simp

lemma Eval_show:
  assumes "ex_ok e"
  shows "Eval re (show_ex 0 e) =
    Returns (case ex_value e of Inl x \<Rightarrow> Inl x | Inr v \<Rightarrow> Inr (v, exitCode v))"
proof -
  let ?ts = "show_ex 0 e" and ?n = "Suc (length (show_ex 0 e))"
  have "?ts \<noteq> []" using depth_tokens [of e 0] by (cases e) auto
  moreover have "eparses re ?n 0 ?ts (ex_value e)" using assms depth_tokens [of e 0] by (intro parses_show) auto
  moreover have "ends ops 5 (\<lambda>t. t \<noteq> '':'') 0 []" using less5 by (force simp: ends_def ops_def)
  moreover have "cont (plev re ?n) ops acts 5 0 v [] = Some (Inr (v, []))" for v by (intro cont_stop) (simp add: ops_def)
  ultimately have "parseOr re (parsePrimary ?n re) ?ts = (case ex_value e of Inl x \<Rightarrow> Some (Inl x) | Inr v \<Rightarrow> Some (Inr (v, [])))"
    unfolding parses_def plev_def Let_def
    by (metis (no_types, lifting) append_Nil2 nth_Cons_0 sum.case_eq_if)
  moreover have "ex_value e \<noteq> Inl SliceRange" using ex_value_error [OF assms] by auto
  ultimately show ?thesis using \<open>?ts \<noteq> []\<close> by (auto simp: Eval_def Done_def split: sum.splits)
qed

section \<open>Properties\<close>

text \<open>C36. The evaluator always ends, and only \<^verbatim>\<open>substr\<close> can make it panic: on every list of tokens \<^verbatim>\<open>Eval\<close> returns a value or an error,
  unless the tokens contain the word \<^verbatim>\<open>substr\<close>, whose slice of the string can be out of range.\<close>

theorem expr_returns: "(\<exists>r. Eval re tokens = Returns r) \<or> Eval re tokens = Panics \<and> ''substr'' \<in> set tokens"
  using Eval_returns [of re tokens] Eval_calm [of tokens re] by (cases "Eval re tokens") auto

text \<open>C12. \<^verbatim>\<open>expr\<close> gives its binary operators other than \<^verbatim>\<open>:\<close> the precedence and the left associativity of POSIX: for every expression
  tree over them, the tokens of the tree (with parentheses only where they are needed) evaluate to the value of
  the tree, or to the first error of its evaluation from left to right.\<close>

theorem expr_precedence:
  assumes "ex_ok e"
  shows "Eval re (show_ex 0 e) =
    Returns (case ex_value e of Inl x \<Rightarrow> Inl x | Inr v \<Rightarrow> Inr (v, exitCode v))"
  using assms by (rule Eval_show)

theorem expr_precedence_witness:
  "Eval (\<lambda>_. Inl ''no regexp'') (show_ex 0 (Op ''-'' (Op ''-'' (Lit ''9'') (Lit ''3'')) (Op ''*'' (Lit ''2'') (Op ''+'' (Lit ''1'') (Lit ''1''))))) =
    Returns (case ex_value (Op ''-'' (Op ''-'' (Lit ''9'') (Lit ''3'')) (Op ''*'' (Lit ''2'') (Op ''+'' (Lit ''1'') (Lit ''1'')))) of
      Inl x \<Rightarrow> Inl x | Inr v \<Rightarrow> Inr (v, exitCode v))"
  by (rule expr_precedence) (simp add: op_level_def ops_def lit_ok_def)

text \<open>A negative length makes \<^verbatim>\<open>substr\<close> slice out of range: \<^verbatim>\<open>expr substr abc 2 -1\<close> ends in a run-time panic instead of an empty
  result or an error message.\<close>

theorem expr_substr_panics: "expr_run re quote [''substr'', ''abc'', ''2'', ''-1''] = Panics"
  by (simp add: expr_run_def Eval_def parseOr_def parseAnd_def parseCmp_def parseAdd_def parseMul_def level_def parseUnary_def
      lift_act_def substrStr_def ParseInt_def parse_digits_def isDecDigit_def dec_value_def code_def MinInt64_def MaxInt64_def
      wrap64_def Let_def)

end
