(* ===== verification/Testcmd.thy ===== *)
theory Testcmd
  imports Cursor "HOL-Library.Word"
begin

text \<open>
  The utilities \<^verbatim>\<open>test\<close> and \<^verbatim>\<open>[\<close>: \<^verbatim>\<open>pkg/testcmd/testcmd.go\<close>.  The file system is the pair of functions \<open>lstat\<close> and \<open>stat\<close>; a file mode
  is the 32-bit word of Go's \<^verbatim>\<open>os.FileMode\<close>.  The branch of \<^verbatim>\<open>parseNot\<close> for the error text "unexpected end of expression" is
  left out: no error of the parser has that text.
\<close>

unbundle bit_operations_syntax

section \<open>The program\<close>

record fileinfo =
  fi_Mode :: "32 word"
  fi_Size :: int

record testfs =
  lstat :: "string \<Rightarrow> fileinfo option"
  stat :: "string \<Rightarrow> fileinfo option"

definition ModeDir :: "32 word" where "ModeDir = push_bit 31 1"
definition ModeSymlink :: "32 word" where "ModeSymlink = push_bit 27 1"
definition ModeDevice :: "32 word" where "ModeDevice = push_bit 26 1"
definition ModeNamedPipe :: "32 word" where "ModeNamedPipe = push_bit 25 1"
definition ModeSocket :: "32 word" where "ModeSocket = push_bit 24 1"
definition ModeSetuid :: "32 word" where "ModeSetuid = push_bit 23 1"
definition ModeSetgid :: "32 word" where "ModeSetgid = push_bit 22 1"
definition ModeCharDevice :: "32 word" where "ModeCharDevice = push_bit 21 1"
definition ModeSticky :: "32 word" where "ModeSticky = push_bit 20 1"
definition ModeIrregular :: "32 word" where "ModeIrregular = push_bit 19 1"

definition ModeType :: "32 word" where
  "ModeType = ModeDir OR ModeSymlink OR ModeNamedPipe OR ModeSocket OR ModeDevice OR ModeCharDevice OR ModeIrregular"

definition mode_has :: "fileinfo \<Rightarrow> 32 word \<Rightarrow> bool" where
  "mode_has info m \<longleftrightarrow> fi_Mode info AND m \<noteq> 0"

datatype testerr = MissingParen | MissingArgument string | UnknownUnary string | IntegerExpected | UnknownBinary string
  | UnexpectedArgument string

type_synonym tparse = "(testerr, bool) parse"

definition isUnaryOp :: "string \<Rightarrow> bool" where
  "isUnaryOp tok \<longleftrightarrow> tok \<in> set [''-e'', ''-f'', ''-d'', ''-s'', ''-r'', ''-w'', ''-x'', ''-L'', ''-h'', ''-b'', ''-c'', ''-p'', ''-S'',
     ''-g'', ''-u'', ''-k'', ''-t'', ''-z'', ''-n'']"

definition isBinaryOp :: "string \<Rightarrow> bool" where
  "isBinaryOp op \<longleftrightarrow> op \<in> set [''='', ''=='', ''!='', ''-eq'', ''-ne'', ''-lt'', ''-le'', ''-gt'', ''-ge'']"

definition file_test :: "testfs \<Rightarrow> string \<Rightarrow> (fileinfo \<Rightarrow> bool) \<Rightarrow> bool" where
  "file_test fs arg P = (case lstat fs arg of None \<Rightarrow> False | Some info \<Rightarrow> P info)"

definition perm_test :: "testfs \<Rightarrow> string \<Rightarrow> 32 word \<Rightarrow> bool" where
  "perm_test fs arg bits = (case stat fs arg of None \<Rightarrow> False | Some info \<Rightarrow> fi_Mode info AND 511 AND bits \<noteq> 0)"

definition evalUnary :: "testfs \<Rightarrow> string \<Rightarrow> string \<Rightarrow> testerr + bool" where
  "evalUnary fs op arg =
     (if op = ''-z'' then Inr (arg = [])
      else if op = ''-n'' then Inr (arg \<noteq> [])
      else if op = ''-e'' then Inr (file_test fs arg (\<lambda>i. True))
      else if op = ''-f'' then Inr (file_test fs arg (\<lambda>i. \<not> mode_has i ModeType))
      else if op = ''-d'' then Inr (file_test fs arg (\<lambda>i. mode_has i ModeDir))
      else if op = ''-s'' then Inr (file_test fs arg (\<lambda>i. fi_Size i > 0))
      else if op = ''-L'' \<or> op = ''-h'' then Inr (file_test fs arg (\<lambda>i. mode_has i ModeSymlink))
      else if op = ''-b'' then Inr (file_test fs arg (\<lambda>i. mode_has i ModeDevice))
      else if op = ''-c'' then Inr (file_test fs arg (\<lambda>i. mode_has i ModeCharDevice))
      else if op = ''-p'' then Inr (file_test fs arg (\<lambda>i. mode_has i ModeNamedPipe))
      else if op = ''-S'' then Inr (file_test fs arg (\<lambda>i. mode_has i ModeSocket))
      else if op = ''-g'' then Inr (file_test fs arg (\<lambda>i. mode_has i ModeSetgid))
      else if op = ''-u'' then Inr (file_test fs arg (\<lambda>i. mode_has i ModeSetuid))
      else if op = ''-k'' then Inr (file_test fs arg (\<lambda>i. mode_has i ModeSticky))
      else if op = ''-r'' then Inr (perm_test fs arg 292)
      else if op = ''-w'' then Inr (perm_test fs arg 146)
      else if op = ''-x'' then Inr (perm_test fs arg 73)
      else Inl (UnknownUnary op))"

definition evalBinary :: "string \<Rightarrow> string \<Rightarrow> string \<Rightarrow> testerr + bool" where
  "evalBinary left op right =
     (if op = ''='' \<or> op = ''=='' then Inr (left = right)
      else if op = ''!='' then Inr (left \<noteq> right)
      else
        (case (ParseInt left, ParseInt right) of
           (Some ln, Some rn) \<Rightarrow>
             (if op = ''-eq'' then Inr (ln = rn)
              else if op = ''-ne'' then Inr (ln \<noteq> rn)
              else if op = ''-lt'' then Inr (ln < rn)
              else if op = ''-le'' then Inr (ln \<le> rn)
              else if op = ''-gt'' then Inr (ln > rn)
              else if op = ''-ge'' then Inr (ln \<ge> rn)
              else Inl (UnknownBinary op))
         | _ \<Rightarrow> Inl IntegerExpected))"

text \<open>From the operator on: \<open>left\<close> was taken, and the next token is a binary operator.\<close>

definition binaryTest :: "string \<Rightarrow> tokens \<Rightarrow> tparse" where
  "binaryTest left ts =
     (let op = Peek ts; ts1 = snd (Next ts)
      in if Done ts1 then Some (Inl (MissingArgument op))
         else lift_act (evalBinary left op (Peek ts1)) (snd (Next ts1)))"

fun parseNot :: "(tokens \<Rightarrow> tparse) \<Rightarrow> tokens \<Rightarrow> tparse" where
  "parseNot prim [] = prim []"
| "parseNot prim (t # ts) =
     (if t = ''!'' then
        (if HasToken (t # ts) 1 \<and> isBinaryOp (Lookahead (t # ts) 1) then prim (t # ts)
         else if Done ts then Some (Inr (True, ts))
         else pbind (parseNot prim ts) (\<lambda>result ts'. Some (Inr (\<not> result, ts'))))
      else prim (t # ts))"

definition andAct :: "string \<Rightarrow> bool \<Rightarrow> bool \<Rightarrow> testerr + bool" where
  "andAct op left right = Inr (left \<and> right)"

definition orAct :: "string \<Rightarrow> bool \<Rightarrow> bool \<Rightarrow> testerr + bool" where
  "orAct op left right = Inr (left \<or> right)"

definition t_parseAnd :: "(tokens \<Rightarrow> tparse) \<Rightarrow> tokens \<Rightarrow> tparse" where
  "t_parseAnd prim = level [''-a''] andAct (parseNot prim)"

definition t_parseOr :: "(tokens \<Rightarrow> tparse) \<Rightarrow> tokens \<Rightarrow> tparse" where
  "t_parseOr prim = level [''-o''] orAct (t_parseAnd prim)"

fun t_parsePrimary :: "nat \<Rightarrow> testfs \<Rightarrow> tokens \<Rightarrow> tparse" where
  "t_parsePrimary 0 fs ts = None"
| "t_parsePrimary (Suc n) fs ts =
     (let tok = Peek ts; ts1 = snd (Next ts); nextBinary = (HasToken ts 1 \<and> isBinaryOp (Lookahead ts 1))
      in if tok = ''('' \<and> \<not> nextBinary then
           pbind (t_parseOr (t_parsePrimary n fs) ts1) (\<lambda>result ts2.
             if Peek ts2 \<noteq> '')'' then Some (Inl MissingParen) else Some (Inr (result, snd (Next ts2))))
         else if isUnaryOp tok then
           (if HasToken ts 1 \<and> \<not> nextBinary then lift_act (evalUnary fs tok (Peek ts1)) (snd (Next ts1))
            else if \<not> Done ts1 \<and> isBinaryOp (Peek ts1) then binaryTest tok ts1
            else Some (Inr (tok \<noteq> [], ts1)))
         else if Done ts then Some (Inr (False, ts))
         else if \<not> Done ts1 \<and> isBinaryOp (Peek ts1) then binaryTest tok ts1
         else Some (Inr (tok \<noteq> [], ts1)))"

definition Evaluate :: "testfs \<Rightarrow> tokens \<Rightarrow> (testerr + bool) option" where
  "Evaluate fs tokens =
     (if tokens = [] then Some (Inr False)
      else
        (case t_parseOr (t_parsePrimary (Suc (length tokens)) fs) tokens of
           None \<Rightarrow> None
         | Some (Inl e) \<Rightarrow> Some (Inl e)
         | Some (Inr (result, ts)) \<Rightarrow>
             if \<not> Done ts then Some (Inl (UnexpectedArgument (Peek ts))) else Some (Inr result)))"

fun test_message :: "(string \<Rightarrow> string) \<Rightarrow> testerr \<Rightarrow> string" where
  "test_message quote MissingParen = ''missing '' @ [CHR 0x27, CHR '')'', CHR 0x27]"
| "test_message quote (MissingArgument op) = ''missing argument after '' @ op"
| "test_message quote (UnknownUnary op) = ''unknown unary operator: '' @ op"
| "test_message quote IntegerExpected = ''integer expression expected''"
| "test_message quote (UnknownBinary op) = ''unknown binary operator: '' @ op"
| "test_message quote (UnexpectedArgument t) = ''unexpected argument '' @ quote t"

definition test_error :: "string \<Rightarrow> string \<Rightarrow> bool \<Rightarrow> result" where
  "test_error name msg jsonMode =
     (2, RenderError name 2 ''SYNTAX'' msg jsonMode, if \<not> jsonMode then name @ '': '' @ msg @ [NL] else [])"

definition test_finish :: "(string \<Rightarrow> string) \<Rightarrow> string \<Rightarrow> bool \<Rightarrow> testerr + bool \<Rightarrow> result" where
  "test_finish quote name jsonMode r =
     (case r of
        Inl e \<Rightarrow> test_error name (test_message quote e) jsonMode
      | Inr b \<Rightarrow>
          (if b then 0 else 1, Render name (JObj [(''result'', JBool b)]) jsonMode [], []))"

definition runTest :: "(string \<Rightarrow> string) \<Rightarrow> testfs \<Rightarrow> string list \<Rightarrow> result option" where
  "runTest quote fs args =
     map_option (test_finish quote ''test'' (''--json'' \<in> set args)) (Evaluate fs (filter (\<lambda>a. a \<noteq> ''--json'') args))"

definition runBracket :: "(string \<Rightarrow> string) \<Rightarrow> testfs \<Rightarrow> string list \<Rightarrow> result option" where
  "runBracket quote fs args =
     (let jsonMode = (''--json'' \<in> set args); cleanArgs = filter (\<lambda>a. a \<noteq> ''--json'') args
      in if cleanArgs = [] \<or> last cleanArgs \<noteq> '']'' then
           Some (test_error ''['' (''missing '' @ [CHR 0x27, CHR '']'', CHR 0x27]) jsonMode)
         else map_option (test_finish quote ''['' jsonMode) (Evaluate fs (butlast cleanArgs)))"

section \<open>Every parse returns\<close>

lemma binaryTest_shorter: "ts \<noteq> [] \<Longrightarrow> length ts \<le> k \<Longrightarrow> shorter k (binaryTest left ts)"
  by (cases ts; cases "tl ts") (auto simp: binaryTest_def Let_def intro!: shorter_lift)

lemma binaryTest_returned [simp]: "returned (binaryTest left ts)"
  by (simp add: binaryTest_def Let_def)

lemma not_consumes: "consumes prim \<Longrightarrow> consumes (parseNot prim)"
proof -
  assume c: "consumes prim"
  have "shorter (Suc (length ts)) (parseNot prim ts)" for ts
  proof (induction ts)
    case Nil
    show ?case using c [unfolded consumes_shorter, rule_format, of "[]"] by simp
  next
    case (Cons t ts)
    have "shorter (Suc (length (t # ts))) (prim (t # ts))" using c unfolding consumes_shorter by blast
    moreover have "shorter (Suc (Suc (length ts))) (pbind (parseNot prim ts) (\<lambda>result ts'. Some (Inr (\<not> result, ts'))))"
    proof (rule shorter_pbind)
      fix v ts' assume "parseNot prim ts = Some (Inr (v, ts'))"
      then show "shorter (Suc (Suc (length ts))) (Some (Inr (\<not> v, ts')))" using Cons by simp
    qed
    ultimately show ?case by auto
  qed
  then show ?thesis by (simp add: consumes_shorter)
qed

lemma not_returns: "returns_below n prim \<Longrightarrow> returns_below n (parseNot prim)"
proof -
  assume r: "returns_below n prim"
  have "length ts < n \<Longrightarrow> returned (parseNot prim ts)" for ts
  proof (induction ts)
    case Nil
    then show ?case using r by (simp add: returns_below_def)
  next
    case (Cons t ts)
    then show ?case using r by (auto intro!: returned_pbind simp: returns_below_def)
  qed
  then show ?thesis by (simp add: returns_below_def)
qed

lemma t_or_consumes: "consumes prim \<Longrightarrow> consumes (t_parseOr prim)"
  by (simp add: t_parseOr_def t_parseAnd_def level_consumes not_consumes)

lemma t_or_returns: "consumes prim \<Longrightarrow> returns_below n prim \<Longrightarrow> returns_below n (t_parseOr prim)"
  by (simp add: t_parseOr_def t_parseAnd_def level_consumes level_returns not_consumes not_returns)

lemma t_primary_consumes: "consumes (t_parsePrimary n fs)"
proof (induction n)
  case (Suc n)
  note c = consumesD [OF t_or_consumes [OF Suc]]
  have "shorter (Suc (length ts)) (t_parsePrimary (Suc n) fs ts)" for ts
    unfolding t_parsePrimary.simps Let_def Next_snd
    by (auto intro!: shorter_pbind shorter_lift binaryTest_shorter dest!: c simp: less_Suc_eq_le Done_def)
  then show ?case by (simp add: consumes_shorter del: t_parsePrimary.simps)
qed (simp add: consumes_def)

lemma t_primary_returns: "returns_below n (t_parsePrimary n fs)"
proof (induction n)
  case (Suc n)
  have "returned (t_parsePrimary (Suc n) fs ts)" if "length ts < Suc n" for ts
  proof -
    have "returned (t_parseOr (t_parsePrimary n fs) (tl ts))" if "ts \<noteq> []"
      using that \<open>length ts < Suc n\<close> t_or_returns [OF t_primary_consumes Suc] by (cases ts) (simp_all add: returns_below_def)
    then show ?thesis by (cases "ts = []") (auto simp: Let_def isUnaryOp_def intro!: returned_pbind)
  qed
  then show ?case by (simp add: returns_below_def)
qed (simp add: returns_below_def)

section \<open>Reference: condition trees\<close>

datatype cond = TStr string | TUn string string | TCmp string string string | TNot cond | TAnd cond cond | TOr cond cond

fun cond_value :: "testfs \<Rightarrow> cond \<Rightarrow> testerr + bool" where
  "cond_value fs (TStr s) = Inr (s \<noteq> [])"
| "cond_value fs (TUn o1 a) = evalUnary fs o1 a"
| "cond_value fs (TCmp l o1 r) = evalBinary l o1 r"
| "cond_value fs (TNot c) = res_bind (cond_value fs c) (\<lambda>b. Inr (\<not> b))"
| "cond_value fs (TAnd c d) = res_bind (cond_value fs c) (\<lambda>x. res_bind (cond_value fs d) (\<lambda>y. Inr (x \<and> y)))"
| "cond_value fs (TOr c d) = res_bind (cond_value fs c) (\<lambda>x. res_bind (cond_value fs d) (\<lambda>y. Inr (x \<or> y)))"

definition paren :: "bool \<Rightarrow> tokens \<Rightarrow> tokens" where
  "paren b ts = (if b then ''('' # ts @ ['')''] else ts)"

fun show_cond :: "nat \<Rightarrow> cond \<Rightarrow> tokens" where
  "show_cond l (TStr s) = [s]"
| "show_cond l (TUn o1 a) = [o1, a]"
| "show_cond l (TCmp a o1 b) = [a, o1, b]"
| "show_cond l (TNot c) = ''!'' # show_cond 2 c"
| "show_cond l (TAnd c d) = paren (1 < l) (show_cond 1 c @ ''-a'' # show_cond 2 d)"
| "show_cond l (TOr c d) = paren (0 < l) (show_cond 0 c @ ''-o'' # show_cond 1 d)"

text \<open>Strings that are not operators where an operator is looked for.\<close>

fun cond_ok :: "cond \<Rightarrow> bool" where
  "cond_ok (TStr s) = (s \<noteq> ''!'' \<and> s \<noteq> ''('' \<and> \<not> isUnaryOp s \<and> \<not> isBinaryOp s)"
| "cond_ok (TUn o1 a) = (isUnaryOp o1 \<and> \<not> isBinaryOp a)"
| "cond_ok (TCmp l o1 r) = (isBinaryOp o1 \<and> \<not> isBinaryOp l)"
| "cond_ok (TNot c) = cond_ok c"
| "cond_ok (TAnd c d) = (cond_ok c \<and> cond_ok d)"
| "cond_ok (TOr c d) = (cond_ok c \<and> cond_ok d)"

definition t_ops :: "nat \<Rightarrow> string list" where
  "t_ops k = [[''-o''], [''-a'']] ! k"

definition t_acts :: "nat \<Rightarrow> string \<Rightarrow> bool \<Rightarrow> bool \<Rightarrow> testerr + bool" where
  "t_acts k = [orAct, andAct] ! k"

definition tlev :: "testfs \<Rightarrow> nat \<Rightarrow> nat \<Rightarrow> tokens \<Rightarrow> tparse" where
  "tlev fs n k = (let prim = t_parsePrimary n fs in [t_parseOr prim, t_parseAnd prim, parseNot prim] ! k)"

lemma less2: "k < 2 \<Longrightarrow> k = 0 \<or> k = (1::nat)"
  by auto

interpretation tp: precedence_parser "tlev fs n" t_ops t_acts 2 "\<lambda>t. \<not> isBinaryOp t" for fs n
proof unfold_locales
  show "tlev fs n k = level (t_ops k) (t_acts k) (tlev fs n (Suc k))" if "k < 2" for k
    using less2 [OF that] by (auto simp: tlev_def t_ops_def t_acts_def t_parseOr_def t_parseAnd_def Let_def)
  show "consumes (tlev fs n 2)" by (simp add: tlev_def Let_def not_consumes t_primary_consumes)
  show "[] \<notin> set (t_ops k)" if "k < 2" for k using less2 [OF that] by (auto simp: t_ops_def)
  show "i = j" if "j < 2" "i < 2" "o1 \<in> set (t_ops j)" "o1 \<in> set (t_ops i)" for i j o1
    using less2 [OF that(1)] less2 [OF that(2)] that(3,4) by (auto simp: t_ops_def)
  show "\<not> isBinaryOp o1" if "j < 2" "o1 \<in> set (t_ops j)" for j o1
    using less2 [OF that(1)] that(2) by (auto simp: t_ops_def isBinaryOp_def)
qed

abbreviation tparses :: "testfs \<Rightarrow> nat \<Rightarrow> nat \<Rightarrow> tokens \<Rightarrow> testerr + bool \<Rightarrow> bool" where
  "tparses fs n \<equiv> parses (tlev fs n) t_ops t_acts 2 (\<lambda>t. \<not> isBinaryOp t)"

lemma tlev_2: "tlev fs n 2 = parseNot (t_parsePrimary n fs)"
  by (simp add: tlev_def Let_def)

lemma not_first: "t \<noteq> ''!'' \<or> isBinaryOp u \<Longrightarrow> parseNot prim (t # u # ts) = prim (t # u # ts)"
  by (auto simp: HasToken_def Lookahead_def)

lemma tparses_str: "cond_ok (TStr s) \<Longrightarrow> tparses fs (Suc n) 2 [s] (Inr (s \<noteq> []))"
  by (auto simp: parses_def tlev_2 cont_def ends_def Let_def HasToken_def Lookahead_def Done_def Peek_def split: list.splits)

lemma tparses_un:
  assumes "cond_ok (TUn o1 a)"
  shows "tparses fs (Suc n) 2 [o1, a] (evalUnary fs o1 a)"
proof -
  have "o1 \<noteq> ''!''" "o1 \<noteq> ''(''" using assms by (auto simp: isUnaryOp_def)
  then show ?thesis using assms
    by (auto simp: parses_def tlev_2 cont_def Let_def HasToken_def Lookahead_def lift_act_def split: sum.splits)
qed

lemma primary_binary:
  assumes "isBinaryOp o1"
  shows "parseNot (t_parsePrimary (Suc n) fs) (l # o1 # r # ts) = lift_act (evalBinary l o1 r) ts"
  using assms by (simp add: HasToken_def Lookahead_def Done_def binaryTest_def Let_def)

lemma tparses_cmp: "isBinaryOp o1 \<Longrightarrow> tparses fs (Suc n) 2 [l, o1, r] (evalBinary l o1 r)"
  by (simp add: parses_def tlev_2 cont_def primary_binary lift_act_def del: parseNot.simps t_parsePrimary.simps split: sum.splits)

lemma tparses_neg:
  assumes p: "tparses fs n 2 p r" and hd: "p \<noteq> []" "\<not> isBinaryOp (hd p)"
  shows "tparses fs n 2 (''!'' # p) (res_bind r (\<lambda>b. Inr (\<not> b)))"
  unfolding parses_def
proof (intro allI impI)
  fix ts assume "ends t_ops 2 (\<lambda>t. \<not> isBinaryOp t) 2 ts"
  then have q: "parseNot (t_parsePrimary n fs) (p @ ts) = (case r of Inl e \<Rightarrow> Some (Inl e) | Inr v \<Rightarrow> Some (Inr (v, ts)))"
    using p by (simp add: parses_def tlev_2 cont_def split: sum.splits)
  have "parseNot (t_parsePrimary n fs) (''!'' # p @ ts) = pbind (parseNot (t_parsePrimary n fs) (p @ ts)) (\<lambda>b ts'. Some (Inr (\<not> b, ts')))"
    using hd by (cases p) (simp_all add: HasToken_def Lookahead_def Done_def)
  then show "tlev fs n 2 ((''!'' # p) @ ts) = (case res_bind r (\<lambda>b. Inr (\<not> b)) of Inl e \<Rightarrow> Some (Inl e)
      | Inr v \<Rightarrow> cont (tlev fs n) t_ops t_acts 2 2 v ts)"
    using q by (cases r) (simp_all add: tlev_2 cont_def)
qed

lemma tparses_paren:
  assumes p: "tparses fs n 0 p r" and hd: "p \<noteq> []" "\<not> isBinaryOp (hd p)"
  shows "tparses fs (Suc n) 2 (''('' # p @ ['')'']) r"
  unfolding parses_def
proof (intro allI impI)
  fix ts :: tokens
  have "ends t_ops 2 (\<lambda>t. \<not> isBinaryOp t) 0 ('')'' # ts)" using less2 by (force simp: ends_def isBinaryOp_def t_ops_def)
  moreover have "cont (tlev fs n) t_ops t_acts 2 0 v ('')'' # ts) = Some (Inr (v, '')'' # ts))" for v
    by (intro cont_stop) (simp add: t_ops_def)
  ultimately have q: "t_parseOr (t_parsePrimary n fs) (p @ '')'' # ts) =
      (case r of Inl e \<Rightarrow> Some (Inl e) | Inr v \<Rightarrow> Some (Inr (v, '')'' # ts)))"
    using p by (simp add: parses_def tlev_def Let_def split: sum.splits)
  have "parseNot (t_parsePrimary (Suc n) fs) (''('' # p @ '')'' # ts) =
      pbind (t_parseOr (t_parsePrimary n fs) (p @ '')'' # ts)) (\<lambda>result ts2.
        if Peek ts2 \<noteq> '')'' then Some (Inl MissingParen) else Some (Inr (result, snd (Next ts2))))"
    using hd by (cases p) (simp_all add: HasToken_def Lookahead_def Let_def)
  then show "tlev fs (Suc n) 2 ((''('' # p @ ['')'']) @ ts) =
      (case r of Inl e \<Rightarrow> Some (Inl e) | Inr v \<Rightarrow> cont (tlev fs (Suc n)) t_ops t_acts 2 2 v ts)"
    using q by (cases r) (simp_all add: tlev_2 cont_def)
qed

fun cond_depth :: "cond \<Rightarrow> nat" where
  "cond_depth (TNot c) = cond_depth c"
| "cond_depth (TAnd c d) = Suc (max (cond_depth c) (cond_depth d))"
| "cond_depth (TOr c d) = Suc (max (cond_depth c) (cond_depth d))"
| "cond_depth _ = 1"

lemma show_cond_hd: "cond_ok c \<Longrightarrow> show_cond l c \<noteq> [] \<and> \<not> isBinaryOp (hd (show_cond l c))"
  by (induction c arbitrary: l) (auto simp: paren_def isBinaryOp_def isUnaryOp_def)

lemma cond_depth_tokens: "cond_depth c \<le> length (show_cond l c)"
proof (induction c arbitrary: l)
  case (TAnd c d)
  then show ?case using TAnd.IH(1) [of 1] TAnd.IH(2) [of 2] by (simp add: paren_def trans_le_add1 trans_le_add2 le_SucI)
next
  case (TOr c d)
  then show ?case using TOr.IH(1) [of 0] TOr.IH(2) [of 1] by (simp add: paren_def trans_le_add1 trans_le_add2 le_SucI)
qed (simp_all add: le_SucI)

text \<open>A binary node of level \<open>j\<close>: its body is parsed at every level up to \<open>j\<close>, and in parentheses above.\<close>

lemma tparses_node:
  assumes j: "j < 2" "o1 \<in> set (t_ops j)"
    and c: "\<And>n. m \<le> n \<Longrightarrow> tparses fs n j (show_cond j c) rc" and d: "\<And>n. m \<le> n \<Longrightarrow> tparses fs n (Suc j) (show_cond (Suc j) d) rd"
    and ok: "cond_ok c" and n: "Suc m \<le> n" and l: "l \<le> 2"
  shows "tparses fs n l (paren (j < l) (show_cond j c @ o1 # show_cond (Suc j) d))
    (res_bind rc (\<lambda>x. res_bind rd (\<lambda>y. t_acts j o1 x y)))"
proof -
  let ?body = "show_cond j c @ o1 # show_cond (Suc j) d" and ?r = "res_bind rc (\<lambda>x. res_bind rd (\<lambda>y. t_acts j o1 x y))"
  have body: "tparses fs i j ?body ?r" if "m \<le> i" for i by (rule tp.parses_op [OF j c [OF that] d [OF that]])
  obtain n' where n': "n = Suc n'" "m \<le> n'" using n by (cases n) auto
  show ?thesis
  proof (cases "j < l")
    case True
    have "?body \<noteq> []" "\<not> isBinaryOp (hd ?body)" using show_cond_hd [OF ok, of j] by auto
    moreover have "tparses fs n' 0 ?body ?r" using tp.parses_below [OF body [OF n'(2)]] j by simp
    ultimately have "tparses fs n 2 (''('' # ?body @ ['')'']) ?r" unfolding n'(1) by (intro tparses_paren)
    then show ?thesis using tp.parses_below [of fs n 2 _ _ l] l True by (simp add: paren_def)
  next
    case False
    then show ?thesis using tp.parses_below [OF body [of n]] n j by (simp add: paren_def)
  qed
qed

lemma t_acts_simps: "t_acts 0 o1 x y = Inr (x \<or> y)" "t_acts 1 o1 x y = Inr (x \<and> y)"
  by (simp_all add: t_acts_def orAct_def andAct_def)

lemma t_ops_mem: "''-o'' \<in> set (t_ops 0)" "''-a'' \<in> set (t_ops 1)"
  by (simp_all add: t_ops_def)

lemma tparses_show: "cond_ok c \<Longrightarrow> cond_depth c \<le> n \<Longrightarrow> l \<le> 2 \<Longrightarrow> tparses fs n l (show_cond l c) (cond_value fs c)"
proof (induction c arbitrary: n l)
  case (TStr s)
  then obtain m where "n = Suc m" by (cases n) auto
  then show ?case using TStr tp.parses_below [OF tparses_str [of s fs m]] by simp
next
  case (TUn o1 a)
  then obtain m where "n = Suc m" by (cases n) auto
  then show ?case using TUn tp.parses_below [OF tparses_un [of o1 a fs m]] by simp
next
  case (TCmp a o1 b)
  then obtain m where "n = Suc m" by (cases n) auto
  then show ?case using TCmp tp.parses_below [OF tparses_cmp [of o1 fs m a b]] by simp
next
  case (TNot c)
  have "tparses fs n 2 (show_cond 2 c) (cond_value fs c)" using TNot by simp
  then have "tparses fs n 2 (''!'' # show_cond 2 c) (cond_value fs (TNot c))" using tparses_neg show_cond_hd [of c 2] TNot.prems by simp
  then show ?case using tp.parses_below [of fs n 2] TNot.prems by simp
next
  case (TAnd c d)
  have "tparses fs n l (paren (1 < l) (show_cond 1 c @ ''-a'' # show_cond (Suc 1) d))
      (res_bind (cond_value fs c) (\<lambda>x. res_bind (cond_value fs d) (\<lambda>y. t_acts 1 ''-a'' x y)))"
    using TAnd.prems by (intro tparses_node [where m = "max (cond_depth c) (cond_depth d)"] TAnd.IH t_ops_mem) auto
  then show ?case by (simp add: t_acts_simps [unfolded One_nat_def] numeral_2_eq_2)
next
  case (TOr c d)
  have "tparses fs n l (paren (0 < l) (show_cond 0 c @ ''-o'' # show_cond (Suc 0) d))
      (res_bind (cond_value fs c) (\<lambda>x. res_bind (cond_value fs d) (\<lambda>y. t_acts 0 ''-o'' x y)))"
    using TOr.prems by (intro tparses_node [where m = "max (cond_depth c) (cond_depth d)"] TOr.IH t_ops_mem) auto
  then show ?case by (simp add: t_acts_simps)
qed

section \<open>Properties\<close>

text \<open>C16. \<^verbatim>\<open>test\<close> evaluates a condition tree: for every tree of string tests, file tests, comparisons, negations,
  conjunctions and disjunctions, the tokens of the tree (with parentheses only where \<^verbatim>\<open>!\<close>, \<^verbatim>\<open>-a\<close> and \<^verbatim>\<open>-o\<close> need them)
  evaluate to the truth value of the tree, or to its first error from left to right.\<close>

theorem test_precedence:
  assumes "cond_ok c"
  shows "Evaluate fs (show_cond 0 c) = Some (cond_value fs c)"
proof -
  let ?ts = "show_cond 0 c" and ?n = "Suc (length (show_cond 0 c))"
  have ne: "?ts \<noteq> []" using show_cond_hd [OF assms] by simp
  have "tparses fs ?n 0 ?ts (cond_value fs c)" using assms cond_depth_tokens [of c 0] by (intro tparses_show) auto
  moreover have "ends t_ops 2 (\<lambda>t. \<not> isBinaryOp t) 0 []" using less2 by (force simp: ends_def t_ops_def isBinaryOp_def)
  moreover have "cont (tlev fs ?n) t_ops t_acts 2 0 v [] = Some (Inr (v, []))" for v by (intro cont_stop) (simp add: t_ops_def)
  ultimately have "t_parseOr (t_parsePrimary ?n fs) ?ts = (case cond_value fs c of Inl x \<Rightarrow> Some (Inl x) | Inr v \<Rightarrow> Some (Inr (v, [])))"
    unfolding parses_def tlev_def Let_def
    by (metis (no_types, lifting) append_Nil2 nth_Cons_0 sum.case_eq_if)
  then show ?thesis using ne by (simp add: Evaluate_def Done_def split: sum.splits)
qed

theorem test_precedence_witness:
  "Evaluate \<lparr>lstat = (\<lambda>_. None), stat = (\<lambda>_. None)\<rparr> (show_cond 0 (TAnd (TNot (TStr ''x'')) (TOr (TCmp ''1'' ''-lt'' ''2'') (TUn ''-z'' [])))) =
    Some (cond_value \<lparr>lstat = (\<lambda>_. None), stat = (\<lambda>_. None)\<rparr> (TAnd (TNot (TStr ''x'')) (TOr (TCmp ''1'' ''-lt'' ''2'') (TUn ''-z'' []))))"
  by (rule test_precedence) (simp add: isBinaryOp_def isUnaryOp_def)

text \<open>Three arguments with a binary operator in the middle are that comparison, whatever the operands: \<^verbatim>\<open>!\<close>, \<^verbatim>\<open>(\<close>, the name
  of a unary operator and the empty string are then plain strings.\<close>

theorem test_three_arguments:
  assumes "isBinaryOp op"
  shows "Evaluate fs [l, op, r] = Some (evalBinary l op r)"
proof -
  have "parseNot (t_parsePrimary (Suc 3) fs) [l, op, r] = lift_act (evalBinary l op r) []" by (rule primary_binary [OF assms])
  then show ?thesis
    by (cases "evalBinary l op r")
       (simp_all add: Evaluate_def t_parseOr_def t_parseAnd_def level_def lift_act_def Done_def eval_nat_numeral
         del: parseNot.simps t_parsePrimary.simps)
qed

theorem test_three_arguments_witness:
  "Evaluate \<lparr>lstat = (\<lambda>_. None), stat = (\<lambda>_. None)\<rparr> [''!'', ''='', ''('' ] = Some (evalBinary ''!'' ''='' ''('')"
  by (rule test_three_arguments) (simp add: isBinaryOp_def)

text \<open>The evaluator always returns.\<close>

theorem test_returns: "\<exists>r. Evaluate fs tokens = Some r"
proof -
  have "returns_below (Suc (length tokens)) (t_parseOr (t_parsePrimary (Suc (length tokens)) fs))"
    by (intro t_or_returns t_primary_consumes t_primary_returns)
  then have "returned (t_parseOr (t_parsePrimary (Suc (length tokens)) fs) tokens)" by (simp add: returns_below_def)
  then show ?thesis by (auto simp: Evaluate_def returned_def split: sum.splits)
qed

text \<open>File tests that disagree with POSIX: a character device (a device with the character bit, as the \<^verbatim>\<open>os\<close> package
  reports it) passes \<^verbatim>\<open>-b\<close>, a symbolic link to a regular file fails \<^verbatim>\<open>-f\<close>, and \<^verbatim>\<open>-t\<close> is an unknown operator.\<close>

theorem test_file_defects:
  "lstat fs p = Some \<lparr>fi_Mode = ModeDevice OR ModeCharDevice, fi_Size = 0\<rparr> \<Longrightarrow> evalUnary fs ''-b'' p = Inr True"
  "lstat fs p = Some \<lparr>fi_Mode = ModeSymlink OR 511, fi_Size = 4\<rparr> \<Longrightarrow> evalUnary fs ''-f'' p = Inr False"
  "evalUnary fs ''-t'' ''0'' = Inl (UnknownUnary ''-t'')"
  by (simp_all add: evalUnary_def file_test_def mode_has_def ModeDevice_def ModeCharDevice_def ModeSymlink_def ModeType_def
      ModeDir_def ModeNamedPipe_def ModeSocket_def ModeIrregular_def)

end
