(* ===== verification/Wc.thy ===== *)
theory Wc
  imports Cli
begin

text \<open>
  The utility \<^verbatim>\<open>wc\<close>: \<^verbatim>\<open>pkg/wc/wc.go\<close>.  \<^verbatim>\<open>CountProper\<close> works through windows of 64 KiB of the input, with a fast path for
  ASCII bytes, and stops before a rune that the window may cut; it is shown to count what the whole text holds.
  The input is its content: the return on a failed read is not modelled, and a window is full unless it is the last.
\<close>

section \<open>The program\<close>

record WcResult =
  Lines :: nat
  Words :: nat
  Bytes :: nat
  Chars :: nat
  MaxLineLength :: nat

definition wc_zero :: WcResult where
  "wc_zero = \<lparr>Lines = 0, Words = 0, Bytes = 0, Chars = 0, MaxLineLength = 0\<rparr>"

definition wc_spec :: FlagSpec where
  "wc_spec = mkSpec [mkFlag ''l'' ''lines'' FlagBool, mkFlag ''w'' ''words'' FlagBool, mkFlag ''c'' ''bytes'' FlagBool,
     mkFlag ''m'' ''chars'' FlagBool, mkFlag ''L'' ''max-line-length'' FlagBool, mkFlag [] ''json'' FlagBool]"

text \<open>The first two counters of the file, which the command does not use: \<^verbatim>\<open>Count\<close> on the chunks its reader delivers,
  and \<^verbatim>\<open>CountScanner\<close> byte by byte.\<close>

definition count_word :: "nat \<Rightarrow> WcResult \<times> bool \<Rightarrow> WcResult \<times> bool" where
  "count_word r s =
     (case s of (res, inWord) \<Rightarrow>
        if isSpaceRune r then (res, False)
        else if \<not> inWord then (res\<lparr>Words := Words res + 1\<rparr>, True)
        else (res, inWord))"

fun count_chunks :: "string list \<Rightarrow> WcResult \<times> bool \<Rightarrow> WcResult \<times> bool" where
  "count_chunks [] s = s"
| "count_chunks (c # cs) (res, inWord) =
     count_chunks cs
       (fold count_word (runes c)
          (res\<lparr>Bytes := Bytes res + length c, Lines := Lines res + length (filter (\<lambda>b. b = NL) c),
               Chars := Chars res + length (runes c)\<rparr>, inWord))"

definition wc_Count :: "string list \<Rightarrow> WcResult" where
  "wc_Count cs = fst (count_chunks cs (wc_zero, False))"

fun count_bytes :: "string \<Rightarrow> WcResult \<times> bool \<Rightarrow> WcResult \<times> bool" where
  "count_bytes [] s = s"
| "count_bytes (b # bs) (res, inWord) =
     count_bytes bs
       (count_word (code b)
          (res\<lparr>Bytes := Bytes res + 1, Lines := (if b = NL then Lines res + 1 else Lines res)\<rparr>, inWord))"

definition CountScanner :: "string \<Rightarrow> WcResult" where
  "CountScanner s = fst (count_bytes s (wc_zero, False))"

text \<open>The state of \<^verbatim>\<open>CountProper\<close>: the counts, \<^verbatim>\<open>inWord\<close> and \<^verbatim>\<open>curLineLen\<close>.\<close>

record wc_state =
  w_res :: WcResult
  w_inWord :: bool
  w_cur :: nat

definition wc_newline :: "wc_state \<Rightarrow> wc_state" where
  "wc_newline s =
     (let res = w_res s
      in s\<lparr>w_res := res\<lparr>Lines := Lines res + 1,
             MaxLineLength := (if w_cur s > MaxLineLength res then w_cur s else MaxLineLength res)\<rparr>,
           w_cur := 0, w_inWord := False\<rparr>)"

definition wc_other :: "bool \<Rightarrow> wc_state \<Rightarrow> wc_state" where
  "wc_other space s =
     (let s1 = s\<lparr>w_cur := w_cur s + 1\<rparr>; res = w_res s1
      in if space then s1\<lparr>w_inWord := False\<rparr>
         else if \<not> w_inWord s1 then s1\<lparr>w_inWord := True, w_res := res\<lparr>Words := Words res + 1\<rparr>\<rparr>
         else s1)"

definition wc_count :: "nat \<Rightarrow> wc_state \<Rightarrow> wc_state" where
  "wc_count n s = s\<lparr>w_res := (w_res s)\<lparr>Bytes := Bytes (w_res s) + n, Chars := Chars (w_res s) + 1\<rparr>\<rparr>"

definition wc_ascii :: "char \<Rightarrow> wc_state \<Rightarrow> wc_state" where
  "wc_ascii b s =
     (let s1 = wc_count 1 s
      in if b = NL then wc_newline s1
         else wc_other (b = CHR '' '' \<or> b = TAB \<or> b = CHR 0x0D \<or> b = CHR 0x0C \<or> b = CHR 0x0B) s1)"

definition wc_rune :: "nat \<Rightarrow> nat \<Rightarrow> wc_state \<Rightarrow> wc_state" where
  "wc_rune rn sz s =
     (let s1 = wc_count sz s in if rn = 10 then wc_newline s1 else wc_other (isSpaceRune rn) s1)"

text \<open>The loop over one window, from the bytes at position \<open>i\<close> on: the new state and the position reached.\<close>

function wc_window :: "bool \<Rightarrow> string \<Rightarrow> nat \<Rightarrow> wc_state \<Rightarrow> wc_state \<times> nat" where
  "wc_window eof [] i s = (s, i)"
| "wc_window eof (b # rest) i s =
     (if code b < 128 then wc_window eof rest (i + 1) (wc_ascii b s)
      else if length (b # rest) < 4 \<and> \<not> eof then (s, i)
      else
        (let (rn, sz) = decodeRune (b # rest)
         in wc_window eof (drop sz (b # rest)) (i + sz) (wc_rune rn sz s)))"
  by pat_completeness auto
termination
proof (relation "measure (\<lambda>(eof, buf, i, s). length buf)", goal_cases)
  case (3 eof b rest i s x rn sz)
  then have "snd (decodeRune (b # rest)) = sz" by (metis snd_conv)
  then show ?case using decodeRune_width [of "b # rest"] by (auto simp del: decodeRune.simps)
qed auto

definition peek_size :: nat where "peek_size = 65536"

lemma window_advances:
  assumes "s \<noteq> []" and "4 \<le> n"
  shows "0 < snd (wc_window (length s < n) (take n s) 0 st)"
proof -
  have le: "i \<le> snd (wc_window eof buf i st)" for eof buf i st
    by (induction eof buf i st rule: wc_window.induct) (auto split: prod.splits, (metis add_leD1)+)
  obtain b rest where b: "take n s = b # rest" using assms by (cases s; cases n) auto
  have full: "\<not> (length (b # rest) < 4 \<and> \<not> length s < n)" using assms(2) b [symmetric] by auto
  show ?thesis
  proof (cases "code b < 128")
    case True
    then show ?thesis using le [of 1] b by (simp add: Suc_le_lessD)
  next
    case False
    obtain rn sz where d: "decodeRune (b # rest) = (rn, sz)" by (cases "decodeRune (b # rest)")
    then have "1 \<le> sz" using decodeRune_width [of "b # rest"] by simp
    moreover have "wc_window (length s < n) (take n s) 0 st =
        wc_window (length s < n) (drop sz (b # rest)) sz (wc_rune rn sz st)"
      using False full d unfolding b wc_window.simps by (simp only: if_False Let_def prod.case add_0)
    ultimately show ?thesis using le [of sz] by (metis less_le_trans zero_less_one)
  qed
qed

text \<open>The outer loop: \<^verbatim>\<open>Peek\<close> gives the next window, and the end of input when it is not full.\<close>

function wc_loop :: "string \<Rightarrow> wc_state \<Rightarrow> wc_state" where
  "wc_loop s st =
     (if s = [] then st
      else
        (let (st', i) = wc_window (length s < peek_size) (take peek_size s) 0 st in wc_loop (drop i s) st'))"
  by pat_completeness auto
termination
proof (relation "measure (\<lambda>(s, st). length s)", goal_cases)
  case (2 s st x st' i)
  then have "snd (wc_window (length s < peek_size) (take peek_size s) 0 st) = i" by (metis snd_conv)
  then have "0 < i" using window_advances [OF 2(1), of peek_size st] by (simp add: peek_size_def)
  then show ?case using 2(1) by simp
qed auto

declare wc_loop.simps [simp del]

definition CountProper :: "string \<Rightarrow> WcResult" where
  "CountProper r =
     (let st = wc_loop r \<lparr>w_res = wc_zero, w_inWord = False, w_cur = 0\<rparr>; res = w_res st
      in if w_cur st > MaxLineLength res then res\<lparr>MaxLineLength := w_cur st\<rparr> else res)"

definition num_field :: "bool \<Rightarrow> nat \<Rightarrow> string" where
  "num_field shown n = (if shown then '' '' @ itoa_nat n else [])"

definition printCount :: "WcResult \<Rightarrow> string \<Rightarrow> bool \<Rightarrow> bool \<Rightarrow> bool \<Rightarrow> bool \<Rightarrow> bool \<Rightarrow> string" where
  "printCount res name showLines showWords showBytes showChars showMaxLine =
     (let line = num_field showMaxLine (MaxLineLength res) @ num_field showLines (Lines res) @ num_field showWords (Words res)
             @ (if showChars then num_field True (Chars res) else num_field showBytes (Bytes res))
             @ (if name \<noteq> ''-'' then '' '' @ name else [])
      in if line \<noteq> [] then tl line @ [NL] else [])"

definition wc_add :: "WcResult \<Rightarrow> WcResult \<Rightarrow> WcResult" where
  "wc_add t r = t\<lparr>Lines := Lines t + Lines r, Words := Words t + Words r, Bytes := Bytes t + Bytes r, Chars := Chars t + Chars r\<rparr>"

text \<open>The loop over the operands: the paths counted with their results, in order, and what is written on standard
  error.\<close>

fun wc_files :: "files \<Rightarrow> string \<Rightarrow> string list \<Rightarrow> (string \<times> WcResult) list \<times> string" where
  "wc_files fs stdin [] = ([], [])"
| "wc_files fs stdin (p # ps) =
     (if p = ''-'' then
        (let (rs, err) = wc_files fs [] ps in ((p, CountProper stdin) # rs, err))
      else
        (case fs p of
           Inl e \<Rightarrow> (let (rs, err) = wc_files fs stdin ps in (rs, ''wc: '' @ p @ '': '' @ e @ [NL] @ err))
         | Inr c \<Rightarrow> (let (rs, err) = wc_files fs stdin ps in ((p, CountProper c) # rs, err))))"

definition WcResult_json :: "WcResult \<Rightarrow> json" where
  "WcResult_json r =
     JObj [(''lines'', JInt (int (Lines r))), (''words'', JInt (int (Words r))), (''bytes'', JInt (int (Bytes r))),
           (''chars'', JInt (int (Chars r))), (''maxLineLength'', JInt (int (MaxLineLength r)))]"

text \<open>A Go map is encoded with its keys sorted; a later entry for a key replaces an earlier one.\<close>

definition wc_map_json :: "(string \<times> WcResult) list \<Rightarrow> json" where
  "wc_map_json rs = JObj (fold (\<lambda>(p, r). map_insert p (WcResult_json r)) rs [])"

definition wc_run :: "files \<Rightarrow> string \<Rightarrow> string list \<Rightarrow> result" where
  "wc_run fs stdin args =
     (case ParseFlags args wc_spec of
        Inl e \<Rightarrow> flag_failure ''wc'' args e 2
      | Inr flags \<Rightarrow>
          (let l = Has flags ''l''; w = Has flags ''w''; c = Has flags ''c''; m = Has flags ''m''; x = Has flags ''L'';
               none = (\<not> l \<and> \<not> w \<and> \<not> c \<and> \<not> m \<and> \<not> x);
               paths = (if Positional flags = [] then [''-''] else Positional flags);
               (rs, err) = wc_files fs stdin paths;
               total = foldl (\<lambda>t (p, r). wc_add t r) wc_zero rs;
               exitCode = (if length rs < length paths then 1 else 0);
               out = (\<lambda>r name. printCount r name (l \<or> none) (w \<or> none) (c \<or> none) m x)
           in (exitCode,
               if Has flags ''json'' then
                 (if exitCode \<noteq> 0 then RenderError ''wc'' exitCode ''IO'' ''one or more files could not be read'' True
                  else if length paths = 1 then Render ''wc'' (WcResult_json (snd (hd rs))) True []
                  else Render ''wc'' (wc_map_json (rs @ [(''total'', total)])) True [])
               else
                 concat (map (\<lambda>(p, r). out r p) rs) @ (if length paths > 1 then out total ''total'' else []),
               err)))"

section \<open>Reference: counting the whole text\<close>

definition wc_step :: "nat \<times> string \<Rightarrow> wc_state \<Rightarrow> wc_state" where
  "wc_step = (\<lambda>(r, p). wc_rune r (length p))"

lemma wc_ascii_rune: "code b < 128 \<Longrightarrow> wc_ascii b s = wc_rune (code b) 1 s"
proof -
  have nl: "code b = 10 \<longleftrightarrow> b = NL" using code_inject [of b NL] by (simp add: code_def)
  have sp: "isSpaceRune (code b) \<longleftrightarrow> b = CHR '' '' \<or> b = TAB \<or> b = CHR 0x0D \<or> b = CHR 0x0C \<or> b = CHR 0x0B" if "code b < 128" "b \<noteq> NL"
  proof -
    have "code b \<noteq> 10" using nl that by simp
    then have "isSpaceRune (code b) \<longleftrightarrow> code b = 32 \<or> code b = 9 \<or> code b = 13 \<or> code b = 12 \<or> code b = 11"
      using that by (auto simp: isSpaceRune_def)
    then show ?thesis
      using code_inject [of b "CHR '' ''"] code_inject [of b TAB] code_inject [of b "CHR 0x0D"] code_inject [of b "CHR 0x0C"]
        code_inject [of b "CHR 0x0B"] by (simp add: code_def)
  qed
  assume "code b < 128"
  then show ?thesis using nl sp by (auto simp: wc_ascii_def wc_rune_def Let_def)
qed

lemma decodeRune_prefix: "4 \<le> length buf \<Longrightarrow> decodeRune (buf @ t) = decodeRune buf"
  by (cases buf) auto

text \<open>A window counts a prefix of the pieces of the text; the rest starts where it stopped.\<close>

lemma window_pieces:
  "wc_window eof buf i s = (s', j) \<Longrightarrow> (eof \<longrightarrow> t = []) \<Longrightarrow>
   i \<le> j \<and> fold wc_step (rune_pieces (buf @ t)) s = fold wc_step (rune_pieces (drop (j - i) (buf @ t))) s'"
proof (induction eof buf i s rule: wc_window.induct)
  case (2 eof b rest i s)
  show ?case
  proof (cases "code b < 128")
    case True
    then have "i + 1 \<le> j \<and> fold wc_step (rune_pieces (rest @ t)) (wc_ascii b s) =
        fold wc_step (rune_pieces (drop (j - (i + 1)) (rest @ t))) s'"
      using "2.IH"(1) 2(3,4) by simp
    moreover have "fold wc_step (rune_pieces ((b # rest) @ t)) s = fold wc_step (rune_pieces (rest @ t)) (wc_ascii b s)"
      using True by (simp add: rune_pieces_ascii wc_step_def wc_ascii_rune)
    ultimately show ?thesis by (auto simp: drop_Cons' Suc_diff_le)
  next
    case False
    show ?thesis
    proof (cases "length (b # rest) < 4 \<and> \<not> eof")
      case True
      then show ?thesis using False 2(3) by simp
    next
      case go: False
      obtain rn sz where d: "decodeRune (b # rest) = (rn, sz)" by (cases "decodeRune (b # rest)")
      then have w: "1 \<le> sz" "sz \<le> length (b # rest)" using decodeRune_width [of "b # rest"] by simp_all
      have same: "decodeRune ((b # rest) @ t) = (rn, sz)" using go 2(4) d decodeRune_prefix [of "b # rest" t] by auto
      have "wc_window eof (drop sz (b # rest)) (i + sz) (wc_rune rn sz s) = (s', j)"
        using 2(3) False go unfolding wc_window.simps d by (simp only: if_False Let_def prod.case)
      then have "i + sz \<le> j \<and> fold wc_step (rune_pieces (drop sz (b # rest) @ t)) (wc_rune rn sz s) =
          fold wc_step (rune_pieces (drop (j - (i + sz)) (drop sz (b # rest) @ t))) s'"
        using "2.IH"(2) [OF False go d [symmetric] refl] 2(4) by blast
      moreover have "fold wc_step (rune_pieces ((b # rest) @ t)) s =
          fold wc_step (rune_pieces (drop sz (b # rest) @ t)) (wc_rune rn sz s)"
      proof -
        have "drop sz (b # rest @ t) = drop sz (b # rest) @ t" using w by (cases sz) auto
        then show ?thesis using same w by (subst rune_pieces.simps) (simp add: wc_step_def del: decodeRune.simps)
      qed
      moreover have "drop (j - (i + sz)) (drop sz (b # rest) @ t) = drop (j - i) ((b # rest) @ t)" if "i + sz \<le> j"
      proof -
        have "drop sz ((b # rest) @ t) = drop sz (b # rest) @ t" unfolding drop_append using w by simp
        then have "drop (j - (i + sz)) (drop sz (b # rest) @ t) = drop (j - (i + sz)) (drop sz ((b # rest) @ t))" by simp
        then show ?thesis using that by (simp only: drop_drop le_add_diff_inverse2) (simp add: add.commute)
      qed
      ultimately show ?thesis by auto
    qed
  qed
qed simp

lemma wc_loop_pieces: "wc_loop s st = fold wc_step (rune_pieces s) st"
proof (induction s st rule: wc_loop.induct)
  case (1 s st)
  show ?case
  proof (cases "s = []")
    case False
    let ?eof = "length s < peek_size"
    obtain st' i where w: "wc_window ?eof (take peek_size s) 0 st = (st', i)" by (cases "wc_window ?eof (take peek_size s) 0 st")
    have "fold wc_step (rune_pieces (take peek_size s @ drop peek_size s)) st =
        fold wc_step (rune_pieces (drop (i - 0) (take peek_size s @ drop peek_size s))) st'"
      using window_pieces [OF w, of "drop peek_size s"] by simp
    then show ?thesis using "1.IH" [OF False w [symmetric] refl] w False by (subst wc_loop.simps) simp
  qed (simp add: wc_loop.simps)
qed

text \<open>The lines of a text as rune sequences.\<close>

fun rune_lines :: "nat list \<Rightarrow> nat list list" where
  "rune_lines [] = [[]]"
| "rune_lines (r # rs) =
     (if r = 10 then [] # rune_lines rs
      else (case rune_lines rs of [] \<Rightarrow> [[r]] | l # ls \<Rightarrow> (r # l) # ls))"

definition longest :: "nat list list \<Rightarrow> nat" where
  "longest ls = fold max (map length ls) 0"

definition wc_text :: "string \<Rightarrow> WcResult" where
  "wc_text s = \<lparr>Lines = length (filter (\<lambda>r. r = 10) (runes s)), Words = length (Fields s), Bytes = length s,
     Chars = length (runes s), MaxLineLength = longest (rune_lines (runes s))\<rparr>"

lemma concat_pieces: "concat (map snd (rune_pieces s)) = s"
proof (induction s rule: rune_pieces.induct)
  case (1 s)
  then show ?case by (subst rune_pieces.simps) (auto simp del: decodeRune.simps)
qed

lemma range_runes_pieces: "map snd (range_runes off s) = map fst (rune_pieces s)"
proof (induction s arbitrary: off rule: rune_pieces.induct)
  case (1 s)
  then show ?case by (subst range_runes.simps, subst rune_pieces.simps) (auto simp: Let_def simp del: decodeRune.simps split: prod.splits)
qed

lemma runes_pieces: "runes s = map fst (rune_pieces s)"
  by (simp add: runes_def range_runes_pieces)

lemma pieces_not_Nil: "(r, p) \<in> set (rune_pieces s) \<Longrightarrow> p \<noteq> []"
proof (induction s rule: rune_pieces.induct)
  case (1 s)
  show ?case
  proof (cases "s = []")
    case False
    then have "take (snd (decodeRune s)) s \<noteq> []" using decodeRune_width [of s] by (auto simp del: decodeRune.simps)
    then show ?thesis using 1 False by (subst (asm) (2) rune_pieces.simps) (auto simp del: decodeRune.simps)
  qed (use 1 in simp)
qed

lemma wc_rune_fields [simp]:
  "Bytes (w_res (wc_rune r n s)) = Bytes (w_res s) + n"
  "Chars (w_res (wc_rune r n s)) = Chars (w_res s) + 1"
  "Lines (w_res (wc_rune r n s)) = Lines (w_res s) + (if r = 10 then 1 else 0)"
  "Words (w_res (wc_rune r n s)) = Words (w_res s) + (if r \<noteq> 10 \<and> \<not> isSpaceRune r \<and> \<not> w_inWord s then 1 else 0)"
  "w_inWord (wc_rune r n s) \<longleftrightarrow> r \<noteq> 10 \<and> \<not> isSpaceRune r"
  "w_cur (wc_rune r n s) = (if r = 10 then 0 else w_cur s + 1)"
  "MaxLineLength (w_res (wc_rune r n s)) =
     (if r = 10 then max (w_cur s) (MaxLineLength (w_res s)) else MaxLineLength (w_res s))"
  by (auto simp: wc_rune_def wc_count_def wc_newline_def wc_other_def Let_def)

lemma fold_counts:
  "Bytes (w_res (fold wc_step ps s)) = Bytes (w_res s) + length (concat (map snd ps))"
  "Chars (w_res (fold wc_step ps s)) = Chars (w_res s) + length ps"
  "Lines (w_res (fold wc_step ps s)) = Lines (w_res s) + length (filter (\<lambda>r. r = 10) (map fst ps))"
  by (induction ps arbitrary: s) (auto simp: wc_step_def split: prod.splits)

lemma fold_words:
  "\<forall>(r, p) \<in> set ps. p \<noteq> [] \<Longrightarrow> (w_inWord s \<longleftrightarrow> cur \<noteq> []) \<Longrightarrow>
   Words (w_res (fold wc_step ps s)) + (if cur \<noteq> [] then 1 else 0) = Words (w_res s) + length (fields_aux cur ps)"
proof (induction ps arbitrary: s cur)
  case (Cons x ps)
  obtain r p where x: "x = (r, p)" by (cases x)
  have nl: "isSpaceRune 10" by (simp add: isSpaceRune_def)
  have p: "p \<noteq> []" using Cons.prems(1) x by auto
  show ?case
  proof (cases "isSpaceRune r")
    case True
    then show ?thesis using Cons.IH [of "wc_rune r (length p) s" "[]"] Cons.prems x by (auto simp: wc_step_def)
  next
    case False
    then have "r \<noteq> 10" using nl by auto
    then show ?thesis using Cons.IH [of "wc_rune r (length p) s" "cur @ p"] Cons.prems x False p by (auto simp: wc_step_def)
  qed
qed simp

lemma rune_lines_not_Nil [simp]: "rune_lines rs \<noteq> []"
  by (cases rs) (auto split: list.splits)

lemma fold_max_init: "fold max xs (a :: nat) = max a (fold max xs 0)"
proof (induction xs arbitrary: a)
  case (Cons x xs)
  show ?case using Cons [of "max x a"] Cons [of x] by (simp add: max.assoc max.commute max.left_commute)
qed simp

lemma fold_longest:
  "max (w_cur (fold wc_step ps s)) (MaxLineLength (w_res (fold wc_step ps s))) =
     max (MaxLineLength (w_res s))
       (case rune_lines (map fst ps) of [] \<Rightarrow> 0 | l # ls \<Rightarrow> max (w_cur s + length l) (longest ls))"
proof (induction ps arbitrary: s)
  case Nil
  show ?case by (simp add: longest_def)
next
  case (Cons x ps)
  obtain r p where x: "x = (r, p)" by (cases x)
  obtain l ls where l: "rune_lines (map fst ps) = l # ls" by (cases "rune_lines (map fst ps)") auto
  have "longest (l # ls) = max (length l) (longest ls)"
    using fold_max_init [of "map length ls" "length l"] by (simp add: longest_def)
  then show ?case using Cons.IH [of "wc_rune r (length p) s"] l by (auto simp: x wc_step_def max.assoc max.left_commute max.commute)
qed

lemma longest_Cons: "longest (l # ls) = max (length l) (longest ls)"
  using fold_max_init [of "map length ls" "length l"] by (simp add: longest_def)

section \<open>Properties\<close>

text \<open>C11. The window-by-window counter of \<^verbatim>\<open>wc\<close>, with its fast path for ASCII and its stop before a rune that a window may
  cut, counts the whole text: its newlines, the fields that \<^verbatim>\<open>strings.Fields\<close> finds, its bytes, its runes, and the
  runes of its longest line.\<close>

theorem wc_counts_text: "CountProper s = wc_text s"
proof -
  let ?s0 = "\<lparr>w_res = wc_zero, w_inWord = False, w_cur = 0\<rparr>" and ?ps = "rune_pieces s"
  let ?st = "fold wc_step ?ps ?s0"
  have f: "Bytes (w_res ?st) = length s" "Chars (w_res ?st) = length (runes s)"
    "Lines (w_res ?st) = length (filter (\<lambda>r. r = 10) (runes s))"
    by (simp_all add: fold_counts concat_pieces runes_pieces wc_zero_def)
  have "Words (w_res ?st) = length (Fields s)"
    using fold_words [of ?ps ?s0 "[]"] pieces_not_Nil [of _ _ s] by (auto simp: Fields_def wc_zero_def)
  moreover have "max (w_cur ?st) (MaxLineLength (w_res ?st)) = longest (rune_lines (runes s))"
    using fold_longest [of ?ps ?s0] by (cases "rune_lines (map fst ?ps)") (auto simp: runes_pieces wc_zero_def longest_Cons)
  ultimately show ?thesis using f unfolding CountProper_def wc_loop_pieces Let_def wc_text_def
    by (auto simp: max_def split: if_splits)
qed

text \<open>The total that \<^verbatim>\<open>wc -L\<close> prints after several files leaves their longest lines out.\<close>

theorem wc_total_longest: "MaxLineLength (foldl (\<lambda>t (p, r). wc_add t r) wc_zero rs) = 0"
proof -
  have "MaxLineLength (foldl (\<lambda>t (p, r). wc_add t r) t rs) = MaxLineLength t" for t
    by (induction rs arbitrary: t) (auto simp: wc_add_def)
  then show ?thesis by (simp add: wc_zero_def)
qed

end
