(* ===== verification/Numbers.thy ===== *)
theory Numbers
  imports Prelude
begin

text \<open>
  The arithmetic that \<^verbatim>\<open>factor\<close> rests on: primes, Fermat's little theorem, square roots of one, and the meeting of a
  slow and a fast walk along the iterates of a function on a finite set.
\<close>

section \<open>Primes\<close>

definition is_prime :: "nat \<Rightarrow> bool" where
  "is_prime p \<longleftrightarrow> 1 < p \<and> (\<forall>d. d dvd p \<longrightarrow> d = 1 \<or> d = p)"

lemma is_prime_coprime: "is_prime p \<Longrightarrow> \<not> p dvd a \<Longrightarrow> coprime p a"
proof -
  assume "is_prime p" and n: "\<not> p dvd a"
  then have "gcd p a = 1 \<or> gcd p a = p" by (auto simp: is_prime_def)
  moreover have "gcd p a \<noteq> p" using n by (metis gcd_dvd2)
  ultimately show ?thesis by (simp add: coprime_iff_gcd_eq_1)
qed

lemma is_prime_dvd_mult: "is_prime p \<Longrightarrow> p dvd a * b \<Longrightarrow> p dvd a \<or> p dvd b"
  using is_prime_coprime coprime_dvd_mult_right_iff by blast

lemma is_prime_dvd_prod: "is_prime p \<Longrightarrow> finite A \<Longrightarrow> p dvd prod f A \<Longrightarrow> \<exists>x \<in> A. p dvd f x"
proof (induction A rule: infinite_finite_induct)
  case empty
  then show ?case by (simp add: is_prime_def)
next
  case (insert x A)
  then show ?case using is_prime_dvd_mult [of p "f x" "prod f A"] by auto
qed simp

text \<open>The least divisor above one of a number that is not prime.\<close>

lemma least_divisor:
  fixes n :: nat
  assumes "1 < n" and "\<not> is_prime n"
  obtains p m where "n = p * m" "1 < p" "p \<le> m" "\<And>d. d dvd n \<Longrightarrow> 1 < d \<Longrightarrow> p \<le> d"
proof -
  define p where "p = (LEAST d. d dvd n \<and> 1 < d)"
  have p: "p dvd n" "1 < p" using LeastI [of "\<lambda>d. d dvd n \<and> 1 < d" n] assms(1) by (auto simp: p_def)
  have least: "p \<le> d" if "d dvd n" "1 < d" for d using that Least_le [of "\<lambda>d. d dvd n \<and> 1 < d" d] by (simp add: p_def)
  obtain m where m: "n = p * m" using p(1) by (auto elim: dvdE)
  obtain d where d: "d dvd n" "d \<noteq> 1" "d \<noteq> n" using assms by (auto simp: is_prime_def)
  then have "1 < d" "d < n" using assms(1) dvd_imp_le [of d n] by (cases d; auto)+
  then have "p < n" using least [OF d(1)] by simp
  then have "1 < m" using m assms(1) by (cases m) (auto simp: less_Suc_eq_0_disj)
  then have "p \<le> m" using least [of m] m by simp
  then show thesis using that m p(2) least by blast
qed

section \<open>Fermat\<close>

lemma mult_mod_inj:
  fixes p :: nat
  assumes "is_prime p" and "\<not> p dvd a"
  shows "inj_on (\<lambda>x. a * x mod p) {1..<p}"
proof (rule linorder_inj_onI)
  fix x y assume "x < y" "x \<in> {1..<p}" "y \<in> {1..<p}"
  show "a * x mod p \<noteq> a * y mod p"
  proof
    assume "a * x mod p = a * y mod p"
    then have "p dvd a * y - a * x" using mod_eq_dvd_iff_nat [of "a * x" "a * y" p] \<open>x < y\<close> by simp
    then have "p dvd a * (y - x)" by (simp add: diff_mult_distrib2)
    then have "p dvd y - x" using is_prime_dvd_mult assms by blast
    then show False using \<open>x < y\<close> \<open>y \<in> {1..<p}\<close> dvd_imp_le [of p "y - x"] by auto
  qed
qed auto

lemma Fermat:
  fixes p :: nat
  assumes "is_prime p" and "\<not> p dvd a"
  shows "a ^ (p - 1) mod p = 1"
proof -
  let ?A = "{1..<p}" and ?P = "\<Prod>x \<in> {1..<p}. x"
  have p: "1 < p" using assms(1) by (simp add: is_prime_def)
  have nd: "\<not> p dvd x" if "x \<in> ?A" for x using that dvd_imp_le [of p x] by auto
  have "(\<lambda>x. a * x mod p) ` ?A \<subseteq> ?A"
  proof
    fix y assume "y \<in> (\<lambda>x. a * x mod p) ` ?A"
    then obtain x where x: "x \<in> ?A" "y = a * x mod p" by blast
    have "\<not> p dvd a * x" using is_prime_dvd_mult [OF assms(1), of a x] assms(2) nd [OF x(1)] by blast
    then show "y \<in> ?A" using x(2) p by (simp add: dvd_eq_mod_eq_0)
  qed
  then have "bij_betw (\<lambda>x. a * x mod p) ?A ?A"
    using mult_mod_inj [OF assms] endo_inj_surj [of ?A "\<lambda>x. a * x mod p"] by (simp add: bij_betw_def)
  then have "(\<Prod>x \<in> ?A. a * x mod p) = ?P" using prod.reindex_bij_betw [of _ ?A ?A "\<lambda>x. x"] by simp
  then have "(\<Prod>x \<in> ?A. a * x) mod p = ?P mod p" using mod_prod_eq [of "\<lambda>x. a * x" p ?A] by simp
  then have "(a ^ (p - 1) * ?P) mod p = ?P mod p" by (simp add: prod.distrib)
  moreover have "1 \<le> a ^ (p - 1)" using assms(2) by (cases "a = 0") auto
  ultimately have "p dvd a ^ (p - 1) * ?P - ?P" using mod_eq_dvd_iff_nat [of ?P "a ^ (p - 1) * ?P" p] by simp
  then have "p dvd (a ^ (p - 1) - 1) * ?P" by (simp add: diff_mult_distrib)
  moreover have "\<not> p dvd ?P" using is_prime_dvd_prod [OF assms(1), of ?A "\<lambda>x. x"] nd by auto
  ultimately have "p dvd a ^ (p - 1) - 1" using is_prime_dvd_mult [OF assms(1)] by blast
  then show ?thesis using mod_eq_dvd_iff_nat [of 1 "a ^ (p - 1)" p] \<open>1 \<le> a ^ (p - 1)\<close> p by simp
qed

lemma sqrt_one:
  fixes p x :: nat
  assumes "is_prime p" and "x < p" and "x * x mod p = 1"
  shows "x = 1 \<or> x = p - 1"
proof -
  have p: "1 < p" using assms(1) by (simp add: is_prime_def)
  have "x \<noteq> 0" using assms(3) by (cases x) auto
  then have "p dvd x * x - 1" using mod_eq_dvd_iff_nat [of 1 "x * x" p] assms(3) p by simp
  moreover have "x * x - 1 = (x - 1) * (x + 1)" using \<open>x \<noteq> 0\<close> by (cases x) auto
  ultimately have "p dvd x - 1 \<or> p dvd x + 1" using is_prime_dvd_mult [OF assms(1)] by metis
  then show ?thesis
  proof
    assume "p dvd x - 1"
    then show ?thesis using assms(2) \<open>x \<noteq> 0\<close> dvd_imp_le [of p "x - 1"] by (cases "x = 1") auto
  next
    assume "p dvd x + 1"
    then show ?thesis using assms(2) dvd_imp_le [of p "x + 1"] by auto
  qed
qed

section \<open>Two walks meet\<close>

lemma funpow_split: "(f ^^ (i + j)) x = (f ^^ i) ((f ^^ j) x)" for f :: "'a \<Rightarrow> 'a"
  by (simp add: funpow_add)

lemma funpow_repeat:
  fixes f :: "'a \<Rightarrow> 'a"
  assumes "(f ^^ a) x = (f ^^ b) x" and "a \<le> i" and "a \<le> b"
  shows "(f ^^ (i + k * (b - a))) x = (f ^^ i) x"
proof (induction k)
  case (Suc k)
  have "(f ^^ (i + (b - a))) x = (f ^^ (i - a)) ((f ^^ b) x)" using assms(2,3) by (simp flip: funpow_split)
  also have "\<dots> = (f ^^ (i - a)) ((f ^^ a) x)" using assms(1) by simp
  also have "\<dots> = (f ^^ i) x" using assms(2) by (simp flip: funpow_split)
  finally have "(f ^^ (k * (b - a) + (i + (b - a)))) x = (f ^^ (k * (b - a) + i)) x" unfolding funpow_split by simp
  then show ?case using Suc by (simp add: ac_simps)
qed simp

text \<open>On a finite set the walk of one step and the walk of two steps meet.\<close>

lemma walks_meet:
  fixes f :: "nat \<Rightarrow> nat"
  assumes "\<And>x. f x < n" and "x < n"
  shows "\<exists>i \<ge> 1. (f ^^ i) x = (f ^^ (2 * i)) x"
proof -
  have lt: "(f ^^ i) x < n" for i using assms by (cases i) auto
  have "\<not> inj_on (\<lambda>i. (f ^^ i) x) {0..n}"
  proof
    assume "inj_on (\<lambda>i. (f ^^ i) x) {0..n}"
    moreover have "(\<lambda>i. (f ^^ i) x) ` {0..n} \<subseteq> {0..<n}" using lt by auto
    ultimately have "card {0..n} \<le> card {0..<n}" by (intro card_inj_on_le) auto
    then show False by simp
  qed
  then obtain a b where ab: "a < b" "(f ^^ a) x = (f ^^ b) x" unfolding inj_on_def by (metis nat_neq_iff)
  let ?i = "Suc a * (b - a)"
  have "1 \<le> b - a" using ab(1) by simp
  then have i: "a \<le> ?i" "1 \<le> ?i" using mult_le_mono [of "Suc a" "Suc a" 1 "b - a"] by auto
  have "(f ^^ (?i + Suc a * (b - a))) x = (f ^^ ?i) x" using funpow_repeat [OF ab(2) i(1) less_imp_le [OF ab(1)], of "Suc a"] .
  then have "(f ^^ ?i) x = (f ^^ (2 * ?i)) x" by (simp only: mult_2)
  then show ?thesis using i(2) by blast
qed

end
