(* ===== verification/Factor.thy ===== *)
theory Factor
  imports Cli Numbers
begin

text \<open>
  The utility \<^verbatim>\<open>factor\<close>: \<^verbatim>\<open>pkg/factor/factor.go\<close>.  A \<^verbatim>\<open>uint64\<close> is a natural number with the wrap-around written
  out.  In the arithmetic part \<^const>\<open>None\<close> is a loop that does not end or a panic of \<^verbatim>\<open>bits.Div64\<close>; it is shown that neither
  happens: primes pass the Miller-Rabin test (Fermat), the walks of Pollard's rho meet (Floyd), and for every
  composite number one of the constants tried splits it.  That the twelve bases recognise every composite below
  \<open>2 ^ 64\<close> is a published computation and is not proved; what is proved is that a composite with a divisor
  among the bases is recognised.
\<close>

section \<open>The program\<close>

fun preProcess_loop :: "bool \<Rightarrow> string list \<Rightarrow> string list" where
  "preProcess_loop inserted [] = []"
| "preProcess_loop inserted (arg # args) =
     (if inserted then arg # preProcess_loop True args
      else if arg = ''--'' then arg # preProcess_loop True args
      else if prefix ''-'' arg then
        (if arg = ''-h'' \<or> arg = ''--help'' \<or> arg = ''-V'' \<or> arg = ''--version'' \<or> arg = ''--json''
         then arg # preProcess_loop False args
         else ''--'' # arg # preProcess_loop True args)
      else ''--'' # arg # preProcess_loop True args)"

definition preProcessFactorArgs :: "string list \<Rightarrow> FlagError + string list" where
  "preProcessFactorArgs args = Inr (preProcess_loop False args)"

definition factor_spec :: FlagSpec where
  "factor_spec = (mkSpec [mkFlag ''h'' ''help'' FlagBool, mkFlag ''V'' ''version'' FlagBool, mkFlag [] ''json'' FlagBool])
     \<lparr>PreProcess := Some preProcessFactorArgs\<rparr>"

text \<open>\<^verbatim>\<open>bits.Mul64\<close> and \<^verbatim>\<open>bits.Div64\<close>, which panics when the quotient does not fit.\<close>

definition mulMod :: "nat \<Rightarrow> nat \<Rightarrow> nat \<Rightarrow> nat option" where
  "mulMod a b m =
     (let hi = a * b div 2 ^ 64; lo = a * b mod 2 ^ 64
      in if m \<le> hi then None else Some ((hi * 2 ^ 64 + lo) mod m))"

fun powMod_loop :: "nat \<Rightarrow> nat \<Rightarrow> nat \<Rightarrow> nat \<Rightarrow> nat option" where
  "powMod_loop result base e m =
     (if e = 0 then Some result
      else Option.bind (if e mod 2 = 1 then mulMod result base m else Some result) (\<lambda>result'.
           Option.bind (mulMod base base m) (\<lambda>base'. powMod_loop result' base' (e div 2) m)))"

declare powMod_loop.simps [simp del]

definition powMod :: "nat \<Rightarrow> nat \<Rightarrow> nat \<Rightarrow> nat option" where
  "powMod base e m = powMod_loop 1 (base mod m) e m"

text \<open>The loop that writes \<open>d\<close> as an odd number times \<open>2 ^ s\<close>; it does not end on zero.\<close>

fun split2 :: "nat \<Rightarrow> nat \<Rightarrow> (nat \<times> nat) option" where
  "split2 d s = (if d = 0 then None else if d mod 2 = 0 then split2 (d div 2) (s + 1) else Some (d, s))"

declare split2.simps [simp del]

text \<open>The squarings of one base: whether \<open>n - 1\<close> is met.\<close>

fun squarings :: "nat \<Rightarrow> nat \<Rightarrow> nat \<Rightarrow> bool option" where
  "squarings 0 x n = Some False"
| "squarings (Suc k) x n = Option.bind (mulMod x x n) (\<lambda>x'. if x' = n - 1 then Some True else squarings k x' n)"

fun try_bases :: "nat list \<Rightarrow> nat \<Rightarrow> nat \<Rightarrow> nat \<Rightarrow> bool option" where
  "try_bases [] n d s = Some True"
| "try_bases (a # bases) n d s =
     (if n \<le> a then Some True
      else Option.bind (powMod a d n) (\<lambda>x.
        if x = 1 \<or> x = n - 1 then try_bases bases n d s
        else Option.bind (squarings (s - 1) x n) (\<lambda>met. if met then try_bases bases n d s else Some False)))"

definition mr_bases :: "nat list" where
  "mr_bases = [2, 3, 5, 7, 11, 13, 17, 19, 23, 29, 31, 37]"

definition millerRabin :: "nat \<Rightarrow> bool option" where
  "millerRabin n =
     (if n < 2 then Some False
      else if n = 2 \<or> n = 3 then Some True
      else if n mod 2 = 0 then Some False
      else Option.bind (split2 (n - 1) 0) (\<lambda>(d, s). try_bases mr_bases n d s))"

fun gcd_loop :: "nat \<Rightarrow> nat \<Rightarrow> nat" where
  "gcd_loop a b = (if b = 0 then a else gcd_loop b (a mod b))"

declare gcd_loop.simps [simp del]

definition rho_f :: "nat \<Rightarrow> nat \<Rightarrow> nat \<Rightarrow> nat option" where
  "rho_f n c x = Option.bind (mulMod x x n) (\<lambda>m. Some ((m + c) mod 2 ^ 64 mod n))"

partial_function (option) rho_loop :: "nat \<Rightarrow> nat \<Rightarrow> nat \<Rightarrow> nat \<Rightarrow> nat \<Rightarrow> nat option" where
  "rho_loop n c x y d =
     (if d = 1 then
        Option.bind (rho_f n c x) (\<lambda>x'. Option.bind (rho_f n c y) (\<lambda>y1. Option.bind (rho_f n c y1) (\<lambda>y'.
          rho_loop n c x' y' (gcd_loop (if x' > y' then x' - y' else y' - x') n))))
      else Some d)"

partial_function (option) rho_from :: "nat \<Rightarrow> nat \<Rightarrow> nat option" where
  "rho_from n c =
     Option.bind (rho_loop n c 2 2 1) (\<lambda>d. if d \<noteq> n then Some d else rho_from n ((c + 1) mod 2 ^ 64))"

definition pollardRho :: "nat \<Rightarrow> nat option" where
  "pollardRho n = (if n mod 2 = 0 then Some 2 else if n mod 3 = 0 then Some 3 else rho_from n 1)"

partial_function (option) factorize :: "nat \<Rightarrow> nat list \<Rightarrow> nat list option" where
  "factorize n factors =
     (if n < 2 then Some factors
      else Option.bind (millerRabin n) (\<lambda>prime.
        if prime then Some (factors @ [n])
        else Option.bind (pollardRho n) (\<lambda>d.
             Option.bind (factorize d factors) (\<lambda>factors'. factorize (n div d) factors'))))"

record FactorEntry =
  FE_Input :: string
  FE_Factors :: "nat list"
  FE_Error :: string

definition FactorEntry_json :: "FactorEntry \<Rightarrow> json" where
  "FactorEntry_json e =
     JObj ([(''input'', JStr (FE_Input e))]
       @ (if FE_Factors e = [] then [] else [(''factors'', JArr (map (\<lambda>f. JInt (int f)) (FE_Factors e)))])
       @ (if FE_Error e = [] then [] else [(''error'', JStr (FE_Error e))]))"

text \<open>One operand: its entry, whether it is in error, and what is written in text mode.\<close>

definition factor_input :: "bool \<Rightarrow> string \<Rightarrow> (FactorEntry list \<times> bool \<times> string \<times> string) option" where
  "factor_input jsonMode inputStr =
     (let origClean = TrimSpace inputStr;
          clean = (if prefix ''+'' origClean then tl origClean else origClean);
          bad = (if jsonMode then ([\<lparr>FE_Input = origClean, FE_Factors = [], FE_Error = ''invalid number''\<rparr>], True, [], [])
                 else ([], True, [], ''factor: '' @ origClean @ '': invalid number'' @ [NL]))
      in if prefix ''-'' clean \<or> clean = [] then Some bad
         else case ParseUint64 clean of
                None \<Rightarrow> Some bad
              | Some val \<Rightarrow>
                  Option.bind (if val > 1 then map_option sort (factorize val []) else Some []) (\<lambda>factors.
                    Some ([\<lparr>FE_Input = origClean, FE_Factors = factors, FE_Error = []\<rparr>], False,
                      if jsonMode then []
                      else Itoa (int val) @ '':'' @ concat (map (\<lambda>f. '' '' @ Itoa (int f)) factors) @ [NL], [])))"

fun factor_inputs :: "bool \<Rightarrow> string list \<Rightarrow> (FactorEntry list \<times> bool \<times> string \<times> string) option" where
  "factor_inputs jsonMode [] = Some ([], False, [], [])"
| "factor_inputs jsonMode (i # is) =
     Option.bind (factor_input jsonMode i) (\<lambda>(es, bad, out, err).
     Option.bind (factor_inputs jsonMode is) (\<lambda>(es', bad', out', err').
       Some (es @ es', bad \<or> bad', out @ out', err @ err')))"

definition factor_help :: string where
  "factor_help = ''Usage: factor [NUMBER]...'' @ [NL, NL] @ ''Print the prime factors of each NUMBER.'' @ [NL, NL]
     @ ''Options:'' @ [NL] @ ''  -h, --help     Print help'' @ [NL] @ ''  -V, --version  Print version''"

definition factor_version :: string where
  "factor_version = ''factor version v1.0.0-goposix''"

text \<open>The command; the error of the flag parser is ignored, and its result would be a nil pointer.\<close>

definition factor_run :: "string \<Rightarrow> string list \<Rightarrow> result option" where
  "factor_run stdin args =
     (let jsonMode = HasJSONFlag args
      in case ParseFlags args factor_spec of
           Inl e \<Rightarrow> None
         | Inr flags \<Rightarrow>
             if Has flags ''h'' \<or> Has flags ''help'' then
               Some (0, Render ''factor'' (JObj [(''help'', JStr factor_help)]) jsonMode (factor_help @ [NL]), [])
             else if Has flags ''V'' \<or> Has flags ''version'' then
               Some (0, Render ''factor'' (JObj [(''version'', JStr factor_version)]) jsonMode (factor_version @ [NL]), [])
             else
               Option.bind (factor_inputs jsonMode (if Positional flags \<noteq> [] then Positional flags else ScanWords stdin))
                 (\<lambda>(results, hasError, out, err).
                    Some (if hasError then 1 else 0,
                      if jsonMode
                      then Render ''factor'' (JObj [(''results'',
                             if results = [] then JNull else JArr (map FactorEntry_json results))]) True []
                      else out, err)))"

section \<open>The Miller-Rabin test\<close>

lemma mulMod_ok: "a < m \<Longrightarrow> b < m \<Longrightarrow> m \<le> 2 ^ 64 \<Longrightarrow> mulMod a b m = Some (a * b mod m)"
proof -
  assume a: "a < m" "b < m" "m \<le> 2 ^ 64"
  have "a * b < m * 2 ^ 64" using mult_strict_mono [of a m b "2 ^ 64"] a by simp
  then have "a * b div 2 ^ 64 < m" by (simp add: less_mult_imp_div_less)
  then show ?thesis by (simp add: mulMod_def Let_def)
qed

lemma mult_power_mod: "a * (b mod m) ^ k mod m = a * b ^ k mod m" for a b m :: nat
  by (metis mod_mult_right_eq power_mod)

lemma power_halve: "b ^ e = (b * b) ^ (e div 2) * (if e mod 2 = 1 then b else 1)" for b :: nat
proof -
  have "b ^ e = b ^ (2 * (e div 2) + e mod 2)" by simp
  also have "\<dots> = (b * b) ^ (e div 2) * b ^ (e mod 2)" by (simp only: power_add power_mult power2_eq_square)
  finally show ?thesis by (cases "e mod 2 = 1") auto
qed

lemma powMod_loop_ok:
  "result < m \<Longrightarrow> base < m \<Longrightarrow> m \<le> 2 ^ 64 \<Longrightarrow> powMod_loop result base e m = Some (result * base ^ e mod m)"
proof (induction e arbitrary: result base rule: less_induct)
  case (less e)
  show ?case
  proof (cases "e = 0")
    case True
    then show ?thesis using less.prems by (subst powMod_loop.simps) simp
  next
    case False
    define r where "r = (if e mod 2 = 1 then result * base mod m else result)"
    have r: "(if e mod 2 = 1 then mulMod result base m else Some result) = Some r" "r < m"
      using less.prems mulMod_ok [of result m base] by (auto simp: r_def)
    have b: "mulMod base base m = Some (base * base mod m)" "base * base mod m < m"
      using less.prems mulMod_ok [of base m base] by auto
    have "r * (base * base) ^ (e div 2) mod m = result * base ^ e mod m"
      unfolding power_halve [of base e] r_def by (simp add: mod_mult_left_eq ac_simps)
    then have "r * (base * base mod m) ^ (e div 2) mod m = result * base ^ e mod m" by (simp only: mult_power_mod)
    moreover have "e div 2 < e" using False by simp
    ultimately show ?thesis using less.IH [OF _ r(2) b(2) less.prems(3)] False r(1) b(1)
      by (subst powMod_loop.simps) simp
  qed
qed

lemma powMod_ok: "1 < m \<Longrightarrow> m \<le> 2 ^ 64 \<Longrightarrow> powMod base e m = Some (base ^ e mod m)"
  by (simp add: powMod_def powMod_loop_ok power_mod)

lemma split2_ok: "0 < d \<Longrightarrow> \<exists>d' s'. split2 d s = Some (d', s + s') \<and> d = d' * 2 ^ s' \<and> odd d'"
proof (induction d s rule: split2.induct)
  case (1 d s)
  show ?case
  proof (cases "even d")
    case True
    then have "0 < d div 2" using 1 by auto
    then obtain d' s' where "split2 (d div 2) (s + 1) = Some (d', s + 1 + s')" "d div 2 = d' * 2 ^ s'" "odd d'"
      using 1 True by (auto simp: even_iff_mod_2_eq_zero)
    then show ?thesis using True 1(2) by (intro exI [of _ d'] exI [of _ "Suc s'"]) (subst split2.simps, auto)
  next
    case False
    then show ?thesis using 1(2) by (intro exI [of _ d] exI [of _ 0]) (subst split2.simps, auto)
  qed
qed

text \<open>The squarings meet \<open>n - 1\<close> exactly when one of the iterated squares is \<open>n - 1\<close>.\<close>

lemma squarings_ok:
  "x < n \<Longrightarrow> n \<le> 2 ^ 64 \<Longrightarrow> squarings k x n = Some (\<exists>j \<in> {1..k}. x ^ 2 ^ j mod n = n - 1)"
proof (induction k arbitrary: x)
  case (Suc k)
  have m: "mulMod x x n = Some (x * x mod n)" using Suc.prems by (simp add: mulMod_ok)
  have "x * x mod n < n" using Suc.prems by simp
  note IH = Suc.IH [OF this Suc.prems(2)]
  have sh: "(x * x mod n) ^ 2 ^ j mod n = x ^ 2 ^ Suc j mod n" for j
    by (simp add: power_mod flip: power2_eq_square power_mult)
  have "(\<exists>j \<in> {1..Suc k}. x ^ 2 ^ j mod n = n - 1) \<longleftrightarrow>
    x * x mod n = n - 1 \<or> (\<exists>j \<in> {1..k}. x ^ 2 ^ Suc j mod n = n - 1)" (is "?l \<longleftrightarrow> ?r")
  proof
    assume ?l
    then obtain i where i: "i \<le> k" "x ^ 2 ^ Suc i mod n = n - 1" by (auto simp: Suc_le_eq gr0_conv_Suc)
    then show ?r by (cases "i = 0") (auto simp: power2_eq_square intro!: bexI [of _ i])
  next
    assume ?r
    then show ?l by (auto simp: power2_eq_square intro: bexI [of _ 1] bexI [of _ "Suc j" for j])
  qed
  then show ?case using m IH unfolding sh by auto
qed simp

text \<open>What the loop tests of a base, and that it tests it of every base below the number.\<close>

definition passes :: "nat \<Rightarrow> nat \<Rightarrow> nat \<Rightarrow> nat \<Rightarrow> bool" where
  "passes n d s a \<longleftrightarrow> a ^ d mod n = 1 \<or> (\<exists>j < max 1 s. a ^ (d * 2 ^ j) mod n = n - 1)"

lemma passes_squarings:
  assumes "1 < n"
  shows "passes n d s a \<longleftrightarrow>
    a ^ d mod n = 1 \<or> a ^ d mod n = n - 1 \<or> (\<exists>j \<in> {1..s - 1}. (a ^ d mod n) ^ 2 ^ j mod n = n - 1)"
proof -
  have e: "(a ^ d mod n) ^ 2 ^ j mod n = a ^ (d * 2 ^ j) mod n" for j by (simp add: power_mod power_mult)
  have "(\<exists>j < max 1 s. P j) \<longleftrightarrow> P 0 \<or> (\<exists>j \<in> {1..s - 1}. P j)" for P :: "nat \<Rightarrow> bool"
  proof
    assume "\<exists>j < max 1 s. P j"
    then obtain j where "j < max 1 s" "P j" by blast
    then show "P 0 \<or> (\<exists>j \<in> {1..s - 1}. P j)" by (cases "j = 0") auto
  next
    assume "P 0 \<or> (\<exists>j \<in> {1..s - 1}. P j)"
    then show "\<exists>j < max 1 s. P j" by (force intro: exI [of _ 0])
  qed
  then show ?thesis unfolding passes_def e by simp
qed

lemma try_bases_ok:
  "1 < n \<Longrightarrow> n \<le> 2 ^ 64 \<Longrightarrow> sorted bases \<Longrightarrow> try_bases bases n d s = Some (\<forall>a \<in> set bases. a < n \<longrightarrow> passes n d s a)"
proof (induction bases)
  case (Cons a bases)
  have lt: "a ^ d mod n < n" using Cons.prems by simp
  have "try_bases bases n d s = Some (\<forall>a \<in> set bases. a < n \<longrightarrow> passes n d s a)" using Cons by simp
  then show ?case using Cons.prems squarings_ok [OF lt, of "s - 1"] powMod_ok [of n a d] passes_squarings [of n d s a]
    by (auto simp: not_le)
qed simp

lemma is_prime_passes:
  assumes "is_prime n" and "n - 1 = d * 2 ^ s" and "0 < a" and "a < n"
  shows "passes n d s a"
proof -
  let ?x = "\<lambda>j. a ^ (d * 2 ^ j) mod n"
  have n: "1 < n" using assms(1) by (simp add: is_prime_def)
  have "\<not> n dvd a" using assms(3,4) by (auto dest: dvd_imp_le)
  then have s: "?x s = 1" using Fermat [OF assms(1)] assms(2) by simp
  have "?x j = 1 \<Longrightarrow> ?x 0 = 1 \<or> (\<exists>i < j. ?x i = n - 1)" for j
  proof (induction j)
    case (Suc j)
    have "?x (Suc j) = ?x j * ?x j mod n" by (simp add: mod_mult_eq mult_2 distrib_left flip: power_add)
    then have "?x j = 1 \<or> ?x j = n - 1" using sqrt_one [OF assms(1), of "?x j"] Suc.prems n by simp
    then show ?case using Suc.IH less_Suc_eq by blast
  qed simp
  from this [OF s] show ?thesis by (auto simp: passes_def less_max_iff_disj)
qed

lemma divisor_fails:
  assumes "a dvd n" and "1 < a" and "a < n" and "0 < d"
  shows "\<not> passes n d s a"
proof -
  have "a ^ e mod n \<noteq> 1 \<and> a ^ e mod n \<noteq> n - 1" if "0 < e" for e
  proof -
    have a: "a dvd a ^ e mod n" using assms(1) that by (simp add: dvd_mod)
    have "\<not> a dvd n - 1" using assms by (metis One_nat_def diff_diff_cancel dvd_diff_nat less_imp_le nat_dvd_1_iff_1 not_less_eq
      order_less_trans less_one nat_neq_iff)
    then show ?thesis using a assms(2) by auto
  qed
  then show ?thesis using assms(4) by (auto simp: passes_def)
qed

lemma mr_bases_sorted: "sorted mr_bases"
  by (simp add: mr_bases_def)

lemma millerRabin_ok:
  assumes "3 < n" and "odd n" and "n \<le> 2 ^ 64"
  obtains d s where "n - 1 = d * 2 ^ s" "0 < d" "millerRabin n = Some (\<forall>a \<in> set mr_bases. a < n \<longrightarrow> passes n d s a)"
proof -
  obtain d s where "split2 (n - 1) 0 = Some (d, s)" "n - 1 = d * 2 ^ s" "odd d" using split2_ok [of "n - 1" 0] assms by auto
  then show thesis using that [of d s] assms try_bases_ok [of n mr_bases d s] mr_bases_sorted
    by (simp add: millerRabin_def odd_iff_mod_2_eq_one odd_pos)
qed

text \<open>The test returns; primes pass it; a number that passes has no divisor among the bases but itself.\<close>

lemma millerRabin_returns: "n \<le> 2 ^ 64 \<Longrightarrow> \<exists>b. millerRabin n = Some b"
proof (cases "3 < n \<and> odd n")
  case True
  assume "n \<le> 2 ^ 64"
  then show ?thesis using True by (meson millerRabin_ok)
next
  case False
  then show ?thesis by (auto simp: millerRabin_def)
qed

lemma is_prime_odd: "is_prime n \<Longrightarrow> n \<noteq> 2 \<Longrightarrow> odd n"
  unfolding is_prime_def by (metis One_nat_def numeral_eq_one_iff semiring_norm(85) One_nat_def)

lemma is_prime_millerRabin:
  assumes "is_prime n" and "n \<le> 2 ^ 64"
  shows "millerRabin n = Some True"
proof (cases "n = 2 \<or> n = 3")
  case False
  have n: "1 < n" using assms(1) by (simp add: is_prime_def)
  then have "3 < n" "odd n" using False is_prime_odd [OF assms(1)] by auto
  then obtain d s where "n - 1 = d * 2 ^ s" "millerRabin n = Some (\<forall>a \<in> set mr_bases. a < n \<longrightarrow> passes n d s a)"
    using assms(2) millerRabin_ok by metis
  moreover have "0 < a" if "a \<in> set mr_bases" for a using that by (auto simp: mr_bases_def)
  ultimately show ?thesis using is_prime_passes [OF assms(1)] by simp
qed (auto simp: millerRabin_def)

lemma millerRabin_divisor:
  assumes "millerRabin n = Some True" and "n \<le> 2 ^ 64" and "a \<in> set mr_bases" and "a dvd n"
  shows "a = n"
proof (rule ccontr)
  assume "a \<noteq> n"
  have a: "1 < a" using assms(3) by (auto simp: mr_bases_def)
  have "2 \<le> n" using assms(1) by (auto simp: millerRabin_def split: if_splits)
  then have lt: "a < n" using assms(4) \<open>a \<noteq> n\<close> by (simp add: dvd_imp_le le_neq_implies_less)
  have "n \<noteq> 3"
  proof
    assume "n = 3"
    then have "a = 2" using a lt by simp
    then show False using assms(4) \<open>n = 3\<close> by simp
  qed
  then have "\<not> (n = 2 \<or> n = 3)" using a lt by auto
  then have n: "3 < n" "odd n" using assms(1) \<open>2 \<le> n\<close> by (auto simp: millerRabin_def even_iff_mod_2_eq_zero split: if_splits)
  then obtain d s where "0 < d" "millerRabin n = Some (\<forall>a \<in> set mr_bases. a < n \<longrightarrow> passes n d s a)"
    using assms(2) millerRabin_ok by metis
  then show False using divisor_fails [OF assms(4) a lt] assms(1,3) lt by auto
qed

section \<open>Pollard's rho\<close>

lemma gcd_loop_gcd: "gcd_loop a b = gcd a b"
proof (induction a b rule: gcd_loop.induct)
  case (1 a b)
  then show ?case by (cases "b = 0") (simp_all add: gcd_loop.simps [of a b] gcd_loop.simps [of a 0] gcd_red_nat [of a b])
qed

definition rho_step :: "nat \<Rightarrow> nat \<Rightarrow> nat \<Rightarrow> nat" where
  "rho_step n c x = (x * x mod n + c) mod 2 ^ 64 mod n"

lemma rho_f_ok: "x < n \<Longrightarrow> n \<le> 2 ^ 64 \<Longrightarrow> rho_f n c x = Some (rho_step n c x)"
  by (simp add: rho_f_def mulMod_ok rho_step_def)

lemma rho_step_less: "0 < n \<Longrightarrow> rho_step n c x < n"
  by (simp add: rho_step_def)

definition dist :: "nat \<Rightarrow> nat \<Rightarrow> nat" where
  "dist x y = (if x > y then x - y else y - x)"

lemma int_dist: "int (dist x y) = \<bar>int x - int y\<bar>"
  by (simp add: dist_def of_nat_diff)

lemma rho_loop_step:
  assumes "x < n" and "y < n" and "n \<le> 2 ^ 64"
  shows "rho_loop n c x y 1 =
    (let x' = rho_step n c x; y' = rho_step n c (rho_step n c y) in rho_loop n c x' y' (gcd (dist x' y') n))"
  using assms rho_step_less [of n c] by (subst rho_loop.simps) (simp add: rho_f_ok gcd_loop_gcd dist_def Let_def)

lemma rho_loop_done: "d \<noteq> 1 \<Longrightarrow> rho_loop n c x y d = Some d"
  by (subst rho_loop.simps) simp

text \<open>The loop ends, at the latest where the two walks meet, and its result divides the number.\<close>

lemma rho_loop_returns:
  assumes "2 < n" and "n \<le> 2 ^ 64"
  shows "\<exists>d. rho_loop n c 2 2 1 = Some d \<and> d dvd n \<and> d \<noteq> 1"
proof -
  let ?g = "rho_step n c"
  have lt: "(?g ^^ i) 2 < n" for i using assms(1) rho_step_less [of n c] by (cases i) auto
  obtain i where i: "1 \<le> i" "(?g ^^ i) 2 = (?g ^^ (2 * i)) 2"
    using walks_meet [of ?g n 2] rho_step_less [of n c] assms(1) by auto
  have "k < i \<Longrightarrow> \<exists>d. rho_loop n c ((?g ^^ k) 2) ((?g ^^ (2 * k)) 2) 1 = Some d \<and> d dvd n \<and> d \<noteq> 1" for k
  proof (induction "i - k" arbitrary: k rule: less_induct)
    case less
    let ?x = "(?g ^^ Suc k) 2" and ?y = "(?g ^^ (2 * Suc k)) 2"
    let ?d = "gcd (dist ?x ?y) n"
    have st: "rho_loop n c ((?g ^^ k) 2) ((?g ^^ (2 * k)) 2) 1 = rho_loop n c ?x ?y ?d"
      using rho_loop_step [OF lt lt assms(2)] by (simp add: Let_def)
    show ?case
    proof (cases "?d = 1")
      case True
      have "Suc k \<noteq> i"
      proof
        assume "Suc k = i"
        then have "dist ?x ?y = 0" using i(2) by (simp add: dist_def)
        then show False using True assms(1) by simp
      qed
      then have "\<exists>d. rho_loop n c ?x ?y 1 = Some d \<and> d dvd n \<and> d \<noteq> 1" using less by (intro less.hyps) auto
      then show ?thesis using st True by simp
    next
      case False
      then show ?thesis using st rho_loop_done by auto
    qed
  qed
  from this [of 0] show ?thesis using i(1) by simp
qed

lemma dist_dvd:
  assumes "y mod n = (z + x) mod n" and "m dvd n"
  shows "m dvd dist x y \<longleftrightarrow> m dvd z"
proof -
  have "int y mod int n = (int z + int x) mod int n" using assms(1) by (metis of_nat_add of_nat_mod)
  then have "int n dvd (int z + int x) - int y" unfolding mod_eq_dvd_iff [symmetric] by (rule sym)
  moreover have "int m dvd int n" using assms(2) by simp
  ultimately have "int m dvd (int z + int x) - int y" by (rule dvd_trans [rotated])
  then have s: "int m dvd int z + (int x - int y)" by (simp only: add_diff_eq)
  have "int m dvd int x - int y \<longleftrightarrow> int m dvd int z"
  proof
    assume "int m dvd int x - int y"
    then show "int m dvd int z" using s by (simp only: dvd_add_left_iff)
  next
    assume "int m dvd int z"
    then show "int m dvd int x - int y" using s by (simp only: dvd_add_right_iff)
  qed
  moreover have "int m dvd int (dist x y) \<longleftrightarrow> int m dvd int x - int y" by (simp only: int_dist dvd_abs_iff)
  ultimately show ?thesis by (simp only: of_nat_dvd_iff)
qed

text \<open>A constant that splits the number in the first step: with \<open>c = q - 2\<close> the walk stays at 2 modulo \<open>q\<close>.\<close>

lemma rho_splits:
  assumes n: "n = q * r" and q: "5 \<le> q" and lt: "q + 2 < n" and le: "n \<le> 2 ^ 64"
    and small: "(q + 2) * (q + 2) mod n + (q - 2) < 2 ^ 64" and r: "\<not> r dvd q + 4"
  shows "\<exists>d. rho_loop n (q - 2) 2 2 1 = Some d \<and> d \<noteq> n"
proof -
  define x where "x = rho_step n (q - 2) 2"
  define y where "y = rho_step n (q - 2) x"
  have two: "2 < n" using q lt by linarith
  have x: "x = q + 2"
  proof -
    have "2 * 2 mod n = 4" using q lt by simp
    moreover have "4 + (q - 2) = q + 2" using q by simp
    moreover have "q + 2 < 2 ^ 64" using lt le by linarith
    ultimately show ?thesis unfolding x_def rho_step_def using lt by (simp only: mod_less)
  qed
  have "y = ((q + 2) * (q + 2) mod n + (q - 2)) mod n" unfolding y_def rho_step_def x using small by (simp only: mod_less)
  moreover have "(q + 2) * (q + 2) + (q - 2) = q * (q + 4) + (q + 2)" using q by (simp add: algebra_simps)
  ultimately have "y mod n = (q * (q + 4) + x) mod n" unfolding x by (simp only: mod_add_left_eq mod_mod_trivial)
  note iff = dist_dvd [OF this]
  have "q dvd gcd (dist x y) n" using iff [of q] n by simp
  then have "gcd (dist x y) n \<noteq> 1" using q by (intro notI) (simp only: nat_dvd_1_iff_1)
  moreover have "gcd (dist x y) n \<noteq> n"
  proof
    assume "gcd (dist x y) n = n"
    then have "n dvd dist x y" by (metis gcd_dvd1)
    then have "q * r dvd q * (q + 4)" using iff [of n] n by simp
    moreover have "q \<noteq> 0" using q by simp
    ultimately show False using r by (simp only: nat_mult_dvd_cancel_disj simp_thms)
  qed
  moreover have "rho_loop n (q - 2) 2 2 1 = rho_loop n (q - 2) x y (gcd (dist x y) n)"
    using rho_loop_step [OF two two le, of "q - 2"] by (simp only: x_def y_def Let_def)
  ultimately show ?thesis using rho_loop_done by metis
qed

lemma composite_splits:
  assumes "3 < n" and "\<not> is_prime n" and "odd n" and "\<not> 3 dvd n" and "n < 2 ^ 64"
  obtains c where "1 \<le> c" "c < 2 ^ 64" "\<exists>d. rho_loop n c 2 2 1 = Some d \<and> d \<noteq> n"
proof -
  have "1 < n" using assms(1) by simp
  then obtain p m where n: "n = p * m" and p: "1 < p" "p \<le> m" using assms(2) by (rule least_divisor)
  have odd: "odd p" "odd m" using assms(3) n by auto
  have "p \<noteq> 3" using assms(4) n by auto
  moreover have "p \<noteq> 2" "p \<noteq> 4" using odd(1) by auto
  ultimately have p5: "5 \<le> p" using p(1) by presburger
  have "p * p \<le> n" using n p(2) by simp
  then have "p * p < (2 ^ 32) * (2 ^ 32 :: nat)" using assms(5) by simp
  then have p32: "p < 2 ^ 32" by (metis linorder_not_less mult_le_mono)
  have m5: "5 \<le> m" using p5 p(2) by simp
  have "5 * p \<le> n" "5 * m \<le> n" using n p5 m5 by (simp_all add: mult.commute)
  then have lt: "p + 2 < n" "m + 2 < n" using p5 m5 by simp_all
  show thesis
  proof (cases "m = p + 4")
    case False
    have nd: "\<not> m dvd p + 4"
    proof
      assume "m dvd p + 4"
      then obtain k where k: "p + 4 = m * k" by (auto elim: dvdE)
      have "k \<noteq> 0" using k by (cases k) auto
      moreover have "k \<noteq> 1" using k False by auto
      ultimately have "2 * m \<le> p + 4" using k mult_le_mono [of m m 2 k] by simp
      then show False using p(2) p5 by simp
    qed
    have small: "(p + 2) * (p + 2) mod n + (p - 2) < 2 ^ 64"
    proof (cases "m < p + 5")
      case True
      then have "m \<le> p + 4" by simp
      then have "n \<le> p * (p + 4)" using n by simp
      then have le: "n \<le> (p + 2) * (p + 2)" by (simp add: algebra_simps)
      have "(p + 2) * (p + 2) mod n \<le> (p + 2) * (p + 2) - n" using le by (simp add: le_mod_geq)
      also have "\<dots> \<le> 4 * p + 4" using \<open>p * p \<le> n\<close> by (simp add: algebra_simps)
      finally show ?thesis using p32 by simp
    next
      case False
      have "m \<noteq> p + 5" using odd by auto
      then have "p + 6 \<le> m" using False by simp
      then have "p * (p + 6) \<le> n" using n by simp
      then have "(p + 2) * (p + 2) + (p - 2) \<le> n" using p5 by (simp add: algebra_simps)
      then show ?thesis using assms(5) mod_less_eq_dividend [of "(p + 2) * (p + 2)" n] by linarith
    qed
    have "1 \<le> p - 2" "p - 2 < 2 ^ 64" using p5 p32 by simp_all
    then show thesis using that rho_splits [OF n p5 lt(1) less_imp_le [OF assms(5)] small nd] by blast
  next
    case True
    have nm: "n = m * p" using n by simp
    have nd: "\<not> p dvd m + 4"
    proof
      assume "p dvd m + 4"
      then have "p dvd p + 8" using True by (simp add: add.assoc)
      then have "p dvd 8" by (simp add: dvd_add_right_iff)
      then have "p \<le> 8" using dvd_imp_le by fastforce
      then have "p = 5 \<or> p = 7" using odd(1) p5 by presburger
      then show False using \<open>p dvd 8\<close> by auto
    qed
    have small: "(m + 2) * (m + 2) mod n + (m - 2) < 2 ^ 64"
    proof -
      have le: "n \<le> (m + 2) * (m + 2)" using n True by (simp add: algebra_simps)
      have "(m + 2) * (m + 2) mod n \<le> (m + 2) * (m + 2) - n" using le by (simp add: le_mod_geq)
      also have "\<dots> = 8 * m + 4" using n True by (simp add: algebra_simps)
      finally show ?thesis using p32 True by simp
    qed
    have "1 \<le> m - 2" "m - 2 < 2 ^ 64" using m5 p32 True by simp_all
    then show thesis using that rho_splits [OF nm m5 lt(2) less_imp_le [OF assms(5)] small nd] by blast
  qed
qed

lemma rho_from_returns:
  assumes "2 < n" and "n < 2 ^ 64" and "\<exists>d. rho_loop n c 2 2 1 = Some d \<and> d \<noteq> n" and "c < 2 ^ 64" and "k \<le> c"
  shows "\<exists>d. rho_from n k = Some d \<and> d dvd n \<and> 1 < d \<and> d < n"
  using assms(5)
proof (induction "c - k" arbitrary: k)
  case 0
  then have "k = c" by simp
  obtain d where d: "rho_loop n k 2 2 1 = Some d" "d dvd n" "d \<noteq> 1" using rho_loop_returns [of n k] assms by auto
  then have "d \<noteq> n" using assms(3) \<open>k = c\<close> by auto
  then show ?case using d assms(1) dvd_imp_le [of d n] by (subst rho_from.simps) (auto intro: le_neq_implies_less gr0I Suc_lessI)
next
  case (Suc e)
  obtain d where d: "rho_loop n k 2 2 1 = Some d" "d dvd n" "d \<noteq> 1" using rho_loop_returns [of n k] assms by auto
  show ?case
  proof (cases "d = n")
    case True
    have "\<exists>d. rho_from n (Suc k) = Some d \<and> d dvd n \<and> 1 < d \<and> d < n" using Suc by (intro Suc.hyps(1)) auto
    moreover have "Suc k < 2 ^ 64" using Suc assms(4) by linarith
    ultimately show ?thesis using d True by (subst rho_from.simps) simp
  next
    case False
    then show ?thesis using d assms(1) dvd_imp_le [of d n] by (subst rho_from.simps) (auto intro: le_neq_implies_less gr0I Suc_lessI)
  qed
qed

lemma pollardRho_returns:
  assumes "3 < n" and "\<not> is_prime n" and "n < 2 ^ 64"
  shows "\<exists>d. pollardRho n = Some d \<and> d dvd n \<and> 1 < d \<and> d < n"
proof (cases "odd n \<and> \<not> 3 dvd n")
  case True
  then obtain c where "1 \<le> c" "c < 2 ^ 64" "\<exists>d. rho_loop n c 2 2 1 = Some d \<and> d \<noteq> n"
    using composite_splits assms by metis
  then show ?thesis using rho_from_returns [of n c 1] assms True by (simp add: pollardRho_def odd_iff_mod_2_eq_one dvd_eq_mod_eq_0)
next
  case False
  then consider "even n" | "odd n" "3 dvd n" by blast
  then show ?thesis
  proof cases
    case 1
    then have "pollardRho n = Some 2" by (simp add: pollardRho_def)
    then show ?thesis using 1 assms(1) by simp
  next
    case 2
    then have "n mod 2 \<noteq> 0" "n mod 3 = 0" by (simp_all add: odd_iff_mod_2_eq_one)
    then have "pollardRho n = Some 3" by (simp add: pollardRho_def)
    then show ?thesis using 2 assms(1) by simp
  qed
qed

section \<open>Factorisation\<close>

lemma millerRabin_False:
  assumes "millerRabin n = Some False" and "2 \<le> n" and "n < 2 ^ 64"
  shows "\<not> is_prime n \<and> 3 < n"
proof
  show "\<not> is_prime n" using assms is_prime_millerRabin [of n] by auto
  show "3 < n" using assms(1,2) by (cases "n = 2 \<or> n = 3") (auto simp: millerRabin_def)
qed

lemma factorize_ok:
  "n < 2 ^ 64 \<Longrightarrow> \<exists>fs. factorize n acc = Some (acc @ fs) \<and> (2 \<le> n \<longrightarrow> prod_list fs = n) \<and>
     (\<forall>f \<in> set fs. 2 \<le> f \<and> f < 2 ^ 64 \<and> millerRabin f = Some True)"
proof (induction n arbitrary: acc rule: less_induct)
  case (less n)
  consider "n < 2" | "2 \<le> n" "millerRabin n = Some True" | "2 \<le> n" "millerRabin n = Some False"
    using millerRabin_returns [of n] less.prems by (metis (full_types) less_imp_le linorder_not_le)
  then show ?case
  proof cases
    case 1
    then show ?thesis by (subst factorize.simps) simp
  next
    case 2
    then show ?thesis using less.prems by (subst factorize.simps) simp
  next
    case 3
    obtain d where d: "pollardRho n = Some d" "d dvd n" "1 < d" "d < n"
      using pollardRho_returns millerRabin_False [OF 3(2,1) less.prems] less.prems by blast
    obtain e where e: "n = d * e" using d(2) by (auto elim: dvdE)
    have "2 \<le> e" using e d(3,4) 3(1) by (cases e; cases "e - 1") auto
    moreover have "e < n" using e d(3) \<open>2 \<le> e\<close> by simp
    moreover obtain fs where fs: "factorize d acc = Some (acc @ fs)" "prod_list fs = d"
      "\<forall>f \<in> set fs. 2 \<le> f \<and> f < 2 ^ 64 \<and> millerRabin f = Some True" using less.IH [OF d(4), of acc] less.prems d(3,4) by auto
    moreover obtain gs where gs: "factorize e (acc @ fs) = Some ((acc @ fs) @ gs)" "prod_list gs = e"
      "\<forall>f \<in> set gs. 2 \<le> f \<and> f < 2 ^ 64 \<and> millerRabin f = Some True"
      using less.IH [OF \<open>e < n\<close>, of "acc @ fs"] less.prems \<open>2 \<le> e\<close> \<open>e < n\<close> by auto
    moreover have "n div d = e" using e d(3) by simp
    ultimately show ?thesis using 3 d(1) e by (intro exI [of _ "fs @ gs"]) (subst factorize.simps, auto)
  qed
qed

lemma less37:
  assumes "is_prime p" and "p < 41"
  shows "p \<in> set mr_bases"
proof (rule ccontr)
  assume n: "p \<notin> set mr_bases"
  have div: "d dvd p \<Longrightarrow> d = 1 \<or> d = p" for d using assms(1) by (auto simp: is_prime_def)
  have "\<not> 2 dvd p" "\<not> 3 dvd p" "\<not> 5 dvd p" using div [of 2] div [of 3] div [of 5] n by (auto simp: mr_bases_def)
  moreover have "1 < p" using assms(1) by (simp add: is_prime_def)
  ultimately have "p \<in> {7, 11, 13, 17, 19, 23, 29, 31, 37}" using assms(2) by (simp, presburger)
  then show False using n by (auto simp: mr_bases_def)
qed

text \<open>Below the square of 41 the test decides primality.\<close>

lemma millerRabin_small:
  assumes "millerRabin f = Some True" and "2 \<le> f" and "f < 1681"
  shows "is_prime f"
proof (rule ccontr)
  assume np: "\<not> is_prime f"
  have "1 < f" using assms(2) by simp
  then obtain p m where f: "f = p * m" and p: "1 < p" "p \<le> m" and least: "\<And>d. d dvd f \<Longrightarrow> 1 < d \<Longrightarrow> p \<le> d"
    using np by (rule least_divisor) blast
  have "p < 41"
  proof (rule ccontr)
    assume "\<not> p < 41"
    then have "41 * 41 \<le> p * m" using p(2) by (intro mult_le_mono) auto
    then show False using f assms(3) by simp
  qed
  moreover have "is_prime p"
  proof -
    have "d = 1 \<or> d = p" if "d dvd p" for d
    proof -
      have "d dvd f" using that f by simp
      moreover have "0 < d" "d \<le> p" using that p(1) dvd_imp_le [of d p] by (auto intro: gr0I)
      ultimately show ?thesis using least [of d] by linarith
    qed
    then show ?thesis using p(1) by (simp add: is_prime_def)
  qed
  ultimately have "p = f" using less37 millerRabin_divisor [OF assms(1)] assms(3) f by auto
  then show False using f p by auto
qed

section \<open>The command returns\<close>

definition known_flag :: "string \<Rightarrow> bool" where
  "known_flag a \<longleftrightarrow> a \<in> {''-h'', ''--help'', ''-V'', ''--version'', ''--json''}"

lemma preProcess_loop_shape:
  "preProcess_loop False args = ks @ rest \<Longrightarrow> \<forall>k \<in> set ks. known_flag k \<Longrightarrow>
   rest = [] \<or> hd rest = ''--'' \<or> known_flag (hd rest)"
proof (induction args arbitrary: ks)
  case (Cons a args)
  then show ?case by (cases ks) (auto simp: known_flag_def split: if_splits)
qed simp

definition factor_cs :: compiledSpec where
  "factor_cs = fst (getOrCompile factor_spec)"

lemma known_flag_parses:
  assumes "known_flag (args ! i)"
  shows "\<exists>r. (if args ! i ! 1 = CHR ''-'' then parseLong factor_cs args i res else parseShort factor_cs args i res) = Inr (i + 1, r)"
    and "args ! i \<noteq> ''--'' \<and> args ! i \<noteq> ''-'' \<and> \<not> (length (args ! i) < 2 \<or> hd (args ! i) \<noteq> CHR ''-'')"
  using assms by (auto simp: known_flag_def factor_cs_def factor_spec_def mkSpec_def mkFlag_def getOrCompile_def compile_def
    parseLong_def parseShort_def lookupLong_def lookupShort_def int8_def uint8_def code_def Let_def)

lemma parse_loop_known:
  assumes "\<And>j. i \<le> j \<Longrightarrow> j < length args \<Longrightarrow> (\<forall>k. i \<le> k \<and> k < j \<longrightarrow> known_flag (args ! k)) \<Longrightarrow>
      args ! j = ''--'' \<or> known_flag (args ! j)"
  shows "\<exists>r. parse_loop factor_cs args i res = Inr r"
  using assms
proof (induction "length args - i" arbitrary: i res)
  case 0
  then show ?case by (subst parse_loop.simps) simp
next
  case (Suc n)
  then have i: "i < length args" by simp
  consider "args ! i = ''--''" | "known_flag (args ! i)" using Suc.prems [OF order.refl i] by fastforce
  then show ?case
  proof cases
    case 1
    then show ?thesis using i by (subst parse_loop.simps) (simp add: Let_def)
  next
    case 2
    note k = known_flag_parses [OF 2]
    obtain r where r: "(if args ! i ! 1 = CHR ''-'' then parseLong factor_cs args i res else parseShort factor_cs args i res)
      = Inr (i + 1, r)" using k(1) by blast
    have "\<exists>q. parse_loop factor_cs args (i + 1) r = Inr q"
    proof (rule Suc.hyps(1))
      show "n = length args - (i + 1)" using Suc.hyps(2) by simp
    next
      fix j assume j: "i + 1 \<le> j" "j < length args" "\<forall>k. i + 1 \<le> k \<and> k < j \<longrightarrow> known_flag (args ! k)"
      have "\<forall>k. i \<le> k \<and> k < j \<longrightarrow> known_flag (args ! k)" using j(3) 2 by (metis Suc_eq_plus1 le_neq_implies_less Suc_leI)
      then show "args ! j = ''--'' \<or> known_flag (args ! j)" using Suc.prems [of j] j by simp
    qed
    then show ?thesis using r i k(2) by (subst parse_loop.simps) (auto simp: Let_def split: if_splits)
  qed
qed

lemma factor_flags: "\<exists>flags. ParseFlags args factor_spec = Inr flags"
proof -
  let ?as = "preProcess_loop False args"
  have "\<exists>r. parse_loop factor_cs ?as 0 newParseResult = Inr r"
  proof (rule parse_loop_known)
    fix j assume j: "j < length ?as" "\<forall>k. 0 \<le> k \<and> k < j \<longrightarrow> known_flag (?as ! k)"
    have "\<forall>k \<in> set (take j ?as). known_flag k" using j by (auto simp: in_set_conv_nth)
    then have "drop j ?as = [] \<or> hd (drop j ?as) = ''--'' \<or> known_flag (hd (drop j ?as))"
      using preProcess_loop_shape [of args "take j ?as" "drop j ?as"] by simp
    then show "?as ! j = ''--'' \<or> known_flag (?as ! j)" using j(1) by (simp add: hd_drop_conv_nth)
  qed
  then show ?thesis by (simp add: ParseFlags_def factor_spec_def mkSpec_def preProcessFactorArgs_def factor_cs_def)
qed

lemma ParseUint64_less: "ParseUint64 s = Some n \<Longrightarrow> n < 2 ^ 64"
  by (auto simp: ParseUint64_def split: option.splits if_splits)

lemma factor_input_returns: "factor_input jsonMode s \<noteq> None"
proof -
  have "\<exists>fs. factorize n [] = Some fs" if "ParseUint64 t = Some n" for t n
    using factorize_ok [OF ParseUint64_less [OF that], of "[]"] by auto
  then have "(if n > 1 then map_option sort (factorize n []) else Some []) \<noteq> None" if "ParseUint64 t = Some n" for t n
    using that by fastforce
  then show ?thesis unfolding factor_input_def Let_def
    by (simp add: bind_eq_None_conv split: option.split del: not_None_eq)
qed

lemma factor_inputs_returns: "factor_inputs jsonMode is \<noteq> None"
proof (induction "is")
  case (Cons i "is")
  then show ?case using factor_input_returns [of jsonMode i] by (auto split: prod.splits)
qed simp

section \<open>Properties\<close>

text \<open>C5. The factorisation is correct on every 64-bit number from 2 on: the recursion, the rho walk and the modular arithmetic
  all return without a panic, the factors multiply to the number, each of them passes the primality test, and each below
  1681 is prime; a prime number is its only factor.\<close>

theorem factorize_correct:
  assumes "2 \<le> n" and "n < 2 ^ 64"
  shows "\<exists>fs. factorize n [] = Some fs \<and> prod_list fs = n \<and>
    (\<forall>f \<in> set fs. millerRabin f = Some True \<and> (f < 1681 \<longrightarrow> is_prime f)) \<and> (is_prime n \<longrightarrow> fs = [n])"
proof -
  obtain fs where fs: "factorize n [] = Some fs" "prod_list fs = n"
    "\<forall>f \<in> set fs. 2 \<le> f \<and> f < 2 ^ 64 \<and> millerRabin f = Some True"
    using factorize_ok [OF assms(2), of "[]"] assms(1) by auto
  have "fs = [n]" if "is_prime n"
  proof -
    have "factorize n [] = Some [n]" using is_prime_millerRabin [OF that] assms by (subst factorize.simps) simp
    then show ?thesis using fs(1) by simp
  qed
  then show ?thesis using fs millerRabin_small by blast
qed


text \<open>C31. \<^verbatim>\<open>factor\<close> returns on every argument list and every input: its loops end, the 128-bit division does not panic,
  and the error of the flag parser that the code drops never occurs.\<close>

theorem factor_returns: "factor_run stdin args \<noteq> None"
proof -
  obtain flags where "ParseFlags args factor_spec = Inr flags" using factor_flags by blast
  then show ?thesis using factor_inputs_returns
    by (simp add: factor_run_def Let_def bind_eq_None_conv split: prod.split del: not_None_eq)
qed

theorem factorize_correct_witness:
  "\<exists>fs. factorize 1001 [] = Some fs \<and> prod_list fs = 1001 \<and>
    (\<forall>f \<in> set fs. millerRabin f = Some True \<and> (f < 1681 \<longrightarrow> is_prime f)) \<and> (is_prime 1001 \<longrightarrow> fs = [1001])"
  by (rule factorize_correct) simp_all

end
