(* ===== verification/Checksum.thy ===== *)
theory Checksum
  imports Cli
begin

text \<open>
  The utilities \<^verbatim>\<open>cksum\<close> and \<^verbatim>\<open>sum\<close>: \<^verbatim>\<open>pkg/cksum/cksum.go\<close> and \<^verbatim>\<open>pkg/sum/sum.go\<close>.  The CRC works on 32-bit words.  One shift of the
  register is linear and injective, which gives the error detection of the checksum: no change within four
  consecutive bytes goes unnoticed.
\<close>

unbundle bit_operations_syntax

section \<open>cksum\<close>

type_synonym word32 = "32 word"

definition byte_word :: "nat \<Rightarrow> word32" where
  "byte_word b = push_bit 24 (of_nat b)"

definition crc_shift :: "word32 \<Rightarrow> word32" where
  "crc_shift crc = (if crc AND 0x80000000 \<noteq> 0 then push_bit 1 crc XOR 0x04C11DB7 else push_bit 1 crc)"

text \<open>One octet: exclusive or into the top byte and eight shifts.\<close>

definition crc_octet :: "word32 \<Rightarrow> nat \<Rightarrow> word32" where
  "crc_octet crc b = (crc_shift ^^ 8) (crc XOR byte_word b)"

fun crc_length :: "nat \<Rightarrow> word32 \<Rightarrow> word32" where
  "crc_length n crc = (if n = 0 then crc else crc_length (n div 256) (crc_octet crc (n mod 256)))"

declare crc_length.simps [simp del]

definition posixCRC :: "string \<Rightarrow> word32" where
  "posixCRC data = crc_length (length data) (foldl (\<lambda>crc b. crc_octet crc (code b)) 0 data) XOR 0xFFFFFFFF"

definition cksum_spec :: FlagSpec where
  "cksum_spec = mkSpec [mkFlag [] ''json'' FlagBool]"

record CksumFileResult =
  CF_Name :: string
  CF_Checksum :: word32
  CF_Bytes :: int

definition computeCRC :: "string \<Rightarrow> word32 \<times> int" where
  "computeCRC r = (posixCRC r, int (length r))"

fun cksum_files :: "files \<Rightarrow> string list \<Rightarrow> string + CksumFileResult list" where
  "cksum_files fs [] = Inr []"
| "cksum_files fs (f # ps) =
     (case fs f of
        Inl e \<Rightarrow> Inl e
      | Inr r \<Rightarrow>
          (case cksum_files fs ps of
             Inl e \<Rightarrow> Inl e
           | Inr rs \<Rightarrow> (let (crc, n) = computeCRC r in Inr (\<lparr>CF_Name = f, CF_Checksum = crc, CF_Bytes = n\<rparr> # rs))))"

text \<open>\<^verbatim>\<open>Run\<close> reads the standard input of the process, not the one the command was given.\<close>

definition cksum_Run :: "files \<Rightarrow> string \<Rightarrow> string list \<Rightarrow> string + CksumFileResult list" where
  "cksum_Run fs osStdin ps =
     (if ps = []
      then (let (crc, n) = computeCRC osStdin in Inr [\<lparr>CF_Name = [], CF_Checksum = crc, CF_Bytes = n\<rparr>])
      else cksum_files fs ps)"

definition CksumFileResult_json :: "CksumFileResult \<Rightarrow> json" where
  "CksumFileResult_json r =
     JObj ((if CF_Name r = [] then [] else [(''name'', JStr (CF_Name r))])
       @ [(''checksum'', JInt (uint (CF_Checksum r))), (''bytes'', JInt (CF_Bytes r))])"

definition cksum_line :: "CksumFileResult \<Rightarrow> string" where
  "cksum_line r =
     Itoa (uint (CF_Checksum r)) @ '' '' @ Itoa (CF_Bytes r) @ (if CF_Name r \<noteq> [] then '' '' @ CF_Name r else []) @ [NL]"

definition cksum_run :: "files \<Rightarrow> string \<Rightarrow> string list \<Rightarrow> result" where
  "cksum_run fs osStdin args =
     (case ParseFlags args cksum_spec of
        Inl e \<Rightarrow> flag_failure ''cksum'' args e 2
      | Inr flags \<Rightarrow>
          (case cksum_Run fs osStdin (Positional flags) of
             Inl e \<Rightarrow> (1, RenderError ''cksum'' 1 ''ECKSUM'' e (Has flags ''json''), ''cksum: '' @ e @ [NL])
           | Inr rs \<Rightarrow>
               (0, Render ''cksum'' (JObj [(''files'', JArr (map CksumFileResult_json rs))]) (Has flags ''json'')
                     (concat (map cksum_line rs)), [])))"

section \<open>sum\<close>

definition sum_spec :: FlagSpec where
  "sum_spec = mkSpec [mkFlag ''r'' [] FlagBool, mkFlag ''s'' ''sysv'' FlagBool, mkFlag [] ''json'' FlagBool]"

definition bsd_step :: "int \<Rightarrow> char \<Rightarrow> int" where
  "bsd_step s b = (drop_bit 1 s + push_bit 15 (s AND 1) + int (code b)) AND 0xFFFF"

definition sumBSD :: "string \<Rightarrow> int \<times> int" where
  "sumBSD data =
     (if data = [] then (0, 0) else (foldl bsd_step 0 data, (int (length data) + 1023) div 1024))"

definition sumSysV :: "string \<Rightarrow> int \<times> int" where
  "sumSysV data =
     (if data = [] then (0, 0)
      else (uint (foldl (\<lambda>s b. s + of_nat (code b)) (0 :: word32) data AND 0xFFFFFFFF) mod 0x10000,
            (int (length data) + 511) div 512))"

record FileSum =
  FS_File :: string
  FS_Checksum :: int
  FS_Blocks :: int

text \<open>The operands in order; standard input is used up by its first reader.\<close>

fun sum_files :: "files \<Rightarrow> bool \<Rightarrow> string \<Rightarrow> string list \<Rightarrow> (string \<times> string) + FileSum list" where
  "sum_files fs sysv stdin [] = Inr []"
| "sum_files fs sysv stdin (p # ps) =
     (case (if p = ''-'' then Inr stdin else fs p) of
        Inl e \<Rightarrow> Inl (p, e)
      | Inr data \<Rightarrow>
          (case sum_files fs sysv (if p = ''-'' then [] else stdin) ps of
             Inl e \<Rightarrow> Inl e
           | Inr rs \<Rightarrow>
               (let (cs, blk) = (if sysv then sumSysV data else sumBSD data)
                in Inr (\<lparr>FS_File = (if p = ''-'' then [] else p), FS_Checksum = cs, FS_Blocks = blk\<rparr> # rs))))"

definition FileSum_json :: "FileSum \<Rightarrow> json" where
  "FileSum_json r =
     JObj [(''file'', JStr (FS_File r)), (''checksum'', JInt (FS_Checksum r)), (''blocks'', JInt (FS_Blocks r))]"

text \<open>\<^verbatim>\<open>%05d\<close> of a number that is not negative.\<close>

definition zero_pad :: "nat \<Rightarrow> string \<Rightarrow> string" where
  "zero_pad n s = replicate (n - length s) CHR ''0'' @ s"

definition sum_line :: "bool \<Rightarrow> bool \<Rightarrow> FileSum \<Rightarrow> string" where
  "sum_line sysv multi r =
     (if sysv
      then Itoa (FS_Checksum r) @ '' '' @ Itoa (FS_Blocks r) @ (if multi \<or> FS_File r \<noteq> [] then '' '' @ FS_File r else [])
      else zero_pad 5 (Itoa (FS_Checksum r)) @ '' '' @ pad_left 5 (Itoa (FS_Blocks r))
             @ (if multi then '' '' @ FS_File r else [])) @ [NL]"

definition sumRun :: "files \<Rightarrow> string \<Rightarrow> string list \<Rightarrow> result" where
  "sumRun fs stdin args =
     (case ParseFlags args sum_spec of
        Inl e \<Rightarrow> flag_failure ''sum'' args e 2
      | Inr flags \<Rightarrow>
          (case sum_files fs (Has flags ''s'') stdin (if Positional flags = [] then [''-''] else Positional flags) of
             Inl (p, e) \<Rightarrow> (1, [], ''sum: '' @ p @ '': '' @ e @ [NL])
           | Inr rs \<Rightarrow>
               if Has flags ''json'' then (0, Render ''sum'' (JObj [(''files'', JArr (map FileSum_json rs))]) True [], [])
               else (0, concat (map (sum_line (Has flags ''s'') (length rs > 1)) rs), [])))"

section \<open>The shift register\<close>

lemma bit31: "crc AND 0x80000000 \<noteq> 0 \<longleftrightarrow> bit crc 31" for crc :: word32
proof -
  have "(0x80000000 :: word32) = 2 ^ 31" by simp
  then show ?thesis by (simp only: and_exp_eq_0_iff_not_bit) simp
qed

lemma crc_shift_alt: "crc_shift x = push_bit 1 x XOR (if bit x 31 then 0x04C11DB7 else 0)"
  unfolding crc_shift_def bit31 by simp

lemma crc_shift_xor: "crc_shift (x XOR y) = crc_shift x XOR crc_shift y"
  unfolding crc_shift_alt by (simp add: push_bit_xor bit_xor_iff ac_simps)

lemma crc_shift_0 [simp]: "crc_shift 0 = 0"
  by (simp add: crc_shift_alt)

text \<open>The constant is odd, so the lowest bit of a shifted register tells which branch was taken.\<close>

lemma crc_shift_eq_0: "crc_shift x = 0 \<longleftrightarrow> x = 0"
proof
  assume z: "crc_shift x = 0"
  have "\<not> bit (push_bit 1 x) 0" "bit (0x04C11DB7 :: word32) 0" by (simp_all add: bit_0)
  then have "bit (crc_shift x) 0 = bit x 31" unfolding crc_shift_alt bit_xor_iff by (cases "bit x 31") (simp_all only: if_True if_False bit_0_eq bot_apply bot_bool_def simp_thms)
  then have b: "\<not> bit x 31" using z by simp
  then have "push_bit 1 x = 0" using z by (simp add: crc_shift_alt)
  then have s: "\<not> bit (push_bit 1 x) (Suc k)" for k by (metis bit_0_eq bot_apply bot_bool_def)
  have "\<not> bit x k" for k
  proof (cases "k < 31")
    case True
    then show ?thesis using s [of k] unfolding bit_push_bit_iff by simp
  next
    case False
    then show ?thesis using b bit_imp_le_length [of x k] by (cases "k = 31") auto
  qed
  then show "x = 0" by (simp add: bit_eq_iff)
qed simp

lemma shifts_xor: "(crc_shift ^^ k) (x XOR y) = (crc_shift ^^ k) x XOR (crc_shift ^^ k) y"
  by (induction k) (simp_all add: crc_shift_xor)

lemma shifts_eq_0: "(crc_shift ^^ k) x = 0 \<longleftrightarrow> x = 0"
  by (induction k) (simp_all add: crc_shift_eq_0)

text \<open>Bits that do not reach the top only move.\<close>

lemma shifts_small: "(\<And>i. bit x i \<Longrightarrow> i + k < 32) \<Longrightarrow> (crc_shift ^^ k) x = push_bit k x"
proof (induction k)
  case (Suc k)
  have x: "(crc_shift ^^ k) x = push_bit k x"
  proof (rule Suc.IH)
    fix i assume "bit x i"
    then show "i + k < 32" using Suc.prems [of i] by simp
  qed
  have "\<not> bit (push_bit k x) 31"
  proof
    assume "bit (push_bit k x) 31"
    then have "k \<le> 31" "bit x (31 - k)" by (auto simp: bit_push_bit_iff)
    then show False using Suc.prems [of "31 - k"] by simp
  qed
  then have "crc_shift (push_bit k x) = push_bit 1 (push_bit k x)" unfolding crc_shift_alt by (simp only: if_False xor.right_neutral)
  then show ?case using x by (simp only: funpow.simps comp_apply push_bit_push_bit plus_1_eq_Suc)
qed simp

section \<open>Error detection\<close>

lemma byte_word_bits: "b < 256 \<Longrightarrow> bit (byte_word b) i \<Longrightarrow> 24 \<le> i"
  by (simp add: byte_word_def bit_push_bit_iff)

lemma byte_word_inj: "a < 256 \<Longrightarrow> b < 256 \<Longrightarrow> byte_word a = byte_word b \<longleftrightarrow> a = b"
proof -
  assume lt: "a < 256" "b < 256"
  have "byte_word n = word_of_nat (n * 2 ^ 24)" for n unfolding byte_word_def push_bit_eq_mult of_nat_mult of_nat_power by simp
  moreover have "n < 256 \<Longrightarrow> take_bit 32 (n * 2 ^ 24) = n * 2 ^ 24" for n :: nat by (simp add: take_bit_nat_eq_self)
  moreover have "LENGTH(32) = 32" by simp
  ultimately have "byte_word a = byte_word b \<longleftrightarrow> a * 2 ^ 24 = b * 2 ^ 24" using lt by (simp only: word_of_nat_eq_iff)
  then show ?thesis by simp
qed

lemma crc_octet_xor: "crc_octet x a XOR crc_octet y b = (crc_shift ^^ 8) ((x XOR y) XOR (byte_word a XOR byte_word b))"
  by (simp add: crc_octet_def flip: shifts_xor) (simp add: ac_simps)

lemma xor_eq_0: "x XOR y = 0 \<longleftrightarrow> x = y" for x y :: word32
  by (metis xor.assoc xor.left_neutral xor_self_eq)

lemma crc_octet_inj: "crc_octet x a = crc_octet y a \<longleftrightarrow> x = y"
proof -
  have "crc_octet x a XOR crc_octet y a = 0 \<longleftrightarrow> x XOR y = 0" unfolding crc_octet_xor shifts_eq_0 by simp
  then show ?thesis by (simp only: xor_eq_0)
qed

lemma crc_bytes_inj:
  "foldl (\<lambda>crc b. crc_octet crc (code b)) x bs = foldl (\<lambda>crc b. crc_octet crc (code b)) y bs \<longleftrightarrow> x = y"
  by (induction bs arbitrary: x y) (simp_all add: crc_octet_inj)

lemma crc_length_inj: "crc_length n x = crc_length n y \<longleftrightarrow> x = y"
proof (induction n arbitrary: x y rule: less_induct)
  case (less n)
  show ?case
  proof (cases "n = 0")
    case True
    then show ?thesis by (simp add: crc_length.simps [of 0])
  next
    case False
    then have "n div 256 < n" by simp
    then show ?thesis using less [of "n div 256"] False by (simp only: crc_length.simps [of n] if_False crc_octet_inj)
  qed
qed

text \<open>The difference of the registers after one more octet, and after up to four octets from equal registers: it is the
  shifted word of the differences of the octets.\<close>

definition byte_diff :: "char \<Rightarrow> char \<Rightarrow> word32" where
  "byte_diff a b = byte_word (code a) XOR byte_word (code b)"

fun burst_word :: "string \<Rightarrow> string \<Rightarrow> word32" where
  "burst_word (a # as) (b # bs) = byte_diff a b XOR drop_bit 8 (burst_word as bs)"
| "burst_word _ _ = 0"

lemma byte_diff_low: "bit (byte_diff a b) i \<Longrightarrow> 24 \<le> i \<and> i < 32"
  using bit_imp_le_length [of "byte_diff a b" i] by (auto simp: byte_diff_def bit_xor_iff dest: byte_word_bits [OF code_less])

lemma burst_low: "bit (burst_word as bs) i \<Longrightarrow> 32 \<le> i + 8 * length as \<and> i < 32"
proof (induction as bs arbitrary: i rule: burst_word.induct)
  case (1 a as b bs)
  then have "bit (byte_diff a b) i \<or> bit (burst_word as bs) (8 + i)" by (auto simp: bit_xor_iff bit_drop_bit_eq)
  then show ?case using byte_diff_low [of a b i] "1.IH" [of "8 + i"] by auto
qed auto

lemma push_drop: "(\<And>i. bit x i \<Longrightarrow> k \<le> i) \<Longrightarrow> push_bit k (drop_bit k x) = x" for x :: word32
  by (auto simp: bit_eq_iff bit_push_bit_iff bit_drop_bit_eq dest: bit_imp_le_length)

lemma burst_shift:
  assumes "length as \<le> 3"
  shows "burst_word as bs = (crc_shift ^^ 8) (drop_bit 8 (burst_word as bs))"
proof -
  have "push_bit 8 (drop_bit 8 (burst_word as bs)) = burst_word as bs"
  proof (rule push_drop)
    fix i assume "bit (burst_word as bs) i"
    then show "8 \<le> i" using burst_low [of as bs i] assms by simp
  qed
  moreover have "(crc_shift ^^ 8) (drop_bit 8 (burst_word as bs)) = push_bit 8 (drop_bit 8 (burst_word as bs))"
  proof (rule shifts_small)
    fix i assume "bit (drop_bit 8 (burst_word as bs)) i"
    then show "i + 8 < 32" using burst_low [of as bs "8 + i"] by (simp add: bit_drop_bit_eq)
  qed
  ultimately show ?thesis by (simp only:)
qed

lemma burst_registers:
  "length as = length bs \<Longrightarrow> length as \<le> 4 \<Longrightarrow>
   foldl (\<lambda>crc b. crc_octet crc (code b)) x as XOR foldl (\<lambda>crc b. crc_octet crc (code b)) y bs =
   (crc_shift ^^ (8 * length as)) ((x XOR y) XOR burst_word as bs)"
proof (induction as bs arbitrary: x y rule: list_induct2)
  case (Cons a as b bs)
  let ?d = "drop_bit 8 (burst_word as bs)" and ?e = "(x XOR y) XOR byte_diff a b"
  have "(crc_octet x (code a) XOR crc_octet y (code b)) XOR burst_word as bs = (crc_shift ^^ 8) (?e XOR ?d)"
    using burst_shift [of as bs] Cons.prems unfolding shifts_xor crc_octet_xor byte_diff_def by (simp only: length_Cons Suc_le_mono numeral_eq_Suc) simp
  then have "foldl (\<lambda>crc b. crc_octet crc (code b)) x (a # as) XOR foldl (\<lambda>crc b. crc_octet crc (code b)) y (b # bs) =
    (crc_shift ^^ (8 * length as)) ((crc_shift ^^ 8) (?e XOR ?d))"
    using Cons.IH [of "crc_octet x (code a)" "crc_octet y (code b)"] Cons.prems by simp
  also have "\<dots> = (crc_shift ^^ (8 * length as + 8)) (?e XOR ?d)" by (simp only: funpow_add comp_apply)
  finally show ?case by (simp add: ac_simps)
qed simp

lemma burst_eq_0: "length as = length bs \<Longrightarrow> length as \<le> 4 \<Longrightarrow> burst_word as bs = 0 \<Longrightarrow> as = bs"
proof (induction as bs rule: list_induct2)
  case (Cons a as b bs)
  have z: "\<not> bit (burst_word (a # as) (b # bs)) i" for i using Cons.prems by simp
  have d: "\<not> bit (byte_diff a b) i" for i
  proof
    assume t: "bit (byte_diff a b) i"
    then have "\<not> bit (burst_word as bs) (8 + i)" using byte_diff_low [of a b i] burst_low [of as bs "8 + i"] by auto
    then show False using z [of i] t by (simp add: bit_xor_iff bit_drop_bit_eq)
  qed
  have "\<not> bit (burst_word as bs) i" for i
  proof
    assume t: "bit (burst_word as bs) i"
    then have "8 \<le> i" using burst_low [of as bs i] Cons.prems by simp
    then show False using z [of "i - 8"] d t by (simp add: bit_xor_iff bit_drop_bit_eq)
  qed
  then have "burst_word as bs = 0" by (simp add: bit_eq_iff)
  then have "as = bs" using Cons by simp
  moreover have "byte_word (code a) = byte_word (code b)" using d unfolding byte_diff_def by (metis bit_eqI bit_0_eq bot_apply bot_bool_def xor_eq_0)
  then have "a = b" by (simp only: byte_word_inj code_less code_inject)
  ultimately show ?case by simp
qed simp

lemma xor_right_inj: "x XOR c = y XOR c \<longleftrightarrow> x = y" for x y c :: word32
  by (metis xor.assoc xor.right_neutral xor_self_eq)

lemma posixCRC_eq:
  "length s = length t \<Longrightarrow> posixCRC s = posixCRC t \<longleftrightarrow>
   foldl (\<lambda>crc b. crc_octet crc (code b)) 0 s = foldl (\<lambda>crc b. crc_octet crc (code b)) 0 t"
  by (simp only: posixCRC_def xor_right_inj crc_length_inj)

text \<open>The sums: the rotating checksum stays within 16 bits, and the additive one is the sum of the bytes modulo \<open>2 ^ 16\<close>,
  although the code adds them in a 32-bit register.\<close>

lemma bsd_step_range: "0 \<le> bsd_step s b \<and> bsd_step s b < 65536"
proof -
  have "(0xFFFF :: int) = mask 16" by (simp add: mask_eq_exp_minus_1)
  then show ?thesis unfolding bsd_step_def by (simp only: take_bit_eq_mask [symmetric]) (simp add: take_bit_int_less_exp [of 16, simplified])
qed

lemma sumBSD_range: "0 \<le> fst (sumBSD data) \<and> fst (sumBSD data) < 65536"
proof (cases data rule: rev_cases)
  case (snoc bs b)
  then show ?thesis using bsd_step_range by (simp add: sumBSD_def)
qed (simp add: sumBSD_def)

lemma foldl_word_sum: "foldl (\<lambda>s b. s + of_nat (code b)) w data = w + of_nat (sum_list (map code data))" for w :: word32
  by (induction data arbitrary: w) (simp_all add: ac_simps)

lemma sumSysV_sum: "fst (sumSysV data) = int (sum_list (map code data) mod 65536)"
proof -
  let ?n = "sum_list (map code data)"
  have "(0xFFFFFFFF :: word32) = mask 32" by (simp add: mask_eq_exp_minus_1)
  then have m: "w AND 0xFFFFFFFF = w" for w :: word32 by (simp only: take_bit_eq_mask [symmetric]) (simp add: take_bit_word_eq_self)
  have "uint (of_nat ?n :: word32) = int (?n mod 2 ^ 32)" by (simp add: unsigned_of_nat take_bit_eq_mod of_nat_mod uint_nat)
  moreover have "?n mod 2 ^ 32 mod 65536 = ?n mod 65536" by (rule mod_mod_cancel) simp
  ultimately have "uint (of_nat ?n :: word32) mod 65536 = int (?n mod 65536)" by (metis of_nat_mod of_nat_numeral)
  then show ?thesis by (simp add: sumSysV_def foldl_word_sum m)
qed

section \<open>Properties\<close>

text \<open>C13. \<^verbatim>\<open>cksum\<close> notices every change within four consecutive bytes: two files of the same length that agree before
  and after a window of at most four bytes and differ inside it have different checksums.\<close>

theorem cksum_detects_bursts:
  assumes "length u = length v" and "length u \<le> 4" and "u \<noteq> v"
  shows "posixCRC (pre @ u @ post) \<noteq> posixCRC (pre @ v @ post)"
proof
  let ?f = "foldl (\<lambda>crc b. crc_octet crc (code b))"
  assume "posixCRC (pre @ u @ post) = posixCRC (pre @ v @ post)"
  moreover have "length (pre @ u @ post) = length (pre @ v @ post)" using assms(1) by simp
  ultimately have "?f 0 (pre @ u @ post) = ?f 0 (pre @ v @ post)" by (simp only: posixCRC_eq)
  then have "?f (?f 0 pre) u = ?f (?f 0 pre) v" by (simp only: foldl_append crc_bytes_inj)
  then have "(crc_shift ^^ (8 * length u)) ((?f 0 pre XOR ?f 0 pre) XOR burst_word u v) = 0"
    unfolding burst_registers [OF assms(1,2), symmetric] by (simp only: xor_self_eq)
  then have "burst_word u v = 0" unfolding shifts_eq_0 by (simp only: xor_self_eq xor.left_neutral)
  then show False using burst_eq_0 [OF assms(1,2)] assms(3) by blast
qed

theorem cksum_detects_bursts_witness: "posixCRC (''ab'' @ ''cd'' @ ''e'') \<noteq> posixCRC (''ab'' @ ''dc'' @ ''e'')"
  by (rule cksum_detects_bursts) simp_all

end
