(* ===== verification/Uucode.thy ===== *)
theory Uucode
  imports Cli Paths
begin

text \<open>
  The utilities \<^verbatim>\<open>uuencode\<close> and \<^verbatim>\<open>uudecode\<close>: \<^verbatim>\<open>pkg/uuencode/uuencode.go\<close> and \<^verbatim>\<open>pkg/uudecode/uudecode.go\<close>.  A byte is a natural
  number below 256; masks and shifts of bytes are divisions and remainders.  The package \<^verbatim>\<open>encoding/base64\<close> is the pair of
  arguments \<open>b64enc\<close> and \<open>b64dec\<close>; the traditional encoding is the source's own.
\<close>

section \<open>uuencode\<close>

definition uuencode_spec :: FlagSpec where
  "uuencode_spec = mkSpec [mkFlag ''m'' ''base64'' FlagBool, mkFlag ''h'' ''help'' FlagBool, mkFlag [] ''json'' FlagBool]"

definition uuenc :: "nat \<Rightarrow> nat" where
  "uuenc val = (let v = val mod 64 + 32 in if v = 32 then 96 else v)"

text \<open>Three bytes, the missing ones zero, as four characters.\<close>

definition encode_group :: "nat \<Rightarrow> nat \<Rightarrow> nat \<Rightarrow> nat list" where
  "encode_group b1 b2 b3 =
     [uuenc (b1 div 4), uuenc (b1 mod 4 * 16 + b2 div 16), uuenc (b2 mod 16 * 4 + b3 div 64), uuenc (b3 mod 64)]"

fun encode_groups :: "nat list \<Rightarrow> nat list" where
  "encode_groups [] = []"
| "encode_groups [b1] = encode_group b1 0 0"
| "encode_groups [b1, b2] = encode_group b1 b2 0"
| "encode_groups (b1 # b2 # b3 # bs) = encode_group b1 b2 b3 @ encode_groups bs"

definition encodeTraditionalLine :: "string \<Rightarrow> string" where
  "encodeTraditionalLine data =
     map char_of (uuenc (length data mod 256) # encode_groups (map code data))"

text \<open>The input in chunks of 45 bytes: the loop of \<^verbatim>\<open>encodeTraditionalString\<close>, and the reads of the text mode.\<close>

fun chunks45 :: "string \<Rightarrow> string list" where
  "chunks45 data = (if data = [] then [] else take 45 data # chunks45 (drop 45 data))"

declare chunks45.simps [simp del]

definition encodeTraditionalString :: "string \<Rightarrow> string" where
  "encodeTraditionalString data = concat (map (\<lambda>c. encodeTraditionalLine c @ [NL]) (chunks45 data)) @ ''`'' @ [NL]"

text \<open>What \<^verbatim>\<open>uuencode\<close> opens: the content and the octal digits of the permissions, when they can be read.\<close>

type_synonym uufiles = "string \<Rightarrow> string + (string \<times> string option)"

definition uuencode_help :: string where
  "uuencode_help = ''Usage: uuencode [-m] [INFILE] REMOTE_FILE'' @ [NL, NL] @ ''Encode INFILE (or stdin) to stdout.'' @ [NL, NL]
     @ ''Options:'' @ [NL] @ ''  -m             Use Base64 encoding'' @ [NL] @ ''  -h             Print help''"

text \<open>The text mode of \<^verbatim>\<open>run\<close>.\<close>

definition uuencode_text :: "(string \<Rightarrow> string) \<Rightarrow> bool \<Rightarrow> string \<Rightarrow> string \<Rightarrow> string \<Rightarrow> string" where
  "uuencode_text b64enc useBase64 mode remotename data =
     (if useBase64
      then ''begin-base64 '' @ mode @ '' '' @ remotename @ [NL] @ println_all (map b64enc (chunks45 data)) @ ''===='' @ [NL]
      else ''begin '' @ mode @ '' '' @ remotename @ [NL] @ println_all (map encodeTraditionalLine (chunks45 data))
             @ ''`'' @ [NL] @ ''end'' @ [NL])"

definition abs_in :: "string \<Rightarrow> string \<Rightarrow> string" where
  "abs_in cwd p = (if IsAbs p then p else PathJoin cwd p)"

text \<open>The command; \<open>stdinMode\<close> is the mode a terminal on standard input has.\<close>

definition uuencode_run ::
  "(string \<Rightarrow> string) \<Rightarrow> uufiles \<Rightarrow> string option \<Rightarrow> string \<Rightarrow> string \<Rightarrow> string list \<Rightarrow> result" where
  "uuencode_run b64enc fs stdinMode stdin cwd args =
     (let jsonMode = HasJSONFlag args;
          failed = (\<lambda>c msg. (1, [], if jsonMode then RenderError ''uuencode'' 1 c msg True else ''uuencode: '' @ msg @ [NL]));
          emit = (\<lambda>flags infile remotename mode data.
            let useBase64 = (Has flags ''m'' \<or> Has flags ''base64'')
            in if jsonMode
               then (0, Render ''uuencode'' (JObj [(''source'', JStr infile), (''remoteName'', JStr remotename),
                      (''encodedData'', JStr (if useBase64 then b64enc data else encodeTraditionalString data)),
                      (''format'', JStr (if useBase64 then ''base64'' else ''uuencode''))]) True [], [])
               else (0, uuencode_text b64enc useBase64 mode remotename data, []));
          fromStdin = (\<lambda>flags remotename.
            emit flags ''-'' remotename (case stdinMode of None \<Rightarrow> ''644'' | Some m \<Rightarrow> m) stdin)
      in case ParseFlags args uuencode_spec of
           Inl e \<Rightarrow> flag_failure ''uuencode'' args e 1
         | Inr flags \<Rightarrow>
             if Has flags ''h'' \<or> Has flags ''help''
             then (0, Render ''uuencode'' (JObj [(''help'', JStr uuencode_help)]) jsonMode (uuencode_help @ [NL]), [])
             else
               (case Positional flags of
                  [] \<Rightarrow> failed ''MISSING_ARGUMENT'' ''missing remote file name''
                | [remotename] \<Rightarrow> fromStdin flags remotename
                | infile # remotename # _ \<Rightarrow>
                    if infile = ''-'' then fromStdin flags remotename
                    else (case fs (abs_in cwd infile) of
                            Inl e \<Rightarrow> failed ''OPEN_ERROR'' e
                          | Inr (data, mode) \<Rightarrow>
                              emit flags infile remotename (case mode of None \<Rightarrow> ''644'' | Some m \<Rightarrow> m) data)))"

section \<open>uudecode\<close>

definition uudecode_spec :: FlagSpec where
  "uudecode_spec = mkSpec [mkFlag ''o'' ''output-file'' FlagValue, mkFlag ''h'' ''help'' FlagBool, mkFlag [] ''json'' FlagBool]"

definition uudec :: "nat \<Rightarrow> nat" where
  "uudec c = (c + 224) mod 256 mod 64"

text \<open>One group of up to four characters, the missing ones spaces, as three bytes.\<close>

definition decode_group :: "nat \<Rightarrow> nat \<Rightarrow> nat \<Rightarrow> nat \<Rightarrow> nat list" where
  "decode_group c1 c2 c3 c4 =
     (let v1 = uudec c1; v2 = uudec c2; v3 = uudec c3; v4 = uudec c4
      in [v1 * 4 + v2 div 16, v2 mod 16 * 16 + v3 div 4, v3 mod 4 * 64 + v4])"

text \<open>The loop over the groups, which stops at \<open>decLen\<close> bytes or at a group of fewer than two characters.\<close>

fun decode_groups :: "nat \<Rightarrow> nat list \<Rightarrow> nat list" where
  "decode_groups 0 cs = []"
| "decode_groups n (c1 # c2 # c3 # c4 # cs) = take n (decode_group c1 c2 c3 c4) @ decode_groups (n - 3) cs"
| "decode_groups n [c1, c2, c3] = take n (decode_group c1 c2 c3 32)"
| "decode_groups n [c1, c2] = take n (decode_group c1 c2 32 32)"
| "decode_groups n cs = []"

text \<open>The lines after the header: the bytes up to the end mark.\<close>

fun decode_lines :: "string list \<Rightarrow> string" where
  "decode_lines [] = []"
| "decode_lines (line # ls) =
     (if line = [] then decode_lines ls
      else if line = ''end'' then []
      else if hd line = CHR ''`'' \<or> hd line = CHR '' '' then []
      else
        (let decLen = uudec (code (hd line))
         in if decLen = 0 then []
            else map char_of (decode_groups decLen (map code (tl line))) @ decode_lines ls))"

text \<open>The base64 body, and the characters the second attempt keeps.\<close>

definition b64_body :: "string list \<Rightarrow> string" where
  "b64_body ls = concat (takeWhile (\<lambda>l. l \<noteq> ''===='' \<and> l \<noteq> ''end'') (map TrimSpace ls))"

definition b64_rune :: "nat \<Rightarrow> bool" where
  "b64_rune r \<longleftrightarrow> 65 \<le> r \<and> r \<le> 90 \<or> 97 \<le> r \<and> r \<le> 122 \<or> 48 \<le> r \<and> r \<le> 57 \<or> r = 43 \<or> r = 47 \<or> r = 61"

definition decode_base64 :: "(string \<Rightarrow> string + string) \<Rightarrow> string list \<Rightarrow> string + string" where
  "decode_base64 b64dec ls =
     (case b64dec (b64_body ls) of
        Inr data \<Rightarrow> Inr data
      | Inl e \<Rightarrow> b64dec (of_runes (filter b64_rune (runes (b64_body ls)))))"

definition is_header :: "string \<Rightarrow> bool" where
  "is_header line \<longleftrightarrow> prefix ''begin '' line \<or> prefix ''begin-base64 '' line"

text \<open>The search for the header: its trimmed line and the lines after it.\<close>

fun find_header :: "string list \<Rightarrow> (string \<times> string list) option" where
  "find_header [] = None"
| "find_header (l # ls) = (if is_header (TrimSpace l) then Some (TrimSpace l, ls) else find_header ls)"

definition uudecode_help :: string where
  "uudecode_help = ''Usage: uudecode [-o OUTFILE] [INFILE]'' @ [NL, NL] @ ''Decode a uuencoded file (default: stdin).'' @ [NL, NL]
     @ ''Options:'' @ [NL] @ ''  -o OUTFILE     Write to OUTFILE instead of the name specified in the header'' @ [NL]
     @ ''                 (use '' @ [CHR 0x27] @ ''-'' @ [CHR 0x27] @ '' for standard output)'' @ [NL] @ ''  -h, --help     Print help''"

text \<open>\<^verbatim>\<open>strconv.ParseUint(s, 8, 32)\<close>, with the mode 0644 when it fails.\<close>

definition parse_mode :: "string \<Rightarrow> nat" where
  "parse_mode s =
     (case (if s = [] then None else digits_value 8 0 s) of
        Some v \<Rightarrow> if v < 2 ^ 32 then v else 420
      | None \<Rightarrow> 420)"

text \<open>Writing a file: the absolute path, the content and the mode to an error code with its message, or success.\<close>

type_synonym uuwriter = "string \<Rightarrow> string \<Rightarrow> nat \<Rightarrow> (string \<times> string) option"

definition uudecode_body :: "(string \<Rightarrow> string + string) \<Rightarrow> string \<Rightarrow> string list \<Rightarrow> string + string" where
  "uudecode_body b64dec kind ls = (if kind = ''begin-base64'' then decode_base64 b64dec ls else Inr (decode_lines ls))"

definition uudecode_run ::
  "(string \<Rightarrow> string + string) \<Rightarrow> files \<Rightarrow> uuwriter \<Rightarrow> string \<Rightarrow> string \<Rightarrow> string list \<Rightarrow> result" where
  "uudecode_run b64dec fs writeFile stdin cwd args =
     (let jsonMode = HasJSONFlag args;
          failed = (\<lambda>c msg text. (1, [], if jsonMode then RenderError ''uudecode'' 1 c msg True else ''uudecode: '' @ text @ [NL]));
          finish = (\<lambda>flags infile written n.
            (0, written @ (if jsonMode
               then Render ''uudecode'' (JObj [(''source'', JStr infile), (''destination'', JStr (Get flags ''o'')),
                      (''bytesDecoded'', JInt (int n))]) True [] else []), []));
          decode = (\<lambda>flags infile data.
            (case find_header (fst (Scanner data)) of
               None \<Rightarrow> failed ''PARSE_ERROR'' ''missing header line'' ''missing header line''
             | Some (header, ls) \<Rightarrow>
                 (case Fields header of
                    kind # modeStr # remote # _ \<Rightarrow>
                      (let dest = (if Get flags ''o'' \<noteq> [] then Get flags ''o'' else remote)
                       in case uudecode_body b64dec kind ls of
                            Inl e \<Rightarrow> failed ''DECODE_ERROR'' e (''base64 decode error: '' @ e)
                          | Inr decoded \<Rightarrow>
                              if dest = ''-'' then finish flags infile decoded (length decoded)
                              else (case writeFile (abs_in cwd dest) decoded (parse_mode modeStr) of
                                      Some (c, msg) \<Rightarrow> failed c msg msg
                                    | None \<Rightarrow> finish flags infile [] (length decoded)))
                  | _ \<Rightarrow> failed ''PARSE_ERROR'' ''invalid header format'' ''invalid header format'')))
      in case ParseFlags args uudecode_spec of
           Inl e \<Rightarrow> flag_failure ''uudecode'' args e 1
         | Inr flags \<Rightarrow>
             if Has flags ''h'' \<or> Has flags ''help''
             then (0, Render ''uudecode'' (JObj [(''help'', JStr uudecode_help)]) jsonMode (uudecode_help @ [NL]), [])
             else
               (case Positional flags of
                  [] \<Rightarrow> decode flags ''-'' stdin
                | [infile] \<Rightarrow>
                    if infile = ''-'' then decode flags ''-'' stdin
                    else (case fs (abs_in cwd infile) of
                            Inl e \<Rightarrow> failed ''OPEN_ERROR'' e e
                          | Inr data \<Rightarrow> decode flags infile data)
                | _ \<Rightarrow> failed ''BAD_USAGE'' ''too many arguments'' ''too many arguments''))"

section \<open>The round trip\<close>

lemma uuenc_range: "33 \<le> uuenc v \<and> uuenc v \<le> 96"
  by (simp add: uuenc_def Let_def)

lemma uudec_uuenc: "uudec (uuenc v) = v mod 64"
proof (cases "v mod 64 = 0")
  case False
  have "v mod 64 < 64" by simp
  then show ?thesis using False by (simp add: uudec_def uuenc_def Let_def)
qed (simp add: uudec_def uuenc_def)

lemma decode_encode_group:
  assumes "b1 < 256" and "b2 < 256" and "b3 < 256"
  shows "decode_group (uuenc (b1 div 4)) (uuenc (b1 mod 4 * 16 + b2 div 16)) (uuenc (b2 mod 16 * 4 + b3 div 64)) (uuenc (b3 mod 64))
    = [b1, b2, b3]"
proof -
  have "b1 div 4 mod 64 = b1 div 4" "(b1 mod 4 * 16 + b2 div 16) mod 64 = b1 mod 4 * 16 + b2 div 16"
    "(b2 mod 16 * 4 + b3 div 64) mod 64 = b2 mod 16 * 4 + b3 div 64" "b3 mod 64 mod 64 = b3 mod 64" using assms by auto
  moreover have "(b1 mod 4 * 16 + b2 div 16) div 16 = b1 mod 4" "(b1 mod 4 * 16 + b2 div 16) mod 16 = b2 div 16"
    "(b2 mod 16 * 4 + b3 div 64) div 4 = b2 mod 16" "(b2 mod 16 * 4 + b3 div 64) mod 4 = b3 div 64" using assms by auto
  ultimately show ?thesis by (simp add: decode_group_def uudec_uuenc Let_def)
qed

lemma decode_encode_groups: "\<forall>b \<in> set bs. b < 256 \<Longrightarrow> decode_groups (length bs) (encode_groups bs) = bs"
proof (induction bs rule: encode_groups.induct)
  case (2 b1)
  then show ?case using decode_encode_group [of b1 0 0] by (simp add: encode_group_def)
next
  case (3 b1 b2)
  then show ?case using decode_encode_group [of b1 b2 0] by (simp add: encode_group_def)
next
  case (4 b1 b2 b3 bs)
  then show ?case using decode_encode_group [of b1 b2 b3] by (simp add: encode_group_def)
qed simp

lemma encode_groups_range: "c \<in> set (encode_groups bs) \<Longrightarrow> 33 \<le> c \<and> c \<le> 96"
  by (induction bs rule: encode_groups.induct) (auto simp: encode_group_def uuenc_range)

lemma encode_groups_length: "length (encode_groups bs) \<le> 2 * length bs + 4"
  by (induction bs rule: encode_groups.induct) (auto simp: encode_group_def)

lemma code_encoded: "map code (map char_of (encode_groups bs)) = encode_groups bs"
proof -
  have "code (char_of c) = c" if "c \<in> set (encode_groups bs)" for c
    using encode_groups_range [OF that] by (intro code_char_of) simp
  then show ?thesis unfolding map_map by (intro map_idI) simp
qed

lemma encoded_range: "c \<in> set (encodeTraditionalLine s) \<Longrightarrow> 33 \<le> code c \<and> code c \<le> 96"
proof -
  assume "c \<in> set (encodeTraditionalLine s)"
  then obtain v where v: "c = char_of v" "v = uuenc (length s mod 256) \<or> v \<in> set (encode_groups (map code s))"
    by (auto simp: encodeTraditionalLine_def)
  then have "33 \<le> v \<and> v \<le> 96" using uuenc_range encode_groups_range by blast
  then show ?thesis using v(1) by (simp add: code_char_of)
qed

lemma decode_line:
  assumes "s \<noteq> []" and "length s \<le> 45"
  shows "decode_lines (encodeTraditionalLine s # ls) = s @ decode_lines ls"
proof -
  define h :: char where "h = char_of (uuenc (length s mod 256))"
  have n: "length s mod 256 = length s" "length s mod 64 = length s" using assms(2) by simp_all
  have h: "code h = uuenc (length s mod 256)" unfolding h_def using uuenc_range [of "length s mod 256"] by (intro code_char_of) simp
  have "uuenc (length s mod 256) = length s + 32" using assms n by (simp add: uuenc_def)
  then have ne: "code h \<noteq> 96" "code h \<noteq> 32" "code h \<noteq> 101" using h assms by simp_all
  then have ne': "h \<noteq> CHR ''`''" "h \<noteq> CHR '' ''" "h \<noteq> CHR ''e''" by (auto simp: code_def)
  have "uudec (code h) = length s" using h n by (simp add: uudec_uuenc)
  moreover have "decode_groups (length s) (encode_groups (map code s)) = map code s"
    using decode_encode_groups [of "map code s"] code_less by simp
  moreover have "map char_of (map code s) = s" by (simp add: comp_def)
  ultimately show ?thesis using assms(1) ne' code_encoded [of "map code s"]
    by (simp add: encodeTraditionalLine_def Let_def del: map_map flip: h_def)
qed

lemma chunks45_props: "c \<in> set (chunks45 s) \<Longrightarrow> c \<noteq> [] \<and> length c \<le> 45"
  by (induction s rule: chunks45.induct) (subst (asm) (2) chunks45.simps, auto split: if_splits)

lemma chunks45_concat: "concat (chunks45 s) = s"
proof (induction s rule: chunks45.induct)
  case (1 s)
  then show ?case by (cases "s = []") (simp_all add: chunks45.simps [of s] chunks45.simps [of "[]"])
qed

lemma decode_chunks:
  "\<forall>c \<in> set cs. c \<noteq> [] \<and> length c \<le> 45 \<Longrightarrow> decode_lines (map encodeTraditionalLine cs @ ls) = concat cs @ decode_lines ls"
  by (induction cs) (simp_all add: decode_line del: decode_lines.simps(2))

lemma decode_lines_chunks: "decode_lines (map encodeTraditionalLine (chunks45 s) @ ''`'' # ls) = s"
  using decode_chunks [of "chunks45 s"] chunks45_props by (simp add: chunks45_concat)

lemma encoded_plain:
  assumes "c \<in> set (chunks45 s)"
  shows "plain_line (encodeTraditionalLine c)"
proof -
  have "length (encodeTraditionalLine c) < token_limit"
    using chunks45_props [OF assms] encode_groups_length [of "map code c"] by (simp add: encodeTraditionalLine_def token_limit_def)
  moreover have "code NL = 10" "code (CHR 0x0D) = 13" by (simp_all add: code_def)
  ultimately show ?thesis using encoded_range [of NL c] encoded_range [of "CHR 0x0D" c] by (auto simp: plain_line_def)
qed

lemma plain_word_line: "plain_word w \<Longrightarrow> NL \<notin> set w \<and> CHR 0x0D \<notin> set w"
  by (auto simp: plain_word_def list_all_iff code_def)

lemma header_parses:
  assumes "plain_word mode" and "plain_word name" and "length mode + length name < 60000"
  shows "find_header ((''begin '' @ mode @ '' '' @ name) # ls) = Some (''begin '' @ mode @ '' '' @ name, ls)"
    and "Fields (''begin '' @ mode @ '' '' @ name) = [''begin'', mode, name]"
    and "plain_line (''begin '' @ mode @ '' '' @ name)"
proof -
  let ?h = "''begin '' @ mode @ '' '' @ name"
  have w: "plain_word ''begin''" by (simp add: plain_word_def code_def)
  have "Join [''begin'', mode, name] '' '' = ?h" by simp
  then show "Fields ?h = [''begin'', mode, name]" using Fields_words [of "[''begin'', mode, name]"] w assms by simp
  have "ascii ?h" using plain_word_ascii [OF assms(1)] plain_word_ascii [OF assms(2)] by (simp add: ascii_def code_def)
  moreover have "33 \<le> code (last name) \<and> code (last name) < 127" using assms(2) by (auto simp: plain_word_def list_all_iff)
  then have "\<not> isSpaceRune (code (last ?h))" using assms(2) isSpaceRune_ascii by (auto simp: plain_word_def)
  moreover have "\<not> isSpaceRune (code (hd ?h))" by (simp add: isSpaceRune_def code_def)
  ultimately have "TrimSpace ?h = ?h" by (intro TrimSpace_id) simp_all
  then show "find_header (?h # ls) = Some (?h, ls)" by (simp add: is_header_def)
  show "plain_line ?h" using plain_word_line [OF assms(1)] plain_word_line [OF assms(2)] assms(3)
    by (auto simp: plain_line_def token_limit_def)
qed

lemma uuencode_text_lines:
  "uuencode_text b64enc False mode name s =
   println_all ((''begin '' @ mode @ '' '' @ name) # map encodeTraditionalLine (chunks45 s) @ [''`'', ''end''])"
  by (simp add: uuencode_text_def println_all_def)

lemma uuencode_one_operand:
  assumes "hd name \<noteq> CHR ''-''" and "name \<noteq> []"
  shows "uuencode_run b64enc fs None stdin cwd [name] = (0, uuencode_text b64enc False ''644'' name stdin, [])"
  using assms by (cases name) (simp_all add: uuencode_run_def ParseFlags_def uuencode_spec_def mkSpec_def parse_loop.simps
    add_pos_def newParseResult_def Has_def HasJSONFlag_def Let_def getOrCompile_def compile_def)

lemma uudecode_to_stdout:
  assumes "Scanner data = (h # ls, ok)" and "find_header (h # ls) = Some (h, ls)" and "Fields h = [''begin'', mode, name]"
  shows "uudecode_run b64dec fs wr data cwd [''-o'', ''-''] = (0, decode_lines ls, [])"
  using assms by (simp add: uudecode_run_def uudecode_body_def ParseFlags_def uudecode_spec_def mkSpec_def mkFlag_def parse_loop.simps
    parseShort_def record_value_def put_value_def lookupShort_def int8_def code_def
    newParseResult_def Has_def Get_def HasJSONFlag_def Let_def getOrCompile_def compile_def del: find_header.simps)

section \<open>Properties\<close>

text \<open>C14. Piping \<^verbatim>\<open>uuencode NAME\<close> into \<^verbatim>\<open>uudecode -o -\<close> gives back the input, whatever its bytes and its length, for a plain word NAME that does not start with a dash: the header is
  recognised, every line of up to 45 bytes decodes to what it was made from, and the end mark stops the decoder.\<close>

theorem uu_roundtrip:
  assumes "plain_word name" and "hd name \<noteq> CHR ''-''" and "length name < 50000"
  shows "\<exists>text. uuencode_run b64enc fs None data cwd [name] = (0, text, []) \<and>
    uudecode_run b64dec fs' wr text cwd' [''-o'', ''-''] = (0, data, [])"
proof -
  let ?h = "''begin '' @ ''644'' @ '' '' @ name" and ?ls = "map encodeTraditionalLine (chunks45 data) @ [''`'', ''end'']"
  let ?text = "uuencode_text b64enc False ''644'' name data"
  have "plain_word ''644''" "length ''644'' + length name < 60000" using assms(3) by (simp_all add: plain_word_def code_def)
  note h = header_parses [OF this(1) assms(1) this(2)]
  have "\<forall>l \<in> set (?h # ?ls). plain_line l" using h(3) encoded_plain by (auto simp: plain_line_def token_limit_def)
  then have "Scanner ?text = (?h # ?ls, True)" unfolding uuencode_text_lines by (rule Scanner_println)
  then have "uudecode_run b64dec fs' wr ?text cwd' [''-o'', ''-''] = (0, decode_lines ?ls, [])"
    using h(1,2) by (rule uudecode_to_stdout)
  moreover have "decode_lines ?ls = data" using decode_lines_chunks [of data "[''end'']"] by simp
  moreover have "name \<noteq> []" using assms(1) by (simp add: plain_word_def)
  ultimately show ?thesis using uuencode_one_operand [OF assms(2)] by simp
qed

theorem uu_roundtrip_witness:
  "\<exists>text. uuencode_run id (\<lambda>_. Inl ''no file'') None [CHR 0x00, CHR 0xFF] ''/'' [''f''] = (0, text, []) \<and>
    uudecode_run Inl (\<lambda>_. Inl ''no file'') (\<lambda>_ _ _. None) text ''/'' [''-o'', ''-''] = (0, [CHR 0x00, CHR 0xFF], [])"
  by (rule uu_roundtrip) (simp_all add: plain_word_def code_def)

end
