(* ===== verification/Joincmd.thy ===== *)
theory Joincmd
  imports Cli
begin

text \<open>
  The utility \<^verbatim>\<open>join\<close>: \<^verbatim>\<open>pkg/join/join.go\<close>.  The loop over two indices is a recursion on the two remaining lists of parsed
  lines.  On files that are sorted by their keys it computes the relational join.
\<close>

section \<open>The program\<close>

definition join_spec :: FlagSpec where
  "join_spec = mkSpec [mkFlag ''1'' [] FlagValue, mkFlag ''2'' [] FlagValue, mkFlag ''t'' [] FlagValue, mkFlag ''a'' [] FlagValue,
     mkFlag ''v'' [] FlagValue, mkFlag ''o'' [] FlagValue, mkFlag [] ''json'' FlagBool]"

record jline =
  l_raw :: string
  l_key :: string
  l_fields :: "string list"

definition parseLine :: "string \<Rightarrow> string \<Rightarrow> int \<Rightarrow> jline" where
  "parseLine text delim fieldIdx =
     (let fs = Split text delim
      in \<lparr>l_raw = text, l_key = (if 0 \<le> fieldIdx \<and> fieldIdx < int (length fs) then fs ! nat fieldIdx else []), l_fields = fs\<rparr>)"

definition readFile :: "string \<Rightarrow> string \<Rightarrow> int \<Rightarrow> string + jline list" where
  "readFile r delim fieldIdx =
     (let (ls, ok) = Scanner r in if ok then Inr (map (\<lambda>l. parseLine l delim fieldIdx) ls) else Inl scan_error)"

text \<open>\<^verbatim>\<open>parsePairSpec\<close>: \<^const>\<open>None\<close> is an error.\<close>

definition parsePairSpec :: "string \<Rightarrow> (int \<times> int) option" where
  "parsePairSpec spec =
     (case Index spec ''.'' of
        None \<Rightarrow> map_option (\<lambda>fileNum. (fileNum, 1)) (ParseInt spec)
      | Some i \<Rightarrow>
          Option.bind (ParseInt (take i spec)) (\<lambda>fileNum.
            map_option (\<lambda>fieldNum. (fileNum, fieldNum)) (ParseInt (drop (i + 1) spec))))"

definition select_field :: "jline \<Rightarrow> jline \<Rightarrow> string \<Rightarrow> string" where
  "select_field l1 l2 spec =
     (case parsePairSpec spec of
        None \<Rightarrow> []
      | Some (fileNum, fieldNum) \<Rightarrow>
          if fileNum \<noteq> 1 \<and> fileNum \<noteq> 2 \<or> fieldNum < 1 then []
          else
            (let fs = (if fileNum = 1 then l_fields l1 else l_fields l2)
             in if fieldNum \<le> int (length fs) then fs ! nat (fieldNum - 1) else []))"

text \<open>The fields of the second line without its key field.\<close>

definition other_fields :: "int \<Rightarrow> string list \<Rightarrow> string list" where
  "other_fields keyIdx fs = map snd (filter (\<lambda>(idx, f). int idx \<noteq> keyIdx) (enumerate 0 fs))"

definition formatOutput :: "string \<Rightarrow> string \<Rightarrow> int \<Rightarrow> jline \<Rightarrow> jline \<Rightarrow> string" where
  "formatOutput delim oSpec keyIdx2 l1 l2 =
     (if oSpec = [] then
        (if l_raw l1 = [] then l_raw l2
         else if l_raw l2 = [] then l_raw l1
         else Join (l_fields l1 @ other_fields keyIdx2 (l_fields l2)) delim)
      else Join (map (select_field l1 l2) (Fields oSpec)) delim)"

text \<open>The merge: \<open>show1\<close> and \<open>show2\<close> are \<^verbatim>\<open>a1 || v1\<close> and \<^verbatim>\<open>a2 || v2\<close>, \<open>hide\<close> is \<^verbatim>\<open>v1 || v2\<close>.\<close>

function join_loop ::
  "(jline \<Rightarrow> jline \<Rightarrow> string) \<Rightarrow> bool \<Rightarrow> bool \<Rightarrow> bool \<Rightarrow> jline list \<Rightarrow> jline list \<Rightarrow> string list" where
  "join_loop out show1 show2 hide (x # xs) (y # ys) =
     (if str_less (l_key x) (l_key y) then
        (if show1 then [l_raw x] else []) @ join_loop out show1 show2 hide xs (y # ys)
      else if str_less (l_key y) (l_key x) then
        (if show2 then [l_raw y] else []) @ join_loop out show1 show2 hide (x # xs) ys
      else
        (let keyMatch = l_key x; same = (\<lambda>l. l_key l = keyMatch)
         in (if hide then []
             else concat (map (\<lambda>mi. map (out mi) (takeWhile same (y # ys))) (takeWhile same (x # xs))))
            @ join_loop out show1 show2 hide (dropWhile same (x # xs)) (dropWhile same (y # ys))))"
| "join_loop out show1 show2 hide [] ys = (if show2 then map l_raw ys else [])"
| "join_loop out show1 show2 hide (x # xs) [] = (if show1 then map l_raw (x # xs) else [])"
  by pat_completeness auto
termination
proof (relation "measure (\<lambda>(out, show1, show2, hide, xs, ys). length xs + length ys)", goal_cases)
  case (4 out show1 show2 hide x xs y ys keyMatch same)
  then have "length (dropWhile same (x # xs)) < length (x # xs)" using length_dropWhile_le [of same xs] by simp
  moreover have "length (dropWhile same (y # ys)) \<le> length (y # ys)" by (rule length_dropWhile_le)
  ultimately show ?case by simp
qed auto

definition join_Run ::
  "string \<Rightarrow> string \<Rightarrow> int \<Rightarrow> int \<Rightarrow> string \<Rightarrow> bool \<times> bool \<Rightarrow> bool \<times> bool \<Rightarrow> string \<Rightarrow> string + string list" where
  "join_Run r1 r2 field1 field2 delim a v oSpec =
     res_bind (readFile r1 delim (wrap64 (field1 - 1))) (\<lambda>lines1.
     res_bind (readFile r2 delim (wrap64 (field2 - 1))) (\<lambda>lines2.
       Inr (join_loop (formatOutput delim oSpec (wrap64 (field2 - 1))) (fst a \<or> fst v) (snd a \<or> snd v) (fst v \<or> snd v)
              lines1 lines2)))"

definition JoinResult_json :: "string list \<Rightarrow> json" where
  "JoinResult_json recs =
     JObj [(''records'', if recs = [] then JNull else JArr (map (\<lambda>r. JObj [(''line'', JStr r)]) recs))]"

definition one_two :: "string \<Rightarrow> bool \<times> bool" where
  "one_two s = (s = ''1'', s = ''2'')"

text \<open>The command reads the standard input of the process, which its first reader uses up.\<close>

definition join_run :: "files \<Rightarrow> string \<Rightarrow> string list \<Rightarrow> result" where
  "join_run fs osStdin args =
     (case ParseFlags args join_spec of
        Inl e \<Rightarrow> flag_failure ''join'' args e 2
      | Inr flags \<Rightarrow>
          (let jsonMode = Has flags ''json'';
               failed = (\<lambda>c e. (1, RenderError ''join'' 1 c e jsonMode, ''join: '' @ e @ [NL]));
               field1 = (if Has flags ''1'' then Atoi_value (Get flags ''1'') else 1);
               field2 = (if Has flags ''2'' then Atoi_value (Get flags ''2'') else 1);
               delim = (if Has flags ''t'' \<and> Get flags ''t'' \<noteq> [] then Get flags ''t'' else '' '')
           in case Positional flags of
                file1 # file2 # _ \<Rightarrow>
                  (case (if file1 = ''-'' then Inr osStdin else fs file1) of
                     Inl e \<Rightarrow> failed ''EOPEN'' e
                   | Inr r1 \<Rightarrow>
                       (case (if file2 = ''-'' then Inr (if file1 = ''-'' then [] else osStdin) else fs file2) of
                          Inl e \<Rightarrow> failed ''EOPEN'' e
                        | Inr r2 \<Rightarrow>
                            (case join_Run r1 r2 field1 field2 delim (one_two (Get flags ''a'')) (one_two (Get flags ''v''))
                                    (Get flags ''o'') of
                               Inl e \<Rightarrow> failed ''EJOIN'' e
                             | Inr recs \<Rightarrow> (0, Render ''join'' (JoinResult_json recs) jsonMode (println_all recs), []))))
              | _ \<Rightarrow> failed ''EARGS'' ''missing file operands''))"

section \<open>The relational join\<close>

definition key_sorted :: "jline list \<Rightarrow> bool" where
  "key_sorted ls = str_sorted (map l_key ls)"

definition pairs :: "(jline \<Rightarrow> jline \<Rightarrow> string) \<Rightarrow> jline list \<Rightarrow> jline list \<Rightarrow> string list" where
  "pairs out xs ys = concat (map (\<lambda>x. map (out x) (filter (\<lambda>y. l_key y = l_key x) ys)) xs)"

definition unpaired :: "jline list \<Rightarrow> jline list \<Rightarrow> string list" where
  "unpaired xs ys = map l_raw (filter (\<lambda>x. l_key x \<notin> l_key ` set ys) xs)"

lemma key_sorted_Cons: "key_sorted (x # xs) \<longleftrightarrow> (\<forall>y \<in> set xs. \<not> str_less (l_key y) (l_key x)) \<and> key_sorted xs"
  by (auto simp: key_sorted_def str_sorted_def)

text \<open>A key below the first key of a sorted list is not in it.\<close>

lemma key_below:
  assumes "str_less k (l_key y)" and "key_sorted (y # ys)"
  shows "k \<notin> l_key ` set (y # ys)"
proof
  assume "k \<in> l_key ` set (y # ys)"
  then obtain z where "z \<in> set (y # ys)" "k = l_key z" by blast
  then show False using assms str_less_irrefl by (auto simp: key_sorted_Cons)
qed

text \<open>The lines with the first key are a prefix of a sorted list, and the others have a greater key.\<close>

lemma key_group:
  "key_sorted ls \<Longrightarrow> \<forall>l \<in> set ls. \<not> str_less (l_key l) k \<Longrightarrow>
   takeWhile (\<lambda>l. l_key l = k) ls = filter (\<lambda>l. l_key l = k) ls \<and>
   dropWhile (\<lambda>l. l_key l = k) ls = filter (\<lambda>l. l_key l \<noteq> k) ls \<and> key_sorted (dropWhile (\<lambda>l. l_key l = k) ls)"
proof (induction ls)
  case (Cons l ls)
  show ?case
  proof (cases "l_key l = k")
    case True
    then show ?thesis using Cons by (auto simp: key_sorted_Cons)
  next
    case False
    then have "str_less k (l_key l)" using Cons.prems(2) str_less_linear by auto
    then have "k \<notin> l_key ` set (l # ls)" using Cons.prems(1) by (rule key_below)
    then have "filter (\<lambda>l. l_key l = k) (l # ls) = []" "filter (\<lambda>l. l_key l \<noteq> k) (l # ls) = l # ls"
      by (auto simp: filter_empty_conv filter_id_conv)
    then show ?thesis using False Cons.prems(1) by simp
  qed
qed (simp add: key_sorted_def str_sorted_def)

lemma pairs_skip1: "l_key x \<notin> l_key ` set ys \<Longrightarrow> pairs out (x # xs) ys = pairs out xs ys"
proof -
  assume "l_key x \<notin> l_key ` set ys"
  then have "filter (\<lambda>y. l_key y = l_key x) ys = []" unfolding filter_empty_conv by (metis image_eqI)
  then show ?thesis by (simp add: pairs_def)
qed

lemma pairs_skip2: "l_key y \<notin> l_key ` set xs \<Longrightarrow> pairs out xs (y # ys) = pairs out xs ys"
  by (induction xs) (auto simp: pairs_def)

lemma unpaired_skip: "l_key x \<notin> l_key ` set ys \<Longrightarrow> unpaired (x # xs) ys = l_raw x # unpaired xs ys"
  by (simp add: unpaired_def)

lemma unpaired_other: "l_key y \<notin> l_key ` set xs \<Longrightarrow> unpaired xs (y # ys) = unpaired xs ys"
  unfolding unpaired_def by (rule arg_cong [where f = "map l_raw"], rule filter_cong) (auto simp: image_iff)

text \<open>A key that both lists have: its groups give the product, and what is left does not meet them.\<close>

lemma pairs_rest: "pairs out (filter (\<lambda>x. l_key x \<noteq> k) xs) (filter (\<lambda>y. l_key y \<noteq> k) ys) = pairs out (filter (\<lambda>x. l_key x \<noteq> k) xs) ys"
proof (induction xs)
  case (Cons x xs)
  have "filter (\<lambda>y. l_key y = l_key x) (filter (\<lambda>y. l_key y \<noteq> k) ys) = filter (\<lambda>y. l_key y = l_key x) ys" if "l_key x \<noteq> k"
    unfolding filter_filter using that by (intro filter_cong) auto
  then show ?case using Cons by (simp add: pairs_def)
qed (simp add: pairs_def)

lemma pairs_append: "pairs out (xs @ xs') ys = pairs out xs ys @ pairs out xs' ys"
  by (simp add: pairs_def)

lemma pairs_same: "\<forall>x \<in> set xs. l_key x = k \<Longrightarrow> pairs out xs ys = concat (map (\<lambda>x. map (out x) (filter (\<lambda>y. l_key y = k) ys)) xs)"
  by (induction xs) (simp_all add: pairs_def)

lemma unpaired_rest:
  assumes "k \<in> l_key ` set ys"
  shows "unpaired (filter (\<lambda>x. l_key x \<noteq> k) xs) (filter (\<lambda>y. l_key y \<noteq> k) ys) = unpaired xs ys"
  unfolding unpaired_def filter_filter using assms by (intro arg_cong [where f = "map l_raw"] filter_cong) auto

lemma join_loop_correct:
  "key_sorted xs \<Longrightarrow> key_sorted ys \<Longrightarrow>
   mset (join_loop out show1 show2 hide xs ys) =
     (if hide then {#} else mset (pairs out xs ys)) + (if show1 then mset (unpaired xs ys) else {#})
       + (if show2 then mset (unpaired ys xs) else {#}) \<and>
   (\<not> show1 \<longrightarrow> \<not> show2 \<longrightarrow> \<not> hide \<longrightarrow> join_loop out show1 show2 hide xs ys = pairs out xs ys) \<and>
   (show1 \<longrightarrow> \<not> show2 \<longrightarrow> hide \<longrightarrow> join_loop out show1 show2 hide xs ys = unpaired xs ys)"
proof (induction out show1 show2 hide xs ys rule: join_loop.induct)
  case (1 out show1 show2 hide x xs y ys)
  consider "str_less (l_key x) (l_key y)" | "str_less (l_key y) (l_key x)" | "l_key x = l_key y"
    using str_less_linear [of "l_key x" "l_key y"] by auto
  then show ?case
  proof cases
    case 1
    then have n: "l_key x \<notin> l_key ` set (y # ys)" using "1.prems"(2) by (intro key_below)
    have "key_sorted xs" using "1.prems"(1) by (simp add: key_sorted_Cons)
    note IH = "1.IH"(1) [OF 1 this "1.prems"(2)]
    show ?thesis using IH 1 unfolding pairs_skip1 [OF n] unpaired_skip [OF n] unpaired_other [OF n] by auto
  next
    case 2
    then have lt: "\<not> str_less (l_key x) (l_key y)" by (rule str_less_asym)
    have n: "l_key y \<notin> l_key ` set (x # xs)" using 2 "1.prems"(1) by (intro key_below)
    have "key_sorted ys" using "1.prems"(2) by (simp add: key_sorted_Cons)
    note IH = "1.IH"(2) [OF lt 2 "1.prems"(1) this]
    show ?thesis using IH 2 lt unfolding pairs_skip2 [OF n] unpaired_skip [OF n] unpaired_other [OF n] by auto
  next
    case 3
    define k where "k = l_key x"
    let ?same = "\<lambda>l. l_key l = k"
    have ge: "\<forall>l \<in> set (x # xs). \<not> str_less (l_key l) k" "\<forall>l \<in> set (y # ys). \<not> str_less (l_key l) k"
      using "1.prems" 3 by (auto simp: key_sorted_Cons k_def)
    note g1 = key_group [OF "1.prems"(1) ge(1)] and g2 = key_group [OF "1.prems"(2) ge(2)]
    have nl: "\<not> str_less (l_key x) (l_key y)" "\<not> str_less (l_key y) (l_key x)" using 3 by simp_all
    let ?xs = "dropWhile ?same (x # xs)" and ?ys = "dropWhile ?same (y # ys)"
    note IH = "1.IH"(3) [OF nl k_def refl conjunct2 [OF conjunct2 [OF g1]] conjunct2 [OF conjunct2 [OF g2]]]
    have u: "unpaired ?xs ?ys = unpaired (x # xs) (y # ys)" "unpaired ?ys ?xs = unpaired (y # ys) (x # xs)"
      using g1 g2 unpaired_rest [of k "y # ys" "x # xs"] unpaired_rest [of k "x # xs" "y # ys"] 3 by (simp_all add: k_def)
    have p: "pairs out (x # xs) (y # ys) =
      concat (map (\<lambda>mi. map (out mi) (takeWhile ?same (y # ys))) (takeWhile ?same (x # xs))) @ pairs out ?xs ?ys"
    proof -
      have "pairs out (x # xs) (y # ys) = pairs out (takeWhile ?same (x # xs)) (y # ys) @ pairs out ?xs (y # ys)"
        unfolding pairs_append [symmetric] takeWhile_dropWhile_id by simp
      moreover have "pairs out ?xs (y # ys) = pairs out ?xs ?ys" using g1 g2 pairs_rest [of out k "x # xs" "y # ys"] by metis
      moreover have "pairs out (takeWhile ?same (x # xs)) (y # ys) =
        concat (map (\<lambda>mi. map (out mi) (takeWhile ?same (y # ys))) (takeWhile ?same (x # xs)))"
        using g2 pairs_same [of "takeWhile ?same (x # xs)" k out "y # ys"] by (metis set_takeWhileD)
      ultimately show ?thesis by simp
    qed
    have j: "join_loop out show1 show2 hide (x # xs) (y # ys) =
      (if hide then [] else concat (map (\<lambda>mi. map (out mi) (takeWhile ?same (y # ys))) (takeWhile ?same (x # xs))))
        @ join_loop out show1 show2 hide ?xs ?ys"
      using nl by (simp add: Let_def k_def)
    show ?thesis using IH unfolding j p u by auto
  qed
qed (auto simp: pairs_def unpaired_def)

section \<open>Properties\<close>

text \<open>C10. On files sorted by their join fields, \<^verbatim>\<open>join\<close> is the relational join: without \<^verbatim>\<open>-a\<close> and \<^verbatim>\<open>-v\<close> it writes exactly the pairs of
  lines with equal keys, in the order of the first file and then of the second; \<^verbatim>\<open>-v 1\<close> writes exactly the lines
  of the first file without a partner, in order; and with any options the written lines are, as a multiset, the pairs
  (unless \<^verbatim>\<open>-v\<close> hides them) and the lines without a partner that the options ask for.\<close>

theorem join_relational:
  assumes "readFile r1 delim (wrap64 (field1 - 1)) = Inr xs" and "readFile r2 delim (wrap64 (field2 - 1)) = Inr ys"
    and "key_sorted xs" and "key_sorted ys"
  shows "\<exists>recs. join_Run r1 r2 field1 field2 delim a v oSpec = Inr recs \<and>
    (let out = formatOutput delim oSpec (wrap64 (field2 - 1))
     in mset recs = (if fst v \<or> snd v then {#} else mset (pairs out xs ys))
           + (if fst a \<or> fst v then mset (unpaired xs ys) else {#}) + (if snd a \<or> snd v then mset (unpaired ys xs) else {#}) \<and>
        (a = (False, False) \<and> v = (False, False) \<longrightarrow> recs = pairs out xs ys) \<and>
        (a = (False, False) \<and> v = (True, False) \<longrightarrow> recs = unpaired xs ys))"
  using join_loop_correct [OF assms(3,4)] assms(1,2) by (auto simp: join_Run_def Let_def)

theorem join_relational_witness:
  "\<exists>recs. join_Run (''a 1'' @ [NL] @ ''b 2'' @ [NL]) (''b x'' @ [NL]) 1 1 '' '' (False, False) (False, False) [] = Inr recs \<and>
    (let out = formatOutput '' '' [] (wrap64 (1 - 1));
         xs = [parseLine ''a 1'' '' '' 0, parseLine ''b 2'' '' '' 0]; ys = [parseLine ''b x'' '' '' 0]
     in mset recs = (if False \<or> False then {#} else mset (pairs out xs ys))
           + (if False \<or> False then mset (unpaired xs ys) else {#}) + (if False \<or> False then mset (unpaired ys xs) else {#}) \<and>
        ((False, False) = (False, False) \<and> (False, False) = (False, False) \<longrightarrow> recs = pairs out xs ys) \<and>
        ((False, False) = (False, False) \<and> (False, False) = (True, False) \<longrightarrow> recs = unpaired xs ys))"
proof -
  have r: "readFile (''a 1'' @ [NL] @ ''b 2'' @ [NL]) '' '' (wrap64 (1 - 1)) = Inr [parseLine ''a 1'' '' '' 0, parseLine ''b 2'' '' '' 0]"
    "readFile (''b x'' @ [NL]) '' '' (wrap64 (1 - 1)) = Inr [parseLine ''b x'' '' '' 0]"
    using Scanner_println [of "[''a 1'', ''b 2'']"] Scanner_println [of "[''b x'']"]
    by (simp_all add: readFile_def wrap64_def println_all_def plain_line_def token_limit_def)
  have "l_key (parseLine ''a 1'' '' '' 0) = ''a''" "l_key (parseLine ''b 2'' '' '' 0) = ''b''"
    by (simp_all add: parseLine_def Split_char)
  then have s: "key_sorted [parseLine ''a 1'' '' '' 0, parseLine ''b 2'' '' '' 0]" "key_sorted [parseLine ''b x'' '' '' 0]"
    by (simp_all add: key_sorted_def str_sorted_def code_def)
  show ?thesis using join_relational [OF r s, of "(False, False)" "(False, False)" "[]"] by (simp add: Let_def)
qed

end
