(* ===== verification/Sortcmd.thy ===== *)
theory Sortcmd
  imports Cli
begin

text \<open>
  The utility \<^verbatim>\<open>sort\<close>: \<^verbatim>\<open>pkg/sort/sort.go\<close>.  The numbers of \<^verbatim>\<open>-n\<close>, \<^verbatim>\<open>-h\<close> and \<^verbatim>\<open>-M\<close> keys are a linear order with a parser, so
  that every fact holds for the rounded values of \<^verbatim>\<open>float64\<close>.  \<^verbatim>\<open>slices.SortStableFunc\<close> is insertion sort, its
  algorithm on up to twenty elements; for a consistent comparison every stable sort returns the same list
  (\<open>stable_sort_determined\<close>).  The
  arrays of a line item are one list of records.  A panic is \<^const>\<open>None\<close>.
\<close>

section \<open>Keys\<close>

definition sort_spec :: FlagSpec where
  "sort_spec = mkSpec [mkFlag ''r'' ''reverse'' FlagBool, mkFlag ''n'' ''numeric-sort'' FlagBool, mkFlag ''u'' ''unique'' FlagBool,
     mkFlag ''k'' ''key'' FlagValue, mkFlag ''t'' ''field-separator'' FlagValue, mkFlag ''o'' ''output'' FlagValue,
     mkFlag ''s'' ''stable'' FlagBool, mkFlag ''z'' ''zero-terminated'' FlagBool, mkFlag ''h'' ''human-numeric-sort'' FlagBool,
     mkFlag ''M'' ''month-sort'' FlagBool, mkFlag [] ''json'' FlagBool]"

record keySpec =
  startField :: int
  startChar :: int
  endField :: int
  endChar :: int
  numeric :: bool
  reverse :: bool
  month :: bool
  human :: bool

definition zero_key :: keySpec where
  "zero_key = \<lparr>startField = 0, startChar = 0, endField = 0, endChar = 0, numeric = False, reverse = False, month = False, human = False\<rparr>"

record 'f floats =
  ParseFloat :: "string \<Rightarrow> 'f option"
  float_int :: "int \<Rightarrow> 'f"

record 'f humanVal =
  hv_num :: 'f
  hasSuffix :: bool
  suffixRk :: int
  hv_orig :: string

record 'f keyVal =
  kv_key :: string
  kv_num :: 'f
  kv_valid :: bool
  kv_human :: "'f humanVal"

record 'f lineItem =
  original :: string
  item_keys :: "'f keyVal list"

definition monthOrder :: "string \<Rightarrow> int option" where
  "monthOrder = map_of
     [(''jan'', 1), (''january'', 1), (''feb'', 2), (''february'', 2), (''mar'', 3), (''march'', 3), (''apr'', 4), (''april'', 4),
      (''may'', 5), (''jun'', 6), (''june'', 6), (''jul'', 7), (''july'', 7), (''aug'', 8), (''august'', 8), (''sep'', 9),
      (''september'', 9), (''oct'', 10), (''october'', 10), (''nov'', 11), (''november'', 11), (''dec'', 12), (''december'', 12)]"

definition suffixRank :: "char \<Rightarrow> int option" where
  "suffixRank = map_of [(CHR ''K'', 1), (CHR ''k'', 2), (CHR ''M'', 3), (CHR ''G'', 4), (CHR ''T'', 5), (CHR ''P'', 6), (CHR ''E'', 7),
     (CHR ''Z'', 8), (CHR ''Y'', 9)]"

text \<open>The scan for the numeric prefix of a human value: digits and at most one point.\<close>

fun human_prefix :: "bool \<Rightarrow> string \<Rightarrow> string" where
  "human_prefix dotSeen [] = []"
| "human_prefix dotSeen (c # cs) =
     (if isDecDigit c then c # human_prefix dotSeen cs
      else if c = CHR ''.'' \<and> \<not> dotSeen then c # human_prefix True cs
      else [])"

definition parseHumanVal :: "'f floats \<Rightarrow> string \<Rightarrow> 'f humanVal" where
  "parseHumanVal F s0 =
     (let s = TrimSpace s0; none = \<lparr>hv_num = float_int F 0, hasSuffix = False, suffixRk = 0, hv_orig = []\<rparr>
      in if s = [] then none
         else
           (let numStr = human_prefix False s;
                rest = drop (length numStr) s
            in case ParseFloat F numStr of
                 None \<Rightarrow> none\<lparr>hv_orig := s\<rparr>
               | Some v \<Rightarrow>
                   (case (if rest = [] then None else suffixRank (hd rest)) of
                      Some rank \<Rightarrow> \<lparr>hv_num = v, hasSuffix = True, suffixRk = rank, hv_orig = s\<rparr>
                    | None \<Rightarrow> \<lparr>hv_num = v, hasSuffix = False, suffixRk = 0, hv_orig = s\<rparr>)))"

definition numeric_prefix :: "string \<Rightarrow> string \<times> bool" where
  "numeric_prefix s =
     (let sign = (if s \<noteq> [] \<and> (hd s = CHR ''+'' \<or> hd s = CHR ''-'') then [hd s] else []);
          t = drop (length sign) s;
          ds = takeWhile isDecDigit t;
          u = drop (length ds) t;
          frac = (if u \<noteq> [] \<and> hd u = CHR ''.'' then CHR ''.'' # takeWhile isDecDigit (tl u) else [])
      in (sign @ ds @ frac, ds \<noteq> [] \<or> length frac > 1))"

definition parseNumericPrefix :: "'f floats \<Rightarrow> string \<Rightarrow> 'f option" where
  "parseNumericPrefix F s0 =
     (let s = dropWhile is_blank s0; (p, hasDigit) = numeric_prefix s
      in if s = [] \<or> \<not> hasDigit then None else ParseFloat F p)"

definition sort_parseMonth :: "(nat \<Rightarrow> nat) \<Rightarrow> string \<Rightarrow> int option" where
  "sort_parseMonth uni s0 =
     (let s = TrimSpace s0; lower = ToLower uni s
      in if s = [] then None
         else case monthOrder lower of
                Some m \<Rightarrow> Some m
              | None \<Rightarrow> if length lower \<ge> 3 then monthOrder (take 3 lower) else None)"

text \<open>\<^verbatim>\<open>extractKey\<close>: \<^const>\<open>None\<close> is the panic of a slice whose end is before its start.\<close>

definition extractKey :: "string \<Rightarrow> keySpec \<Rightarrow> string \<Rightarrow> string option" where
  "extractKey line ks delimiter =
     (let parts = (if delimiter \<noteq> [] then Split line delimiter else Fields line)
      in if startField ks \<le> 0 then Some line
         else
           (let end = (if endField ks \<le> 0 \<or> endField ks < startField ks then startField ks else endField ks);
                keyParts = drop (nat (startField ks) - 1) (take (nat end) parts);
                key = Join keyParts (if delimiter = [] then '' '' else delimiter);
                startC = (if startChar ks \<le> 0 \<and> endChar ks > 0 then 1 else startChar ks)
            in if startC > 0 \<and> key \<noteq> [] then
                 (let rs = runes key; start = startC - 1
                  in if start \<ge> int (length rs) then Some []
                     else
                       (let endC = (if endChar ks > 0 \<and> endChar ks \<le> int (length rs) then endChar ks else int (length rs))
                        in if endC < start then None
                           else Some (of_runes (drop (nat start) (take (nat endC) rs)))))
               else Some key))"

definition parseFieldChar :: "string \<Rightarrow> int \<times> int" where
  "parseFieldChar s =
     (let num = (\<lambda>d t. case ParseInt t of None \<Rightarrow> d | Some v \<Rightarrow> v)
      in if s = [] then (1, 0)
         else case IndexByte s (CHR ''.'') of
                Some dot \<Rightarrow> (num 1 (take dot s), num 0 (drop (dot + 1) s))
              | None \<Rightarrow> (num 1 s, 0))"

definition key_flag :: "char \<Rightarrow> bool" where
  "key_flag c \<longleftrightarrow> c \<in> {CHR ''n'', CHR ''r'', CHR ''M'', CHR ''h'', CHR ''b''}"

text \<open>\<^verbatim>\<open>parseKeySpec\<close>: the part before the first flag letter is the field, and after a comma one character is skipped, whether
  it is the comma or not.\<close>

definition parseKeySpec :: "string \<Rightarrow> bool \<Rightarrow> bool \<Rightarrow> bool \<Rightarrow> keySpec" where
  "parseKeySpec kStr globalNumeric globalMonth globalHuman =
     (let comma = IndexByte kStr (CHR '','');
          head = (case comma of None \<Rightarrow> kStr | Some i \<Rightarrow> take i kStr);
          field = takeWhile (\<lambda>c. \<not> key_flag c) head;
          rest = drop (length field) kStr;
          (sf, sc) = parseFieldChar field;
          (ef, ec, flags) =
            (if comma \<noteq> None
             then (let rest2 = drop 1 rest; field2 = takeWhile (\<lambda>c. \<not> key_flag c) rest2; (f, c) = parseFieldChar field2
                   in (f, c, drop (length field2) rest2))
             else (0, 0, rest));
          hasF = (\<lambda>c. c \<in> set flags);
          n = hasF (CHR ''n''); m = hasF (CHR ''M''); h = hasF (CHR ''h'')
      in \<lparr>startField = sf, startChar = sc, endField = ef, endChar = ec,
          numeric = (n \<or> globalNumeric \<and> \<not> m \<and> \<not> h), reverse = hasF (CHR ''r''), month = (m \<or> globalMonth),
          human = (h \<or> globalHuman)\<rparr>)"

section \<open>Lines\<close>

definition key_value :: "(nat \<Rightarrow> nat) \<Rightarrow> 'f floats \<Rightarrow> keySpec \<Rightarrow> string \<Rightarrow> 'f keyVal" where
  "key_value uni F ks key =
     (let zero = float_int F 0;
          base = \<lparr>kv_key = key, kv_num = zero, kv_valid = False,
                  kv_human = \<lparr>hv_num = zero, hasSuffix = False, suffixRk = 0, hv_orig = []\<rparr>\<rparr>
      in if human ks then base\<lparr>kv_human := parseHumanVal F key\<rparr>
         else if numeric ks then
           (case parseNumericPrefix F key of None \<Rightarrow> base | Some v \<Rightarrow> base\<lparr>kv_num := v, kv_valid := True\<rparr>)
         else if month ks then
           (case sort_parseMonth uni key of None \<Rightarrow> base | Some v \<Rightarrow> base\<lparr>kv_num := float_int F v, kv_valid := True\<rparr>)
         else base)"

definition parse_item :: "(nat \<Rightarrow> nat) \<Rightarrow> 'f floats \<Rightarrow> keySpec list \<Rightarrow> string \<Rightarrow> string \<Rightarrow> 'f lineItem option" where
  "parse_item uni F keySpecs delimiter text =
     (if keySpecs = [] then Some \<lparr>original = text, item_keys = [key_value uni F zero_key text]\<rparr>
      else map_option (\<lambda>kvs. \<lparr>original = text, item_keys = kvs\<rparr>)
             (those (map (\<lambda>ks. map_option (key_value uni F ks) (extractKey text ks delimiter)) keySpecs)))"

text \<open>The scanner with the buffer of ten megabytes, on at most 256 megabytes; with \<^verbatim>\<open>-z\<close> it splits at zero bytes.\<close>

definition sort_buffer :: nat where "sort_buffer = 10 * 1024 * 1024"
definition sort_input :: nat where "sort_input = 256 * 1024 * 1024"

definition tokens_at :: "char \<Rightarrow> string \<Rightarrow> string list" where
  "tokens_at c s = (let ps = split_char c s in if last ps = [] then butlast ps else ps)"

definition sort_scan :: "bool \<Rightarrow> string \<Rightarrow> string list \<times> bool" where
  "sort_scan zeroTerminated r =
     (let s = take sort_input r;
          ts = (if zeroTerminated then tokens_at (CHR 0x00) s else text_lines s);
          good = takeWhile (\<lambda>t. length t < sort_buffer) ts
      in (if zeroTerminated then good else map drop_cr good, length good = length ts))"

text \<open>\<^verbatim>\<open>parseLines\<close> on one reader; the outer \<^const>\<open>None\<close> is a panic, \<open>Inl\<close> an error of the scanner.\<close>

definition parseLines ::
  "(nat \<Rightarrow> nat) \<Rightarrow> 'f floats \<Rightarrow> keySpec list \<Rightarrow> string \<Rightarrow> bool \<Rightarrow> string \<Rightarrow> (string + 'f lineItem list) option" where
  "parseLines uni F keySpecs delimiter zeroTerminated r =
     (let (ts, ok) = sort_scan zeroTerminated r
      in map_option (\<lambda>items. if ok then Inr items else Inl scan_error) (those (map (parse_item uni F keySpecs delimiter) ts)))"

section \<open>Comparison\<close>

definition cmpFloat :: "'f::linorder \<Rightarrow> 'f \<Rightarrow> int" where
  "cmpFloat a b = (if a < b then - 1 else if b < a then 1 else 0)"

definition cmp_str :: "string \<Rightarrow> string \<Rightarrow> int" where
  "cmp_str a b = (if str_less a b then - 1 else if str_less b a then 1 else 0)"

definition compareHuman :: "'f::linorder humanVal \<Rightarrow> 'f humanVal \<Rightarrow> int" where
  "compareHuman a b =
     (if \<not> hasSuffix a \<and> hasSuffix b then - 1
      else if hasSuffix a \<and> \<not> hasSuffix b then 1
      else if \<not> hasSuffix a \<and> \<not> hasSuffix b then
        (if hv_num a \<noteq> hv_num b then cmpFloat (hv_num a) (hv_num b) else cmp_str (hv_orig a) (hv_orig b))
      else if suffixRk a \<noteq> suffixRk b then (if suffixRk a < suffixRk b then - 1 else 1)
      else if hv_num a \<noteq> hv_num b then cmpFloat (hv_num a) (hv_num b)
      else cmp_str (hv_orig a) (hv_orig b))"

text \<open>One key: whether the first is less, and whether they tie.\<close>

definition key_less :: "keySpec \<Rightarrow> 'f::linorder keyVal \<Rightarrow> 'f keyVal \<Rightarrow> bool \<times> bool" where
  "key_less ks a b =
     (if (month ks \<or> numeric ks) \<and> kv_valid a \<and> kv_valid b then (kv_num a < kv_num b, kv_num a = kv_num b)
      else if numeric ks then
        (if kv_valid a \<and> \<not> kv_valid b then (False, False)
         else if \<not> kv_valid a \<and> kv_valid b then (True, False)
         else (str_less (kv_key a) (kv_key b), kv_key a = kv_key b))
      else (str_less (kv_key a) (kv_key b), kv_key a = kv_key b))"

definition cmp_key :: "keySpec \<Rightarrow> 'f::linorder keyVal \<Rightarrow> 'f keyVal \<Rightarrow> int" where
  "cmp_key ks a b =
     (if human ks then (let c = compareHuman (kv_human a) (kv_human b) in if reverse ks then - c else c)
      else
        (let (less, tie) = key_less ks a b
         in if tie then 0 else if reverse ks then (if less then 1 else - 1) else (if less then - 1 else 1)))"

fun cmp_keys :: "keySpec list \<Rightarrow> 'f::linorder keyVal list \<Rightarrow> 'f keyVal list \<Rightarrow> int" where
  "cmp_keys (ks # kss) (a # as) (b # bs) = (let c = cmp_key ks a b in if c \<noteq> 0 then c else cmp_keys kss as bs)"
| "cmp_keys kss as bs = 0"

definition cmp_items :: "keySpec list \<Rightarrow> bool \<Rightarrow> bool \<Rightarrow> 'f::linorder lineItem \<Rightarrow> 'f lineItem \<Rightarrow> int" where
  "cmp_items ksList stab tieReverse a b =
     (let c = cmp_keys ksList (item_keys a) (item_keys b)
      in if c \<noteq> 0 then c
         else if \<not> stab then (let l = cmp_str (original a) (original b) in if tieReverse then - l else l)
         else 0)"

text \<open>Insertion sort as the library does it: each element moves left past the elements it is less than.\<close>

fun insert_back :: "('a \<Rightarrow> 'a \<Rightarrow> int) \<Rightarrow> 'a \<Rightarrow> 'a list \<Rightarrow> 'a list" where
  "insert_back cmp x [] = [x]"
| "insert_back cmp x (y # ys) = (if cmp x y < 0 then y # insert_back cmp x ys else x # y # ys)"

definition SortStableFunc :: "('a \<Rightarrow> 'a \<Rightarrow> int) \<Rightarrow> 'a list \<Rightarrow> 'a list" where
  "SortStableFunc cmp xs = rev (foldl (\<lambda>done x. insert_back cmp x done) [] xs)"

text \<open>\<^verbatim>\<open>Run\<close> as the command calls it: with global options there is always a key, so an empty list means plain comparison.\<close>

fun unique_items :: "string list option \<Rightarrow> 'f lineItem list \<Rightarrow> string list" where
  "unique_items lastKeys [] = []"
| "unique_items lastKeys (i # is) =
     (let keys = map kv_key (item_keys i)
      in if lastKeys \<noteq> Some keys then original i # unique_items (Some keys) is else unique_items lastKeys is)"

definition sort_Run :: "'f::linorder lineItem list \<Rightarrow> keySpec list \<Rightarrow> bool \<Rightarrow> bool \<Rightarrow> bool \<Rightarrow> string list" where
  "sort_Run items keySpecs unique stab tieReverse =
     (let sorted = SortStableFunc (cmp_items (if keySpecs = [] then [zero_key] else keySpecs) stab tieReverse) items
      in if unique then unique_items None sorted else map original sorted)"

section \<open>The command\<close>

text \<open>The key specifications and whether the global reversal applies to the last resort only.\<close>

definition sort_keys :: "ParseResult \<Rightarrow> keySpec list \<times> bool" where
  "sort_keys flags =
     (let rv = Has flags ''r''; nu = Has flags ''n''; mo = Has flags ''M''; hu = Has flags ''h'';
          specs = map (\<lambda>k. parseKeySpec k nu mo hu) (GetAll flags ''k'');
          hasNumericKey = list_ex (\<lambda>ks. numeric ks \<or> month ks \<or> human ks) specs
      in if specs = [] then
           (if rv \<or> nu \<or> mo \<or> hu then [zero_key\<lparr>reverse := rv, numeric := nu, month := mo, human := hu\<rparr>] else [], False)
         else
           (if rv \<and> \<not> hasNumericKey then map (\<lambda>ks. ks\<lparr>reverse := \<not> reverse ks\<rparr>) specs else specs, rv \<and> hasNumericKey))"

definition sort_output :: "bool \<Rightarrow> string list \<Rightarrow> string" where
  "sort_output zeroTerm ls =
     (let sep = (if zeroTerm then [CHR 0x00] else [NL]) in if ls = [] then [] else Join ls sep @ sep)"

fun parse_readers ::
  "(string \<Rightarrow> (string + 'f lineItem list) option) \<Rightarrow> string list \<Rightarrow> (string + 'f lineItem list) option" where
  "parse_readers parse [] = Some (Inr [])"
| "parse_readers parse (r # rs) =
     Option.bind (parse r) (\<lambda>x. case x of
         Inl e \<Rightarrow> Some (Inl e)
       | Inr is \<Rightarrow> Option.bind (parse_readers parse rs) (\<lambda>y. case y of Inl e \<Rightarrow> Some (Inl e) | Inr js \<Rightarrow> Some (Inr (is @ js))))"

text \<open>The exit code, standard output, standard error, and the output file with its content; \<open>create\<close> is the error of creating it.\<close>

definition sortRun ::
  "(nat \<Rightarrow> nat) \<Rightarrow> 'f::linorder floats \<Rightarrow> files \<Rightarrow> (string \<Rightarrow> string option) \<Rightarrow> string \<Rightarrow> string list
    \<Rightarrow> (int \<times> string \<times> string \<times> (string \<times> string) option) option" where
  "sortRun uni F fs create stdin args =
     (case ParseFlags args sort_spec of
        Inl e \<Rightarrow> (case flag_failure ''sort'' args e 2 of (c, out, err) \<Rightarrow> Some (c, out, err, None))
      | Inr flags \<Rightarrow>
          (let jsonMode = Has flags ''json''; zeroTerm = Has flags ''z''; outputFile = Get flags ''o'';
               (keySpecs, tieReverse) = sort_keys flags
           in case operands fs stdin (Positional flags) of
                Inl (p, e) \<Rightarrow> Some (1, [], ''sort: '' @ p @ '': '' @ e @ [NL], None)
              | Inr readers \<Rightarrow>
                  Option.bind (parse_readers (parseLines uni F keySpecs (Get flags ''t'') zeroTerm) readers) (\<lambda>x.
                    case x of
                      Inl e \<Rightarrow> Some (1, [], ''sort: '' @ e @ [NL], None)
                    | Inr items \<Rightarrow>
                        (let ls = sort_Run items keySpecs (Has flags ''u'') (Has flags ''s'') tieReverse;
                             json = Render ''sort'' (JObj [(''lines'', nil_strings ls), (''count'', JInt (int (length ls)))]) True [];
                             text = sort_output zeroTerm ls
                         in if outputFile \<noteq> [] then
                              (case create outputFile of
                                 Some e \<Rightarrow> Some (1, [], ''sort: '' @ outputFile @ '': '' @ e @ [NL], None)
                               | None \<Rightarrow>
                                   if jsonMode then Some (0, json, [], Some (outputFile, []))
                                   else Some (0, [], [], Some (outputFile, text)))
                            else Some (0, if jsonMode then json else text, [], None)))))"

section \<open>Stable sorting by a consistent comparison\<close>

lemma insert_back_mset: "mset (insert_back cmp x ys) = add_mset x (mset ys)"
  by (induction ys) auto

lemma insert_back_set: "set (insert_back cmp x ys) = insert x (set ys)"
  using insert_back_mset [of cmp x ys] by (metis set_mset_add_mset_insert set_mset_mset)

lemma sort_mset: "mset (SortStableFunc cmp xs) = mset xs"
proof -
  have "mset (foldl (\<lambda>done x. insert_back cmp x done) acc xs) = mset acc + mset xs" for acc
    by (induction xs arbitrary: acc) (simp_all add: insert_back_mset)
  from this [of "[]"] show ?thesis by (simp add: SortStableFunc_def)
qed

lemma sort_set: "set (SortStableFunc cmp xs) = set xs"
  using sort_mset [of cmp xs] by (metis set_mset_mset)

text \<open>Only the comparisons of elements of the list matter.\<close>

lemma insert_back_cong: "\<forall>y \<in> set ys. cmp x y = cmp' x y \<Longrightarrow> insert_back cmp x ys = insert_back cmp' x ys"
  by (induction ys) auto

lemma SortStableFunc_cong:
  assumes "\<And>x y. x \<in> set xs \<Longrightarrow> y \<in> set xs \<Longrightarrow> cmp x y = cmp' x y"
  shows "SortStableFunc cmp xs = SortStableFunc cmp' xs"
proof -
  have "set acc \<subseteq> set xs \<Longrightarrow> set zs \<subseteq> set xs \<Longrightarrow>
    foldl (\<lambda>done x. insert_back cmp x done) acc zs = foldl (\<lambda>done x. insert_back cmp' x done) acc zs" for acc zs
  proof (induction zs arbitrary: acc)
    case (Cons z zs)
    then have "insert_back cmp z acc = insert_back cmp' z acc" using assms by (intro insert_back_cong) auto
    then show ?case using Cons insert_back_set [of cmp' z acc] by simp
  qed simp
  then show ?thesis by (simp add: SortStableFunc_def)
qed

locale comparison =
  fixes cmp :: "'a \<Rightarrow> 'a \<Rightarrow> int" and ok :: "'a \<Rightarrow> bool"
  assumes opposite: "ok x \<Longrightarrow> ok y \<Longrightarrow> cmp y x = - cmp x y"
    and trans: "ok x \<Longrightarrow> ok y \<Longrightarrow> ok z \<Longrightarrow> cmp x y \<le> 0 \<Longrightarrow> cmp y z \<le> 0 \<Longrightarrow> cmp x z \<le> 0"
begin

text \<open>The part already sorted is held backwards.\<close>

abbreviation descending :: "'a list \<Rightarrow> bool" where
  "descending ys \<equiv> (\<forall>y \<in> set ys. ok y) \<and> sorted_wrt (\<lambda>a b. cmp b a \<le> 0) ys"

lemma insert_sorted: "ok x \<Longrightarrow> descending ys \<Longrightarrow> descending (insert_back cmp x ys)"
proof (induction ys)
  case (Cons y ys)
  have set: "set (insert_back cmp x ys) = insert x (set ys)" by (rule insert_back_set)
  show ?case
  proof (cases "cmp x y < 0")
    case True
    then show ?thesis using Cons set by auto
  next
    case False
    then have "cmp y x \<le> 0" using opposite [of y x] Cons.prems by simp
    moreover have "cmp z x \<le> 0" if "z \<in> set ys" for z using trans [of z y x] that Cons.prems calculation by auto
    ultimately show ?thesis using Cons.prems False by auto
  qed
qed simp

text \<open>Elements that compare equal keep their order: the new one stays behind them.\<close>

lemma equal_trans: "ok x \<Longrightarrow> ok y \<Longrightarrow> ok z \<Longrightarrow> cmp z x = 0 \<Longrightarrow> cmp z y = 0 \<Longrightarrow> cmp x y = 0"
  using opposite [of x z] opposite [of x y] opposite [of y z] trans [of x z y] trans [of y z x] by simp

lemma insert_stable:
  "ok z \<Longrightarrow> ok x \<Longrightarrow> \<forall>y \<in> set ys. ok y \<Longrightarrow>
   filter (\<lambda>a. cmp z a = 0) (insert_back cmp x ys) = (if cmp z x = 0 then [x] else []) @ filter (\<lambda>a. cmp z a = 0) ys"
proof (induction ys)
  case (Cons y ys)
  have "cmp z y \<noteq> 0" if "cmp x y < 0" "cmp z x = 0" using equal_trans [of x y z] that Cons.prems by auto
  then show ?case using Cons by auto
qed simp

lemma sort_invariant:
  "descending acc \<Longrightarrow> \<forall>x \<in> set xs. ok x \<Longrightarrow> ok z \<Longrightarrow>
   descending (foldl (\<lambda>done x. insert_back cmp x done) acc xs) \<and>
   filter (\<lambda>a. cmp z a = 0) (foldl (\<lambda>done x. insert_back cmp x done) acc xs)
     = rev (filter (\<lambda>a. cmp z a = 0) xs) @ filter (\<lambda>a. cmp z a = 0) acc"
proof (induction xs arbitrary: acc)
  case (Cons x xs)
  have x: "ok x" and xs: "\<forall>x \<in> set xs. ok x" using Cons.prems(2) by simp_all
  have d: "descending (insert_back cmp x acc)" by (rule insert_sorted [OF x Cons.prems(1)])
  have f: "filter (\<lambda>a. cmp z a = 0) (insert_back cmp x acc) = (if cmp z x = 0 then [x] else []) @ filter (\<lambda>a. cmp z a = 0) acc"
    by (rule insert_stable [OF Cons.prems(3) x conjunct1 [OF Cons.prems(1)]])
  show ?case using Cons.IH [OF d xs Cons.prems(3)] unfolding f by simp
qed simp

lemma sort_sorted:
  assumes "\<forall>x \<in> set xs. ok x"
  shows "sorted_wrt (\<lambda>a b. cmp a b \<le> 0) (SortStableFunc cmp xs)"
proof (cases xs)
  case (Cons x ys)
  then have "descending (foldl (\<lambda>done x. insert_back cmp x done) [] xs)" using sort_invariant [of "[]" xs x] assms by simp
  then show ?thesis by (simp only: SortStableFunc_def sorted_wrt_rev)
qed (simp add: SortStableFunc_def)

lemma sort_stable:
  assumes "\<forall>x \<in> set xs. ok x" and "ok z"
  shows "filter (\<lambda>a. cmp z a = 0) (SortStableFunc cmp xs) = filter (\<lambda>a. cmp z a = 0) xs"
  using sort_invariant [of "[]" xs z] assms by (simp add: SortStableFunc_def flip: rev_filter)

text \<open>Being sorted and stable determines the result, so any stable sorting routine returns what insertion sort does.\<close>

lemma self:
  assumes "ok a"
  shows "cmp a a = 0"
  using opposite [OF assms assms] by linarith

lemma same_class_equal:
  assumes "\<forall>a. ok a \<longrightarrow> filter (\<lambda>b. cmp a b = 0) ys = filter (\<lambda>b. cmp a b = 0) zs"
    and "\<forall>y \<in> set ys. ok y" and "\<forall>z \<in> set zs. ok z"
    and "sorted_wrt (\<lambda>a b. cmp a b \<le> 0) ys" and "sorted_wrt (\<lambda>a b. cmp a b \<le> 0) zs"
  shows "ys = zs"
  using assms
proof (induction ys arbitrary: zs)
  case Nil
  have False if "zs = z # us" for z us
  proof -
    have z: "ok z" using Nil(3) that by simp
    have "filter (\<lambda>b. cmp z b = 0) zs = []" using Nil(1) z by (metis filter.simps(1))
    then show False using self [OF z] that by simp
  qed
  then show ?case by (cases zs) auto
next
  case (Cons y ys)
  have y: "ok y" using Cons.prems(2) by simp
  have cls: "filter (\<lambda>b. cmp a b = 0) (y # ys) = filter (\<lambda>b. cmp a b = 0) zs" if "ok a" for a
    using Cons.prems(1) that by blast
  have "y \<in> set (filter (\<lambda>b. cmp y b = 0) (y # ys))" using self [OF y] by simp
  then have yz: "y \<in> set zs" unfolding cls [OF y] by simp
  then obtain z us where zs: "zs = z # us" by (cases zs) auto
  have z: "ok z" using Cons.prems(3) zs by simp
  have "z \<in> set (filter (\<lambda>b. cmp z b = 0) (y # ys))" unfolding cls [OF z] using self [OF z] zs by simp
  then have "z \<in> set (y # ys)" unfolding set_filter by blast
  then have "cmp y z \<le> 0" using Cons.prems(4) self [OF z] by auto
  moreover have "cmp z y \<le> 0" using yz Cons.prems(5) zs self [OF y] by auto
  ultimately have "cmp y z = 0" using opposite [OF y z] by linarith
  then have eq: "z = y" using cls [OF y] self [OF y] zs by simp
  have "filter (\<lambda>b. cmp a b = 0) ys = filter (\<lambda>b. cmp a b = 0) us" if "ok a" for a
    using cls [OF that] zs eq by (simp split: if_splits)
  moreover have "\<forall>y \<in> set ys. ok y" "\<forall>z \<in> set us. ok z" "sorted_wrt (\<lambda>a b. cmp a b \<le> 0) ys" "sorted_wrt (\<lambda>a b. cmp a b \<le> 0) us"
    using Cons.prems(2-5) zs by simp_all
  ultimately have "ys = us" by (intro Cons.IH) blast+
  then show ?case using zs eq by simp
qed

lemma stable_sort_determined:
  assumes "\<forall>x \<in> set xs. ok x" and "set ys \<subseteq> set xs" and "sorted_wrt (\<lambda>a b. cmp a b \<le> 0) ys"
    and "\<And>z. ok z \<Longrightarrow> filter (\<lambda>a. cmp z a = 0) ys = filter (\<lambda>a. cmp z a = 0) xs"
  shows "ys = SortStableFunc cmp xs"
proof (rule same_class_equal)
  show "\<forall>a. ok a \<longrightarrow> filter (\<lambda>b. cmp a b = 0) ys = filter (\<lambda>b. cmp a b = 0) (SortStableFunc cmp xs)"
    using assms(4) sort_stable [OF assms(1)] by metis
  show "\<forall>y \<in> set ys. ok y" using assms(1,2) by blast
  show "\<forall>z \<in> set (SortStableFunc cmp xs). ok z" using assms(1) by (simp add: sort_set)
qed (rule assms(3), rule sort_sorted [OF assms(1)])

end

section \<open>The comparison is consistent\<close>

text \<open>Comparisons compose: through a function, reversed, and one after the other.\<close>

lemma comparison_on:
  assumes "comparison c ok" and "\<And>x. ok' x \<Longrightarrow> ok (f x)"
  shows "comparison (\<lambda>x y. c (f x) (f y)) ok'"
proof
  show "c (f y) (f x) = - c (f x) (f y)" if "ok' x" "ok' y" for x y
    using that by (intro comparison.opposite [OF assms(1)] assms(2))
  show "c (f x) (f z) \<le> 0" if "ok' x" "ok' y" "ok' z" "c (f x) (f y) \<le> 0" "c (f y) (f z) \<le> 0" for x y z
    by (rule comparison.trans [OF assms(1) _ _ _ that(4,5)]) (use that assms(2) in blast)+
qed

lemma comparison_neg:
  assumes "comparison c ok"
  shows "comparison (\<lambda>x y. - c x y) ok"
proof
  show "- c y x = - (- c x y)" if "ok x" "ok y" for x y using comparison.opposite [OF assms that] by simp
next
  fix x y z assume ok: "ok x" "ok y" "ok z" and le: "- c x y \<le> 0" "- c y z \<le> 0"
  have "c y x \<le> 0" "c z y \<le> 0"
    using le comparison.opposite [OF assms ok(1,2)] comparison.opposite [OF assms ok(2,3)] by linarith+
  then have "c z x \<le> 0" using comparison.trans [OF assms ok(3,2,1)] by blast
  then show "- c x z \<le> 0" using comparison.opposite [OF assms ok(3,1)] by linarith
qed

lemma comparison_zero: "comparison (\<lambda>x y. 0) ok"
  by unfold_locales auto

lemma comparison_cong:
  assumes "comparison d ok" and "\<And>x y. ok x \<Longrightarrow> ok y \<Longrightarrow> c x y = d x y"
  shows "comparison c ok"
proof
  show "c y x = - c x y" if "ok x" "ok y" for x y
    using comparison.opposite [OF assms(1) that] by (simp only: assms(2) that)
  show "c x z \<le> 0" if "ok x" "ok y" "ok z" "c x y \<le> 0" "c y z \<le> 0" for x y z
    using comparison.trans [OF assms(1) that(1-3)] that(4,5) by (simp only: assms(2) that(1-3))
qed

definition lex :: "int \<Rightarrow> int \<Rightarrow> int" where
  "lex c d = (if c \<noteq> 0 then c else d)"

lemma comparison_lex:
  assumes c: "comparison c ok" and d: "comparison d ok"
  shows "comparison (\<lambda>x y. lex (c x y) (d x y)) ok"
proof
  show "lex (c y x) (d y x) = - lex (c x y) (d x y)" if "ok x" "ok y" for x y
    unfolding lex_def comparison.opposite [OF c that] comparison.opposite [OF d that] by simp
next
  fix x y z assume ok: "ok x" "ok y" "ok z" and l: "lex (c x y) (d x y) \<le> 0" "lex (c y z) (d y z) \<le> 0"
  note opp = comparison.opposite [OF c ok(1,2)] comparison.opposite [OF c ok(2,3)] comparison.opposite [OF c ok(1,3)]
  from l have le: "c x y \<le> 0" "c y z \<le> 0" by (auto simp: lex_def split: if_splits)
  then have xz: "c x z \<le> 0" by (rule comparison.trans [OF c ok])
  show "lex (c x z) (d x z) \<le> 0"
  proof (cases "c x z = 0")
    case True
    then have zx: "c z x \<le> 0" using opp(3) by linarith
    have "c z y \<le> 0" "c y x \<le> 0"
      using comparison.trans [OF c ok(3,1,2) zx le(1)] comparison.trans [OF c ok(2,3,1) le(2) zx] .
    then have "c x y = 0" "c y z = 0" using opp(1,2) le by linarith+
    then show ?thesis using l True comparison.trans [OF d ok] by (simp add: lex_def)
  next
    case False
    then show ?thesis using xz by (simp add: lex_def)
  qed
qed

lemma comparison_str: "comparison cmp_str (\<lambda>_. True)"
proof
  show "cmp_str b a = - cmp_str a b" for a b using str_less_asym by (auto simp: cmp_str_def)
  have le: "cmp_str x y \<le> 0 \<longleftrightarrow> \<not> str_less y x" for x y using str_less_asym by (auto simp: cmp_str_def)
  show "cmp_str a b \<le> 0 \<Longrightarrow> cmp_str b c \<le> 0 \<Longrightarrow> cmp_str a c \<le> 0" for a b c unfolding le by (rule str_le_trans)
qed

lemma comparison_float: "comparison cmpFloat (\<lambda>_. True)"
  by unfold_locales (auto simp: cmpFloat_def split: if_splits)

lemmas comparisons = comparison_lex comparison_on [OF comparison_str TrueI] comparison_on [OF comparison_float TrueI] comparison_zero

text \<open>The value of \<^verbatim>\<open>-h\<close>: suffix, rank, number, text.\<close>

definition rank0 :: "'f humanVal \<Rightarrow> int" where
  "rank0 a = (if hasSuffix a then suffixRk a else 0)"

lemma compareHuman_lex:
  "compareHuman a b = lex (cmpFloat (hasSuffix a) (hasSuffix b)) (lex (cmpFloat (rank0 a) (rank0 b))
     (lex (cmpFloat (hv_num a) (hv_num b)) (cmp_str (hv_orig a) (hv_orig b))))"
  by (auto simp: compareHuman_def lex_def cmpFloat_def rank0_def)

lemma comparison_human: "comparison compareHuman (\<lambda>_. True)"
  by (rule comparison_cong [OF _ compareHuman_lex]) (intro comparisons)

text \<open>A key of \<^verbatim>\<open>-M\<close> alone is compared as a month with months only: the comparison is consistent on the values that are
  month names.  The numbers of \<^verbatim>\<open>-n\<close> come after the text that is no number.\<close>

definition bare_month :: "keySpec \<Rightarrow> bool" where
  "bare_month ks \<longleftrightarrow> month ks \<and> \<not> numeric ks \<and> \<not> human ks"

definition sound_value :: "keySpec \<Rightarrow> 'f keyVal \<Rightarrow> bool" where
  "sound_value ks v \<longleftrightarrow> (bare_month ks \<longrightarrow> kv_valid v)"

definition num0 :: "'f \<Rightarrow> 'f keyVal \<Rightarrow> 'f" where
  "num0 z a = (if kv_valid a then kv_num a else z)"

definition text0 :: "bool \<Rightarrow> 'f keyVal \<Rightarrow> string" where
  "text0 n a = (if n \<and> kv_valid a then [] else kv_key a)"

definition cmp_up :: "'f \<Rightarrow> keySpec \<Rightarrow> 'f::linorder keyVal \<Rightarrow> 'f keyVal \<Rightarrow> int" where
  "cmp_up z ks a b =
     (if human ks then compareHuman (kv_human a) (kv_human b)
      else if numeric ks then
        lex (cmpFloat (kv_valid a) (kv_valid b)) (lex (cmpFloat (num0 z a) (num0 z b)) (cmp_str (text0 True a) (text0 True b)))
      else if month ks then cmpFloat (kv_num a) (kv_num b)
      else cmp_str (kv_key a) (kv_key b))"

lemma comparison_up: "comparison (cmp_up z ks) ok"
proof -
  consider "human ks" | "\<not> human ks" "numeric ks" | "\<not> human ks" "\<not> numeric ks" "month ks"
    | "\<not> human ks" "\<not> numeric ks" "\<not> month ks" by blast
  then show ?thesis by cases (simp_all add: cmp_up_def [abs_def] comparisons comparison_on [OF comparison_human TrueI])
qed

lemma cmp_key_up:
  "sound_value ks a \<Longrightarrow> sound_value ks b \<Longrightarrow>
   cmp_key ks a b = (if reverse ks then - cmp_up z ks a b else cmp_up z ks a b)"
  using str_less_linear [of "kv_key a" "kv_key b"]
  by (auto simp: cmp_key_def cmp_up_def sound_value_def bare_month_def key_less_def lex_def cmpFloat_def cmp_str_def num0_def
    text0_def Let_def dest: str_less_asym)

lemma comparison_key: "comparison (cmp_key ks) (sound_value ks)"
  by (rule comparison_cong [OF _ cmp_key_up [where z = undefined]])
    (cases "reverse ks", simp_all add: comparison_up comparison_neg)

lemma comparison_keys: "comparison (cmp_keys kss :: 'f::linorder keyVal list \<Rightarrow> _) (list_all2 sound_value kss)"
proof (induction kss)
  case (Cons ks kss)
  let ?ok = "list_all2 sound_value (ks # kss) :: 'f keyVal list \<Rightarrow> bool"
  have "comparison (\<lambda>as bs. cmp_key ks (hd as) (hd bs)) ?ok"
    by (rule comparison_on [OF comparison_key]) (auto simp: list_all2_Cons1)
  moreover have "comparison (\<lambda>as bs. cmp_keys kss (tl as) (tl bs)) ?ok"
    by (rule comparison_on [OF Cons]) (auto simp: list_all2_Cons1)
  ultimately show ?case by (rule comparison_cong [OF comparison_lex]) (auto simp: list_all2_Cons1 lex_def Let_def)
qed (rule comparison_cong [OF comparison_zero], simp)

definition sound_item :: "keySpec list \<Rightarrow> 'f lineItem \<Rightarrow> bool" where
  "sound_item kss i = list_all2 sound_value kss (item_keys i)"

lemma comparison_items: "comparison (cmp_items kss stab tieReverse) (sound_item kss)"
proof -
  have "comparison (\<lambda>a b. cmp_keys kss (item_keys a) (item_keys b)) (sound_item kss)"
    by (rule comparison_on [OF comparison_keys]) (simp add: sound_item_def)
  moreover have "comparison (\<lambda>a b. if stab then 0 else if tieReverse then - cmp_str (original a) (original b)
      else cmp_str (original a) (original b)) (sound_item kss)"
    by (cases stab; cases tieReverse) (simp_all add: comparisons comparison_neg)
  ultimately show ?thesis by (rule comparison_cong [OF comparison_lex]) (simp add: cmp_items_def lex_def Let_def)
qed

interpretation sort_items: comparison "cmp_items kss stab tieReverse" "sound_item kss" for kss stab tieReverse
  by (rule comparison_items)

section \<open>From the input to the sorted lines\<close>

lemma those_map: "those (map f xs) = Some ys \<longleftrightarrow> list_all2 (\<lambda>x y. f x = Some y) xs ys"
  by (induction xs arbitrary: ys) (auto simp: list_all2_Cons1 split: option.splits)

definition key_list :: "keySpec list \<Rightarrow> keySpec list" where
  "key_list kss = (if kss = [] then [zero_key] else kss)"

lemma sort_Run_list:
  "sort_Run items kss unique stab tieReverse =
     (let sorted = SortStableFunc (cmp_items (key_list kss) stab tieReverse) items
      in if unique then unique_items None sorted else map original sorted)"
  by (simp add: sort_Run_def key_list_def)

lemma parse_item_sound:
  assumes "parse_item uni F kss delimiter text = Some i" and "\<forall>ks \<in> set kss. \<not> bare_month ks"
  shows "sound_item (key_list kss) i" "original i = text"
proof -
  show "sound_item (key_list kss) i"
  proof (cases "kss = []")
    case True
    then show ?thesis using assms(1)
      by (auto simp: parse_item_def sound_item_def key_list_def sound_value_def bare_month_def zero_key_def)
  next
    case False
    then obtain kvs where k: "list_all2 (\<lambda>ks v. map_option (key_value uni F ks) (extractKey text ks delimiter) = Some v) kss kvs"
      and i: "item_keys i = kvs" using assms(1) by (auto simp: parse_item_def those_map)
    have "list_all2 sound_value kss kvs"
      using k by (rule list.rel_mono_strong) (use assms(2) in \<open>auto simp: sound_value_def\<close>)
    then show ?thesis using False i by (simp add: sound_item_def key_list_def)
  qed
  show "original i = text" using assms(1) by (auto simp: parse_item_def split: if_splits)
qed

lemma parse_readers_Cons:
  "parse_readers parse (r # rs) = Some (Inr items) \<longleftrightarrow>
   (\<exists>is1 is2. parse r = Some (Inr is1) \<and> parse_readers parse rs = Some (Inr is2) \<and> items = is1 @ is2)"
proof (cases "parse r")
  case (Some x)
  show ?thesis
  proof (cases "parse_readers parse rs")
    case (Some y)
    then show ?thesis using \<open>parse r = Some x\<close> by (cases x; cases y) auto
  qed (use Some in \<open>cases x; simp\<close>)
qed simp

lemma parse_readers_items:
  assumes "parse_readers (parseLines uni F kss delimiter z) readers = Some (Inr items)"
  shows "list_all2 (\<lambda>t i. parse_item uni F kss delimiter t = Some i) (concat (map (fst \<circ> sort_scan z) readers)) items"
  using assms
proof (induction readers arbitrary: items)
  case (Cons r rs)
  then obtain is1 is2 where "parseLines uni F kss delimiter z r = Some (Inr is1)"
    and rest: "parse_readers (parseLines uni F kss delimiter z) rs = Some (Inr is2)" and items: "items = is1 @ is2"
    unfolding parse_readers_Cons by blast
  then have "list_all2 (\<lambda>t i. parse_item uni F kss delimiter t = Some i) (fst (sort_scan z r)) is1"
    by (auto simp: parseLines_def those_map split: prod.splits if_splits)
  then show ?case using Cons.IH [OF rest] items by (simp add: list_all2_appendI)
qed simp

lemma readers_sound:
  assumes "parse_readers (parseLines uni F kss delimiter z) readers = Some (Inr items)" and "\<forall>ks \<in> set kss. \<not> bare_month ks"
  shows "\<forall>i \<in> set items. sound_item (key_list kss) i"
    and "map original items = concat (map (fst \<circ> sort_scan z) readers)"
proof -
  note l = parse_readers_items [OF assms(1)]
  show "\<forall>i \<in> set items. sound_item (key_list kss) i"
  proof
    fix i assume "i \<in> set items"
    then obtain t where "parse_item uni F kss delimiter t = Some i"
      using l by (auto simp: list_all2_conv_all_nth in_set_conv_nth)
    then show "sound_item (key_list kss) i" using assms(2) by (rule parse_item_sound)
  qed
  show "map original items = concat (map (fst \<circ> sort_scan z) readers)"
    using l by (induction rule: list_all2_induct) (simp_all add: parse_item_sound(2) [OF _ assms(2)])
qed

text \<open>Plain lines are compared as bytes, with \<^verbatim>\<open>-r\<close> the other way round.\<close>

definition plain_key :: "bool \<Rightarrow> keySpec list" where
  "plain_key rv = (if rv then [zero_key\<lparr>reverse := True\<rparr>] else [])"

definition plain_item :: "'f floats \<Rightarrow> string \<Rightarrow> 'f lineItem" where
  "plain_item F t = \<lparr>original = t, item_keys = [key_value id F zero_key t]\<rparr>"

lemma parse_plain: "parse_item uni F (plain_key rv) delimiter t = Some (plain_item F t)"
  by (simp add: parse_item_def plain_key_def plain_item_def key_value_def zero_key_def extractKey_def Let_def)

lemma those_Some: "those (map (\<lambda>t. Some (f t)) ts) = Some (map f ts)"
  by (induction ts) auto

lemma parse_readers_plain:
  "\<forall>r \<in> set readers. snd (sort_scan z r) \<Longrightarrow>
   parse_readers (parseLines uni F (plain_key rv) delimiter z) readers =
     Some (Inr (map (plain_item F) (concat (map (fst \<circ> sort_scan z) readers))))"
proof (induction readers)
  case (Cons r rs)
  have "parseLines uni F (plain_key rv) delimiter z r = Some (Inr (map (plain_item F) (fst (sort_scan z r))))"
    using Cons.prems by (simp add: parseLines_def parse_plain [abs_def] those_Some case_prod_beta)
  then show ?case using Cons by simp
qed simp

definition line_order :: "bool \<Rightarrow> string \<Rightarrow> string \<Rightarrow> bool" where
  "line_order rv a b = (if rv then str_less b a else str_less a b)"

lemma cmp_plain:
  "cmp_items (key_list (plain_key rv)) stab False (plain_item F a) (plain_item F b) \<le> 0 \<longleftrightarrow> \<not> line_order rv b a"
  using str_less_linear [of a b]
  by (auto simp: cmp_items_def key_list_def plain_key_def plain_item_def key_value_def cmp_key_def key_less_def zero_key_def
    cmp_str_def line_order_def Let_def dest: str_less_asym)

lemma plain_item_simps: "map kv_key (item_keys (plain_item F t)) = [t]" "original (plain_item F t) = t"
  by (simp_all add: plain_item_def key_value_def zero_key_def Let_def)

lemma unique_after: "unique_items (Some [p]) (map (plain_item F) ts) = tl (remdups_adj (p # ts))"
proof (induction ts arbitrary: p)
  case (Cons t ts)
  show ?case
  proof (cases "p = t")
    case True
    then show ?thesis using Cons.IH [of t] by (simp add: plain_item_simps Let_def del: remdups_adj.simps(3)) simp
  next
    case False
    have "remdups_adj (t # ts) = t # tl (remdups_adj (t # ts))"
      by (metis hd_remdups_adj list.collapse list.distinct(1) list.sel(1) remdups_adj_Nil_iff)
    then show ?thesis using Cons.IH [of t] False by (simp add: plain_item_simps Let_def)
  qed
qed simp

lemma unique_plain: "unique_items None (map (plain_item F) ts) = remdups_adj ts"
proof (cases ts)
  case (Cons t us)
  have "remdups_adj (t # us) = t # tl (remdups_adj (t # us))"
    by (metis hd_remdups_adj list.collapse list.distinct(1) list.sel(1) remdups_adj_Nil_iff)
  then show ?thesis using Cons unique_after [of t F us] by (simp add: plain_item_simps Let_def)
qed simp

lemma sorted_remdups:
  assumes "sorted_wrt (\<lambda>a b. \<not> line_order rv b a) ts"
  shows "sorted_wrt (line_order rv) (remdups_adj ts)"
  using assms
proof (induction ts rule: remdups_adj.induct)
  case (3 x y ts)
  have tr: "line_order rv x c" if "line_order rv x y" "\<not> line_order rv c y" for c
  proof (rule ccontr)
    assume "\<not> line_order rv x c"
    then have "\<not> line_order rv x y"
      using that(2) str_le_trans [of c x y] str_le_trans [of c y x] by (cases rv) (simp_all add: line_order_def)
    then show False using that(1) by contradiction
  qed
  show ?case
  proof (cases "x = y")
    case False
    then have "line_order rv x y" using 3(3) str_less_linear [of x y] by (auto simp: line_order_def split: if_splits)
    then show ?thesis using 3 False tr by auto
  qed (use 3 in simp)
qed simp_all

lemma sort_println: "sort_output False ls = println_all ls"
  by (induction ls rule: induct_list012) (simp_all add: sort_output_def println_all_def Let_def)

section \<open>Properties\<close>

text \<open>C6. \<^verbatim>\<open>sort\<close> sorts by its keys, for every list of key specifications in which \<^verbatim>\<open>-M\<close> does not stand alone: the
  lines that come out are a permutation of the lines of all inputs, ordered by the keys, the reversals and the last
  resort, and lines that compare equal keep the order they had in the input.  So with \<^verbatim>\<open>-s\<close> a sort by one key keeps
  the order of an earlier sort by another.\<close>

theorem sort_correct:
  assumes "parse_readers (parseLines uni F kss delimiter z) readers = Some (Inr items)" and "\<forall>ks \<in> set kss. \<not> bare_month ks"
  shows "\<exists>out. sort_Run items kss False stab tieReverse = map original out
    \<and> mset (map original out) = mset (concat (map (fst \<circ> sort_scan z) readers))
    \<and> sorted_wrt (\<lambda>a b. cmp_items (key_list kss) stab tieReverse a b \<le> 0) out
    \<and> (\<forall>i \<in> set items. filter (\<lambda>j. cmp_items (key_list kss) stab tieReverse i j = 0) out
        = filter (\<lambda>j. cmp_items (key_list kss) stab tieReverse i j = 0) items)"
proof -
  let ?cmp = "cmp_items (key_list kss) stab tieReverse"
  note s = readers_sound [OF assms]
  have "mset (map original (SortStableFunc ?cmp items)) = mset (map original items)"
    using sort_mset [of ?cmp items] by (metis mset_map)
  then show ?thesis using sort_items.sort_sorted [OF s(1)] sort_items.sort_stable [OF s(1)] s
    by (intro exI [of _ "SortStableFunc ?cmp items"]) (simp add: sort_Run_list Let_def)
qed

text \<open>C28. Without a key option \<^verbatim>\<open>sort\<close> writes the lines of its operands in the order of their bytes, or in the reverse order
  with \<^verbatim>\<open>-r\<close>, each as often as it occurs; with \<^verbatim>\<open>-u\<close> it writes every line once, in strictly increasing or decreasing order.\<close>

theorem sort_lines:
  assumes "ParseFlags args sort_spec = Inr flags" and "operands fs stdin (Positional flags) = Inr readers"
    and "\<forall>r \<in> set readers. snd (sort_scan False r)" and "\<forall>f \<in> {''n'', ''h'', ''M'', ''z'', ''json''}. \<not> Has flags f"
    and "GetAll flags ''k'' = []" and "Get flags ''o'' = []"
  shows "\<exists>ls. sortRun uni F fs create stdin args = Some (0, println_all ls, [], None)
    \<and> (let input = concat (map (fst \<circ> sort_scan False) readers); before = line_order (Has flags ''r'')
       in if Has flags ''u'' then set ls = set input \<and> sorted_wrt before ls
          else mset ls = mset input \<and> sorted_wrt (\<lambda>a b. \<not> before b a) ls)"
proof -
  let ?input = "concat (map (fst \<circ> sort_scan False) readers)" and ?rv = "Has flags ''r''" and ?stab = "Has flags ''s''"
  let ?cmp = "cmp_items (key_list (plain_key ?rv)) ?stab False" and ?items = "map (plain_item F) ?input"
  define out where "out = SortStableFunc ?cmp ?items"
  define ls where "ls = map original out"
  have keys: "sort_keys flags = (plain_key ?rv, False)"
    using assms(4,5) by (simp add: sort_keys_def plain_key_def zero_key_def Let_def)
  note parsed = parse_readers_plain [OF assms(3), of uni F ?rv "Get flags ''t''"]
  have nb: "\<forall>ks \<in> set (plain_key ?rv). \<not> bare_month ks" by (simp add: plain_key_def bare_month_def zero_key_def)
  have "set out = set ?items" unfolding out_def by (rule sort_set)
  then have o: "out = map (plain_item F) ls"
    unfolding ls_def by (auto simp: plain_item_simps intro!: map_idI [symmetric])
  have "sorted_wrt (\<lambda>a b. ?cmp a b \<le> 0) out"
    unfolding out_def by (rule sort_items.sort_sorted [OF readers_sound(1) [OF parsed nb]])
  then have sorted: "sorted_wrt (\<lambda>a b. \<not> line_order ?rv b a) ls" unfolding o by (simp add: sorted_wrt_map cmp_plain)
  have "mset ls = mset (map original ?items)" unfolding ls_def out_def using sort_mset by (metis mset_map)
  then have m: "mset ls = mset ?input" by (simp add: plain_item_simps comp_def)
  have run: "sort_Run ?items (plain_key ?rv) u ?stab False = (if u then remdups_adj ls else ls)" for u
    by (simp add: sort_Run_list Let_def flip: out_def) (simp add: o unique_plain plain_item_simps comp_def)
  have "sortRun uni F fs create stdin args = Some (0, println_all (if Has flags ''u'' then remdups_adj ls else ls), [], None)"
    using assms keys parsed by (simp add: sortRun_def sort_println run)
  then show ?thesis using m sorted sorted_remdups [OF sorted] mset_eq_setD [OF m]
    by (intro exI [of _ "if Has flags ''u'' then remdups_adj ls else ls"]) (simp add: Let_def)
qed

section \<open>Concrete inputs\<close>

definition demo_floats :: "int floats" where
  "demo_floats = \<lparr>ParseFloat = ParseInt, float_int = id\<rparr>"

definition demo_text :: string where
  "demo_text = ''b 10'' @ [NL] @ ''a 9'' @ [NL]"

lemma demo_scan: "sort_scan False demo_text = ([''b 10'', ''a 9''], True)"
proof -
  have "text_lines demo_text = [''b 10'', ''a 9'']" by code_simp
  moreover have "take sort_input demo_text = demo_text" by (simp add: sort_input_def demo_text_def)
  ultimately show ?thesis by (simp add: sort_scan_def sort_buffer_def drop_cr_def Let_def)
qed

lemma demo_items:
  "map (parse_item id demo_floats [parseKeySpec ''2n'' False False False] '' '') [''b 10'', ''a 9''] =
   [Some \<lparr>original = ''b 10'', item_keys = [\<lparr>kv_key = ''10'', kv_num = 10, kv_valid = True,
       kv_human = \<lparr>hv_num = 0, hasSuffix = False, suffixRk = 0, hv_orig = []\<rparr>\<rparr>]\<rparr>,
    Some \<lparr>original = ''a 9'', item_keys = [\<lparr>kv_key = ''9'', kv_num = 9, kv_valid = True,
       kv_human = \<lparr>hv_num = 0, hasSuffix = False, suffixRk = 0, hv_orig = []\<rparr>\<rparr>]\<rparr>]"
  by code_simp

theorem sort_correct_witness:
  "\<exists>items. parse_readers (parseLines id demo_floats [parseKeySpec ''2n'' False False False] '' '' False) [demo_text] = Some (Inr items)
     \<and> mset (sort_Run items [parseKeySpec ''2n'' False False False] False True False) = mset [''b 10'', ''a 9'']"
proof -
  obtain items where p: "parse_readers (parseLines id demo_floats [parseKeySpec ''2n'' False False False] '' '' False) [demo_text]
      = Some (Inr items)"
    using demo_items by (simp add: parseLines_def demo_scan)
  have b: "\<forall>ks \<in> set [parseKeySpec ''2n'' False False False]. \<not> bare_month ks" by code_simp
  obtain out :: "int lineItem list" where "sort_Run items [parseKeySpec ''2n'' False False False] False True False = map original out"
    "mset (map original out) = mset (concat (map (fst \<circ> sort_scan False) [demo_text]))"
    using sort_correct [OF p b, of True False] by blast
  then show ?thesis using p by (intro exI [of _ items]) (simp add: demo_scan)
qed

lemma demo_sort_flags:
  "\<exists>flags. ParseFlags [''-u''] sort_spec = Inr flags \<and> Positional flags = [] \<and> Has flags ''u'' \<and> GetAll flags ''k'' = []
     \<and> Get flags ''o'' = [] \<and> (\<forall>f \<in> {''n'', ''h'', ''M'', ''z'', ''json'', ''r''}. \<not> Has flags f)"
  by (simp add: ParseFlags_def parse_loop_unfold sort_spec_def demo_simps newParseResult_def parseShort_def record_bool_def mark_bool_def Has_def Get_def GetAll_def)

theorem sort_lines_witness:
  "\<exists>ls. sortRun id demo_floats (\<lambda>p. Inl []) (\<lambda>p. None) demo_text [''-u''] = Some (0, println_all ls, [], None)
     \<and> set ls = {''b 10'', ''a 9''} \<and> sorted_wrt (line_order False) ls"
proof -
  obtain flags where f: "ParseFlags [''-u''] sort_spec = Inr flags" "Positional flags = []" "Has flags ''u''" "GetAll flags ''k'' = []"
    "Get flags ''o'' = []" "\<forall>f \<in> {''n'', ''h'', ''M'', ''z'', ''json'', ''r''}. \<not> Has flags f"
    using demo_sort_flags by blast
  have "operands (\<lambda>p. Inl []) demo_text (Positional flags) = Inr [demo_text]" using f(2) by (simp add: operands_def)
  then show ?thesis using sort_lines [OF f(1), of "\<lambda>p. Inl []" demo_text "[demo_text]" id demo_floats "\<lambda>p. None"] f demo_scan
    by (simp add: Let_def)
qed

text \<open>Where the keys do not mean what their options say: a flag before the comma is lost, the comparison of \<^verbatim>\<open>-M\<close> has a cycle as
  soon as a line is no month, a start after the end panics, and \<^verbatim>\<open>-u\<close> keeps numbers that are equal but written differently.\<close>

lemma sort_flag_lost: "numeric (parseKeySpec ''2n,2'' False False False) = False" "endField (parseKeySpec ''2n,2'' False False False) = 1"
  by code_simp+

lemma ToLower_word:
  assumes "runes s = map code s" and "\<forall>c \<in> set s. 97 \<le> code c \<and> code c < 128"
  shows "ToLower uni s = s"
proof -
  have "concat (map (\<lambda>c. encodeRune (code c)) s) = s" using assms(2) by (induction s) (simp_all add: encodeRune_ascii)
  moreover have "map (\<lambda>r. if r < 128 then ascii_lower r else uni r) (map code s) = map code s"
    using assms(2) by (induction s) (auto simp: ascii_lower_def)
  ultimately show ?thesis by (simp only: ToLower_def of_runes_def assms(1) map_map comp_def)
qed

lemma demo_months:
  "sort_parseMonth id ''jan'' = Some 1" "sort_parseMonth id ''feb'' = Some 2" "sort_parseMonth id ''foo'' = None"
proof -
  have r: "runes ''jan'' = map code ''jan''" "runes ''feb'' = map code ''feb''" "runes ''foo'' = map code ''foo''" by code_simp+
  have l: "ToLower id ''jan'' = ''jan''" "ToLower id ''feb'' = ''feb''" "ToLower id ''foo'' = ''foo''"
    by (rule ToLower_word [OF r(1)] ToLower_word [OF r(2)] ToLower_word [OF r(3)]; simp add: code_def)+
  have t: "TrimSpace ''jan'' = ''jan''" "TrimSpace ''feb'' = ''feb''" "TrimSpace ''foo'' = ''foo''"
    by (rule TrimSpace_id; simp add: ascii_def code_def isSpaceRune_def)+
  show "sort_parseMonth id ''jan'' = Some 1" "sort_parseMonth id ''feb'' = Some 2" "sort_parseMonth id ''foo'' = None"
    by (simp_all add: sort_parseMonth_def t l monthOrder_def)
qed

lemma demo_str_less: "str_less ''feb'' ''foo''" "str_less ''foo'' ''jan''"
  by code_simp+

lemma sort_month_cycle:
  "(let ks = zero_key\<lparr>month := True\<rparr>; v = key_value id demo_floats ks
    in cmp_key ks (v ''jan'') (v ''feb'') < 0 \<and> cmp_key ks (v ''feb'') (v ''foo'') < 0 \<and> cmp_key ks (v ''foo'') (v ''jan'') < 0)"
  by (simp add: cmp_key_def key_less_def key_value_def zero_key_def demo_months demo_str_less demo_floats_def code_def Let_def)

lemma sort_key_panics: "extractKey ''abcdefgh'' (parseKeySpec ''1.5,1.2'' False False False) '' '' = None"
  by code_simp

lemma sort_unique_numbers:
  "(let ks = zero_key\<lparr>numeric := True\<rparr>; i = (\<lambda>t. \<lparr>original = t, item_keys = [key_value id demo_floats ks t]\<rparr>)
    in cmp_key ks (key_value id demo_floats ks ''1'') (key_value id demo_floats ks ''01'') = 0
       \<and> sort_Run [i ''1'', i ''01''] [ks] True False False = [''01'', ''1''])"
  by code_simp

end
