(* ===== verification/Diff.thy ===== *)
theory Diff
  imports Cli Paths "HOL-Library.Monad_Syntax"
begin

text \<open>
  The utility \<^verbatim>\<open>diff\<close>: \<^verbatim>\<open>pkg/diff/diff.go\<close>.  \<^verbatim>\<open>Diff\<close> is the greedy search for a shortest edit script.  Its array of furthest
  points is a list of integers that is read and written with bounds checks; an index out of range is a panic, the value
  \<^const>\<open>None\<close>.  The script is built by putting each item in front, where the code appends and reverses at the end.
\<close>

section \<open>The edit script\<close>

datatype diffOp = opEq | opDel | opIns | opIgnoredDel | opIgnoredIns

record diffItem =
  di_op :: diffOp
  di_text :: string

definition item :: "diffOp \<Rightarrow> string \<Rightarrow> diffItem" where
  "item p t = \<lparr>di_op = p, di_text = t\<rparr>"

definition look :: "'a list \<Rightarrow> int \<Rightarrow> 'a option" where
  "look v i = (if 0 \<le> i \<and> i < int (length v) then Some (v ! nat i) else None)"

definition store :: "'a list \<Rightarrow> int \<Rightarrow> 'a \<Rightarrow> 'a list option" where
  "store v i x = (if 0 \<le> i \<and> i < int (length v) then Some (v[nat i := x]) else None)"

text \<open>Whether the point on diagonal \<open>k\<close> is reached by an insertion, from diagonal \<open>k + 1\<close>.\<close>

definition down :: "int list \<Rightarrow> int \<Rightarrow> int \<Rightarrow> int \<Rightarrow> bool option" where
  "down v maxD d k =
     (if k = - d then Some True
      else if k = d then Some False
      else do { l \<leftarrow> look v (maxD + k - 1); r \<leftarrow> look v (maxD + k + 1); Some (l < r) })"

function snake :: "string list \<Rightarrow> string list \<Rightarrow> int \<Rightarrow> int \<Rightarrow> (int \<times> int) option" where
  "snake a b x y =
     (if x < int (length a) \<and> y < int (length b) then
        do { s \<leftarrow> look a x; t \<leftarrow> look b y; if s = t then snake a b (x + 1) (y + 1) else Some (x, y) }
      else Some (x, y))"
  by pat_completeness auto
termination by (relation "measure (\<lambda>(a, b, x, y). nat (int (length a) - x))") auto

declare snake.simps [simp del]

text \<open>The loop over the diagonals of one distance; the flag says that the end of both files was reached.\<close>

function inner :: "string list \<Rightarrow> string list \<Rightarrow> int \<Rightarrow> int \<Rightarrow> int \<Rightarrow> int list \<Rightarrow> (bool \<times> int list) option" where
  "inner a b maxD d k v =
     (if k > d then Some (False, v)
      else do {
        dn \<leftarrow> down v maxD d k;
        x0 \<leftarrow> (if dn then look v (maxD + k + 1) else map_option (\<lambda>l. l + 1) (look v (maxD + k - 1)));
        (x, y) \<leftarrow> snake a b x0 (x0 - k);
        v' \<leftarrow> store v (maxD + k) x;
        if x \<ge> int (length a) \<and> y \<ge> int (length b) then Some (True, v') else inner a b maxD d (k + 2) v'
      })"
  by pat_completeness auto
termination by (relation "measure (\<lambda>(a, b, maxD, d, k, v). nat (d - k + 1))") auto

declare inner.simps [simp del]

function outer :: "string list \<Rightarrow> string list \<Rightarrow> int \<Rightarrow> int \<Rightarrow> int list \<Rightarrow> int list list \<Rightarrow> (int \<times> int list list) option" where
  "outer a b maxD d v trace =
     (if d > maxD then Some (d, trace)
      else do {
        (stop, v') \<leftarrow> inner a b maxD d (- d) v;
        if stop then Some (d, trace @ [v']) else outer a b maxD (d + 1) v' (trace @ [v'])
      })"
  by pat_completeness auto
termination by (relation "measure (\<lambda>(a, b, maxD, d, v, trace). nat (maxD - d + 1))") auto

declare outer.simps [simp del]

text \<open>Back from the end: the run of equal lines down to \<open>startX\<close>, then one edit, for every distance.\<close>

function eq_run :: "string list \<Rightarrow> int \<Rightarrow> int \<Rightarrow> int \<Rightarrow> diffItem list \<Rightarrow> (int \<times> int \<times> diffItem list) option" where
  "eq_run a startX x y script =
     (if x > startX then do { t \<leftarrow> look a (x - 1); eq_run a startX (x - 1) (y - 1) (item opEq t # script) }
      else Some (x, y, script))"
  by pat_completeness auto
termination by (relation "measure (\<lambda>(a, startX, x, y, script). nat (x - startX))") auto

declare eq_run.simps [simp del]

function eq_rest :: "string list \<Rightarrow> int \<Rightarrow> int \<Rightarrow> diffItem list \<Rightarrow> diffItem list option" where
  "eq_rest a x y script =
     (if x > 0 \<and> y > 0 then do { t \<leftarrow> look a (x - 1); eq_rest a (x - 1) (y - 1) (item opEq t # script) }
      else Some script)"
  by pat_completeness auto
termination by (relation "measure (\<lambda>(a, x, y, script). nat x)") auto

declare eq_rest.simps [simp del]

function backtrack ::
  "string list \<Rightarrow> string list \<Rightarrow> int list list \<Rightarrow> int \<Rightarrow> int \<Rightarrow> int \<Rightarrow> int \<Rightarrow> diffItem list \<Rightarrow> diffItem list option" where
  "backtrack a b trace maxD d x y script =
     (if d > 0 then do {
        v \<leftarrow> look trace (d - 1);
        dn \<leftarrow> down v maxD d (x - y);
        prevX \<leftarrow> look v (maxD + (if dn then x - y + 1 else x - y - 1));
        (x1, y1, script1) \<leftarrow> eq_run a (if dn then prevX else prevX + 1) x y script;
        if dn then do { t \<leftarrow> look b (y1 - 1); backtrack a b trace maxD (d - 1) x1 (y1 - 1) (item opIns t # script1) }
        else do { t \<leftarrow> look a (x1 - 1); backtrack a b trace maxD (d - 1) (x1 - 1) y1 (item opDel t # script1) }
      }
      else eq_rest a x y script)"
  by pat_completeness auto
termination by (relation "measure (\<lambda>(a, b, trace, maxD, d, x, y, script). nat d)") auto

declare backtrack.simps [simp del]

definition Diff :: "string list \<Rightarrow> string list \<Rightarrow> diffItem list option" where
  "Diff a b =
     (let n = int (length a); m = int (length b); maxD = n + m
      in if maxD = 0 then Some []
         else do {
           (d, trace) \<leftarrow> outer a b maxD 0 (replicate (nat (2 * maxD + 1)) 0) [];
           backtrack a b trace maxD d n m []
         })"

section \<open>Lines that count as equal\<close>

definition is_diff_space :: "char \<Rightarrow> bool" where
  "is_diff_space c \<longleftrightarrow> c = CHR '' '' \<or> c = CHR 0x09 \<or> c = CHR 0x0D \<or> c = NL"

fun squeeze_ws :: "bool \<Rightarrow> string \<Rightarrow> string" where
  "squeeze_ws inSpace [] = []"
| "squeeze_ws inSpace (c # l) =
     (if is_diff_space c then (if inSpace then squeeze_ws True l else CHR '' '' # squeeze_ws True l)
      else c # squeeze_ws False l)"

definition normalizeSpace :: "string list \<Rightarrow> string list" where
  "normalizeSpace = map (\<lambda>l. squeeze_ws False (rev (dropWhile is_diff_space (rev l))))"

definition stripAllSpace :: "string list \<Rightarrow> string list" where
  "stripAllSpace = map (filter (\<lambda>c. \<not> is_diff_space c))"

definition changed :: "diffItem \<Rightarrow> bool" where
  "changed i \<longleftrightarrow> di_op i = opDel \<or> di_op i = opIns"

definition ignore_item :: "diffItem \<Rightarrow> diffItem" where
  "ignore_item i = i\<lparr>di_op := (if di_op i = opDel then opIgnoredDel else opIgnoredIns)\<rparr>"

function filterBlankLineChanges :: "diffItem list \<Rightarrow> diffItem list" where
  "filterBlankLineChanges [] = []"
| "filterBlankLineChanges (i # is) =
     (if changed i then
        (let block = takeWhile changed (i # is);
             allBlank = list_all (\<lambda>j. TrimSpace (di_text j) = []) block
         in (if allBlank then map ignore_item block else block) @ filterBlankLineChanges (dropWhile changed (i # is)))
      else i # filterBlankLineChanges is)"
  by pat_completeness auto
termination by (relation "measure length") (auto simp: le_imp_less_Suc length_dropWhile_le)

section \<open>Hunks\<close>

record Hunk =
  H_OldStart :: int
  H_OldLines :: int
  H_NewStart :: int
  H_NewLines :: int
  H_Lines :: "string list"

definition in_old :: "diffItem \<Rightarrow> bool" where
  "in_old i \<longleftrightarrow> di_op i \<in> {opEq, opDel, opIgnoredDel}"

definition in_new :: "diffItem \<Rightarrow> bool" where
  "in_new i \<longleftrightarrow> di_op i \<in> {opEq, opIns, opIgnoredIns}"

definition hunk_line :: "diffItem \<Rightarrow> string" where
  "hunk_line i =
     (case di_op i of opEq \<Rightarrow> CHR '' '' | opDel \<Rightarrow> CHR ''-'' | opIgnoredDel \<Rightarrow> CHR ''-'' | opIns \<Rightarrow> CHR ''+'' | opIgnoredIns \<Rightarrow> CHR ''+'')
       # di_text i"

definition mk_hunk :: "diffItem list \<Rightarrow> int \<Rightarrow> int \<Rightarrow> Hunk" where
  "mk_hunk script startIdx endIdx =
     (let before = take (nat startIdx) script; part = drop (nat startIdx) (take (nat endIdx) script)
      in \<lparr>H_OldStart = 1 + int (length (filter in_old before)), H_OldLines = int (length (filter in_old part)),
          H_NewStart = 1 + int (length (filter in_new before)), H_NewLines = int (length (filter in_new part)),
          H_Lines = map hunk_line part\<rparr>)"

text \<open>The end of the hunk: a run of more than twice the context without a change ends it.  Sums with the context wrap around.\<close>

function find_end :: "diffItem list \<Rightarrow> int \<Rightarrow> nat \<Rightarrow> int" where
  "find_end script context endIdx =
     (if endIdx < length script then
        (let eqStart = endIdx + length (takeWhile changed (drop endIdx script));
             eqCount = length (takeWhile (\<lambda>i. \<not> changed i) (drop eqStart script));
             nextDiff = eqStart + eqCount
         in if nextDiff \<ge> length script then
              (if int eqCount > context then wrap64 (int nextDiff - int eqCount + context) else int (length script))
            else if int eqCount > wrap64 (2 * context) then wrap64 (int eqStart + context)
            else find_end script context nextDiff)
      else int endIdx)"
  by pat_completeness auto
termination
proof (relation "measure (\<lambda>(script, context, endIdx). length script - endIdx)", simp, goal_cases)
  case (1 script ctx endIdx eqStart eqCount nextDiff)
  have "endIdx < nextDiff"
  proof (cases "changed (script ! endIdx)")
    case True
    then have "takeWhile changed (drop endIdx script) \<noteq> []" using 1(1) by (simp add: takeWhile_eq_Nil_iff hd_drop_conv_nth)
    then show ?thesis using 1(2,4) by simp
  next
    case False
    then have "takeWhile changed (drop endIdx script) = []" using 1(1) by (simp add: takeWhile_eq_Nil_iff hd_drop_conv_nth)
    then have "eqStart = endIdx" using 1(2) by simp
    moreover have "takeWhile (\<lambda>i. \<not> changed i) (drop endIdx script) \<noteq> []"
      using 1(1) False by (simp add: takeWhile_eq_Nil_iff hd_drop_conv_nth)
    ultimately show ?thesis using 1(3,4) by simp
  qed
  then show ?case using 1(1) by simp
qed

declare find_end.simps [simp del]

text \<open>\<^verbatim>\<open>BuildHunks\<close> from index \<open>i\<close> on; a negative index panics, and so does a start beyond the script, which only a negative context gives.\<close>

partial_function (option) hunks_from :: "diffItem list \<Rightarrow> int \<Rightarrow> int \<Rightarrow> Hunk list \<Rightarrow> Hunk list option" where
  "hunks_from script context i hunks =
     (if i < int (length script) then
        (if i < 0 then None
         else
           (let j = nat i + length (takeWhile (\<lambda>i. \<not> changed i) (drop (nat i) script))
            in if j \<ge> length script then Some hunks
               else
                 (let startIdx = max 0 (wrap64 (int j - context));
                      endIdx = min (find_end script context j) (int (length script))
                  in if startIdx > int (length script) then None
                     else hunks_from script context endIdx (hunks @ [mk_hunk script startIdx endIdx]))))
      else Some hunks)"

declare hunks_from.simps [code]

definition BuildHunks :: "diffItem list \<Rightarrow> int \<Rightarrow> Hunk list option" where
  "BuildHunks script context = hunks_from script context 0 []"

section \<open>Two files\<close>

text \<open>The items get the original lines back in place of the normalised ones.\<close>

fun retext :: "string list \<Rightarrow> string list \<Rightarrow> int \<Rightarrow> int \<Rightarrow> diffItem list \<Rightarrow> diffItem list option" where
  "retext lines1 lines2 x y [] = Some []"
| "retext lines1 lines2 x y (i # is) =
     (if di_op i = opEq then
        do { t \<leftarrow> look lines1 x; r \<leftarrow> retext lines1 lines2 (x + 1) (y + 1) is; Some (i\<lparr>di_text := t\<rparr> # r) }
      else if di_op i = opDel then
        do { t \<leftarrow> look lines1 x; r \<leftarrow> retext lines1 lines2 (x + 1) y is; Some (i\<lparr>di_text := t\<rparr> # r) }
      else if di_op i = opIns then
        do { t \<leftarrow> look lines2 y; r \<leftarrow> retext lines1 lines2 x (y + 1) is; Some (i\<lparr>di_text := t\<rparr> # r) }
      else do { r \<leftarrow> retext lines1 lines2 x y is; Some (i # r) })"

definition comp_lines :: "bool \<Rightarrow> bool \<Rightarrow> string list \<Rightarrow> string list" where
  "comp_lines ignoreSpace ignoreAllSpace = (if ignoreAllSpace then stripAllSpace else if ignoreSpace then normalizeSpace else id)"

definition GenerateDiff :: "string \<Rightarrow> string \<Rightarrow> int \<Rightarrow> bool \<Rightarrow> bool \<Rightarrow> bool \<Rightarrow> (bool \<times> Hunk list) option" where
  "GenerateDiff content1 content2 contextLines ignoreSpace ignoreAllSpace ignoreBlankLines =
     (let lines1 = text_lines content1; lines2 = text_lines content2; norm = comp_lines ignoreSpace ignoreAllSpace
      in do {
        raw \<leftarrow> Diff (norm lines1) (norm lines2);
        script \<leftarrow> retext lines1 lines2 0 0 raw;
        let script' = (if ignoreBlankLines then filterBlankLineChanges script else script);
        hunks \<leftarrow> BuildHunks script' contextLines;
        Some (list_ex changed script', hunks)
      })"

section \<open>The command\<close>

definition diff_spec :: FlagSpec where
  "diff_spec = mkSpec [mkFlag ''u'' ''unified'' FlagBool, mkFlag ''U'' ''unified-context'' FlagValue,
     mkFlag ''b'' ''ignore-space-change'' FlagBool, mkFlag ''w'' ''ignore-all-space'' FlagBool, mkFlag ''B'' ''ignore-blank-lines'' FlagBool,
     mkFlag ''q'' ''brief'' FlagBool, mkFlag ''r'' ''recursive'' FlagBool, mkFlag ''N'' ''new-file'' FlagBool, mkFlag [] ''json'' FlagBool]"

definition range_text :: "int \<Rightarrow> int \<Rightarrow> string" where
  "range_text start n =
     (if n = 1 then Itoa start else if n = 0 then Itoa (start - 1) @ '',0'' else Itoa start @ '','' @ Itoa n)"

definition no_newline :: string where
  "no_newline = [CHR 0x5C] @ '' No newline at end of file''"

definition hunk_text :: "bool \<Rightarrow> bool \<Rightarrow> Hunk \<Rightarrow> string" where
  "hunk_text newline1 newline2 h =
     (let ls = H_Lines h;
          marker = (ls \<noteq> [] \<and> last ls \<noteq> [] \<and>
            (hd (last ls) = CHR ''-'' \<and> \<not> newline1 \<or> hd (last ls) = CHR ''+'' \<and> \<not> newline2))
      in println_all ((''@@ -'' @ range_text (H_OldStart h) (H_OldLines h) @ '' +'' @ range_text (H_NewStart h) (H_NewLines h) @ '' @@'')
           # ls @ (if marker then [no_newline] else [])))"

definition unified_text :: "string \<Rightarrow> string \<Rightarrow> bool \<Rightarrow> bool \<Rightarrow> Hunk list \<Rightarrow> string" where
  "unified_text name1 name2 newline1 newline2 hunks =
     println_all [''--- '' @ name1, ''+++ '' @ name2] @ concat (map (hunk_text newline1 newline2) hunks)"

definition ends_line :: "string \<Rightarrow> bool" where
  "ends_line b \<longleftrightarrow> b = [] \<or> last b = NL"

definition Hunk_json :: "Hunk \<Rightarrow> json" where
  "Hunk_json h = JObj [(''oldStart'', JInt (H_OldStart h)), (''oldLines'', JInt (H_OldLines h)), (''newStart'', JInt (H_NewStart h)),
     (''newLines'', JInt (H_NewLines h)), (''lines'', nil_strings (H_Lines h))]"

definition DiffResult_json :: "string \<Rightarrow> string \<Rightarrow> bool \<Rightarrow> Hunk list \<Rightarrow> json" where
  "DiffResult_json f1 f2 differ hunks = JObj [(''files'', JArr [JStr f1, JStr f2]), (''differ'', JBool differ),
     (''hunks'', if hunks = [] then JNull else JArr (map Hunk_json hunks))]"

text \<open>The file system as \<^verbatim>\<open>diff\<close> sees it: reading, whether a path is a directory, the files below a directory by relative path
  with the paths of the walk, and whether a path is a regular file.\<close>

record difffs =
  df_read :: files
  df_isDir :: "string \<Rightarrow> bool option"
  df_walk :: "string \<Rightarrow> (string \<times> string) list"
  df_regular :: "string \<Rightarrow> bool option"

definition joinPreserving :: "string \<Rightarrow> string \<Rightarrow> string" where
  "joinPreserving dir rel = (if suffix [SL] dir then dir @ rel else dir @ [SL] @ rel)"

definition read_or_empty :: "files \<Rightarrow> string \<Rightarrow> string" where
  "read_or_empty fs p = (case fs p of Inl e \<Rightarrow> [] | Inr b \<Rightarrow> b)"

record diff_opts =
  o_context :: int
  o_space :: bool
  o_allSpace :: bool
  o_blank :: bool
  o_new :: bool

text \<open>One relative path of the recursive comparison: the text written and whether it sets the exit code.\<close>

definition diff_contents :: "diff_opts \<Rightarrow> string \<Rightarrow> string \<Rightarrow> string \<Rightarrow> string \<Rightarrow> (string \<times> bool) option" where
  "diff_contents opts name1 name2 b1 b2 =
     do {
       (differ, hunks) \<leftarrow> GenerateDiff b1 b2 (o_context opts) (o_space opts) (o_allSpace opts) (o_blank opts);
       Some (if differ then (unified_text name1 name2 (ends_line b1) (ends_line b2) hunks, True) else ([], False))
     }"

definition diff_path :: "difffs \<Rightarrow> diff_opts \<Rightarrow> string \<Rightarrow> string \<Rightarrow> string \<Rightarrow> (string \<times> bool) option" where
  "diff_path fs opts dir1 dir2 rel =
     (let name1 = joinPreserving dir1 rel; name2 = joinPreserving dir2 rel;
          skipped = (\<lambda>name. Some (''File '' @ name @ '' is not a regular file or directory and was skipped'' @ [NL], True));
          only = (\<lambda>dir. Some (''Only in '' @ dir @ '': '' @ rel @ [NL], True));
          special = (\<lambda>p. df_regular fs p = Some False)
      in case (map_of (df_walk fs dir1) rel, map_of (df_walk fs dir2) rel) of
           (Some p1, Some p2) \<Rightarrow>
             if special p1 then skipped name1
             else if special p2 then skipped name2
             else diff_contents opts name1 name2 (read_or_empty (df_read fs) p1) (read_or_empty (df_read fs) p2)
         | (Some p1, None) \<Rightarrow>
             if \<not> o_new opts then only dir1
             else if special p1 then skipped name1
             else diff_contents opts name1 name2 (read_or_empty (df_read fs) p1) []
         | (None, Some p2) \<Rightarrow>
             if \<not> o_new opts then only dir2
             else if special p2 then skipped name2
             else diff_contents opts name1 name2 [] (read_or_empty (df_read fs) p2)
         | (None, None) \<Rightarrow> Some ([], False))"

definition diffDirs :: "difffs \<Rightarrow> diff_opts \<Rightarrow> string \<Rightarrow> string \<Rightarrow> result option" where
  "diffDirs fs opts dir1 dir2 =
     (let rels = sort (remdups (map fst (df_walk fs dir1) @ map fst (df_walk fs dir2)))
      in do {
        parts \<leftarrow> those (map (diff_path fs opts dir1 dir2) rels);
        Some (if list_ex snd parts then 1 else 0, concat (map fst parts), [])
      })"

definition diff_context :: "ParseResult \<Rightarrow> int" where
  "diff_context flags =
     (if Has flags ''U'' then (case ParseInt (Get flags ''U'') of Some c \<Rightarrow> if c \<ge> 0 then c else 3 | None \<Rightarrow> 3) else 3)"

definition diff_run :: "difffs \<Rightarrow> string \<Rightarrow> string list \<Rightarrow> result option" where
  "diff_run fs osStdin args =
     (case ParseFlags args diff_spec of
        Inl e \<Rightarrow> Some (flag_failure ''diff'' args e 2)
      | Inr flags \<Rightarrow>
          (let jsonMode = Has flags ''json'';
               failed = (\<lambda>c e. Some (2, RenderError ''diff'' 2 c e jsonMode, if jsonMode then [] else ''diff: '' @ e @ [NL]));
               opts = \<lparr>o_context = diff_context flags, o_space = Has flags ''b'' \<or> Has flags ''w'', o_allSpace = Has flags ''w'',
                    o_blank = Has flags ''B'', o_new = Has flags ''N''\<rparr>
           in case Positional flags of
                [f1, f2] \<Rightarrow>
                  (let d1 = df_isDir fs f1; d2 = df_isDir fs f2; rec = Has flags ''r'';
                       g1 = (if rec \<and> d1 = Some True \<and> d2 = Some False then f1 @ [SL] @ Base f2 else f1);
                       g2 = (if rec \<and> d1 = Some False \<and> d2 = Some True then f2 @ [SL] @ Base f1 else f2)
                   in if rec \<and> d1 = Some True \<and> d2 = Some True then diffDirs fs opts f1 f2
                      else if g1 = g2 then Some (0, Render ''diff'' (DiffResult_json g1 g2 False []) jsonMode [], [])
                      else
                        (case (if g1 = ''-'' then Inr osStdin else df_read fs g1) of
                           Inl e \<Rightarrow> failed ''IO'' e
                         | Inr b1 \<Rightarrow>
                             (case (if g2 = ''-'' then Inr osStdin else df_read fs g2) of
                                Inl e \<Rightarrow> failed ''IO'' e
                              | Inr b2 \<Rightarrow> do {
                                  (differ, hunks) \<leftarrow> GenerateDiff b1 b2 (o_context opts) (o_space opts) (o_allSpace opts) (o_blank opts);
                                  let text = (if \<not> Has flags ''q'' \<and> (Has flags ''u'' \<or> Has flags ''U'')
                                    then unified_text g1 g2 (ends_line b1) (ends_line b2) hunks
                                    else ''Files '' @ g1 @ '' and '' @ g2 @ '' differ'' @ [NL]);
                                  Some (if differ then 1 else 0,
                                        Render ''diff'' (DiffResult_json g1 g2 differ hunks) jsonMode (if differ then text else []), [])
                                })))
              | _ \<Rightarrow> failed ''USAGE'' ''missing operand''))"

section \<open>Paths in the edit graph\<close>

text \<open>A path with \<open>d\<close> edits to a point.  As in the code it may leave the rectangle of the two files; only the steps along
  equal lines stay inside.\<close>

definition same_at :: "string list \<Rightarrow> string list \<Rightarrow> int \<Rightarrow> int \<Rightarrow> bool" where
  "same_at a b x y \<longleftrightarrow> 0 \<le> x \<and> x < int (length a) \<and> 0 \<le> y \<and> y < int (length b) \<and> a ! nat x = b ! nat y"

inductive path :: "string list \<Rightarrow> string list \<Rightarrow> nat \<Rightarrow> int \<Rightarrow> int \<Rightarrow> bool" for a b where
  start: "path a b 0 0 0"
| diag: "path a b d x y \<Longrightarrow> same_at a b x y \<Longrightarrow> path a b d (x + 1) (y + 1)"
| del: "path a b d x y \<Longrightarrow> path a b (Suc d) (x + 1) y"
| ins: "path a b d x y \<Longrightarrow> path a b (Suc d) x (y + 1)"

lemma path_range: "path a b d x y \<Longrightarrow> 0 \<le> x \<and> 0 \<le> y \<and> x - y \<le> int d \<and> - int d \<le> x - y \<and> even (x - y + int d)"
  by (induction rule: path.induct) auto

lemma path_all: "path a b (p + q) (int p) (int q)"
proof (induction p)
  case 0
  show ?case
  proof (induction q)
    case (Suc q)
    then show ?case using path.ins [OF Suc.IH] by (simp add: algebra_simps)
  qed (simp add: path.start)
next
  case (Suc p)
  then show ?case using path.del [OF Suc.IH] by (simp add: algebra_simps)
qed

text \<open>A path that leaves the rectangle is no better than the one that stays at its border.\<close>

lemma path_clamp:
  "path a b d x y \<Longrightarrow> \<exists>d'. path a b d' (min x (int (length a))) (min y (int (length b))) \<and>
     int d' + (x - min x (int (length a))) + (y - min y (int (length b))) \<le> int d"
proof (induction rule: path.induct)
  case start
  show ?case by (intro exI [of _ 0]) (simp add: path.start)
next
  case (diag d x y)
  then have r: "x < int (length a)" "y < int (length b)" by (simp_all add: same_at_def)
  then obtain d' where "path a b d' x y" "d' \<le> d" using diag.IH by auto
  then show ?case using r path.diag [OF _ diag.hyps(2)] by (intro exI [of _ d']) (auto simp: min_def)
next
  case (del d x y)
  then obtain d' where d': "path a b d' (min x (int (length a))) (min y (int (length b)))"
    "int d' + (x - min x (int (length a))) + (y - min y (int (length b))) \<le> int d" by blast
  show ?case
  proof (cases "x < int (length a)")
    case True
    then have m: "min x (int (length a)) = x" "min (x + 1) (int (length a)) = x + 1" by simp_all
    show ?thesis unfolding m(2) using d'(2) path.del [OF d'(1) [unfolded m(1)]] unfolding m(1) by (intro exI [of _ "Suc d'"]) simp
  next
    case False
    then have m: "min x (int (length a)) = int (length a)" "min (x + 1) (int (length a)) = int (length a)" by simp_all
    show ?thesis unfolding m(2) using d' unfolding m(1) by (intro exI [of _ d']) simp
  qed
next
  case (ins d x y)
  then obtain d' where d': "path a b d' (min x (int (length a))) (min y (int (length b)))"
    "int d' + (x - min x (int (length a))) + (y - min y (int (length b))) \<le> int d" by blast
  show ?case
  proof (cases "y < int (length b)")
    case True
    then have m: "min y (int (length b)) = y" "min (y + 1) (int (length b)) = y + 1" by simp_all
    show ?thesis unfolding m(2) using d'(2) path.ins [OF d'(1) [unfolded m(1)]] unfolding m(1) by (intro exI [of _ "Suc d'"]) simp
  next
    case False
    then have m: "min y (int (length b)) = int (length b)" "min (y + 1) (int (length b)) = int (length b)" by simp_all
    show ?thesis unfolding m(2) using d' unfolding m(1) by (intro exI [of _ d']) simp
  qed
qed

text \<open>The last edit of a path, and the equal lines after it.\<close>

definition run :: "string list \<Rightarrow> string list \<Rightarrow> int \<Rightarrow> int \<Rightarrow> int \<Rightarrow> bool" where
  "run a b k x x' \<longleftrightarrow> x \<le> x' \<and> (\<forall>i. x \<le> i \<and> i < x' \<longrightarrow> same_at a b i (i - k))"

lemma run_refl: "run a b k x x"
  by (auto simp: run_def)

lemma run_snoc: "run a b k x0 x \<Longrightarrow> same_at a b x (x - k) \<Longrightarrow> run a b k x0 (x + 1)"
  unfolding run_def by (metis add.commute add_increasing2 less_irrefl order.trans zle_add1_eq_le order_le_less zless_add1_eq)

lemma path_last_edit:
  "path a b d x y \<Longrightarrow> d > 0 \<Longrightarrow>
   \<exists>x0. run a b (x - y) x0 x \<and> (path a b (d - 1) (x0 - 1) (x0 - (x - y)) \<or> path a b (d - 1) x0 (x0 - (x - y) - 1))"
proof (induction rule: path.induct)
  case (diag d x y)
  then obtain x0 where x0: "run a b (x - y) x0 x"
    "path a b (d - 1) (x0 - 1) (x0 - (x - y)) \<or> path a b (d - 1) x0 (x0 - (x - y) - 1)" by blast
  have "same_at a b x (x - (x - y))" using diag.hyps(2) by simp
  then have "run a b (x - y) x0 (x + 1)" using x0(1) by (rule run_snoc [rotated])
  then show ?case using x0(2) by (intro exI [of _ x0]) simp
next
  case (del d x y)
  then show ?case by (intro exI [of _ "x + 1"]) (simp add: run_refl)
next
  case (ins d x y)
  then show ?case by (intro exI [of _ x]) (simp add: run_refl)
qed simp

lemma path_run: "run a b (x - y) x x' \<Longrightarrow> path a b d x y \<Longrightarrow> path a b d x' (x' - (x - y))"
proof (induction "nat (x' - x)" arbitrary: x y)
  case 0
  then show ?case by (simp add: run_def)
next
  case (Suc j)
  then have "same_at a b x y" by (force simp: run_def)
  then have "path a b d (x + 1) (y + 1)" using Suc.prems(2) by (rule path.diag [rotated])
  moreover have "run a b ((x + 1) - (y + 1)) (x + 1) x'" using Suc.prems(1) Suc.hyps(2) by (auto simp: run_def)
  ultimately show ?case using Suc.hyps(1) [of "x + 1" "y + 1"] Suc.hyps(2) by auto
qed

section \<open>Furthest points\<close>

definition furthest :: "string list \<Rightarrow> string list \<Rightarrow> nat \<Rightarrow> int \<Rightarrow> int \<Rightarrow> bool" where
  "furthest a b d k x \<longleftrightarrow> path a b d x (x - k) \<and> (\<forall>x'. path a b d x' (x' - k) \<longrightarrow> x' \<le> x)"

lemma furthest_unique: "furthest a b d k x \<Longrightarrow> furthest a b d k x' \<Longrightarrow> x = x'"
  by (auto simp: furthest_def intro: antisym)

lemma snake_run:
  "0 \<le> x \<Longrightarrow> 0 \<le> y \<Longrightarrow> \<exists>x'. snake a b x y = Some (x', x' - (x - y)) \<and> run a b (x - y) x x' \<and> \<not> same_at a b x' (x' - (x - y))"
proof (induction a b x y rule: snake.induct)
  case (1 a b x y)
  show ?case
  proof (cases "same_at a b x y")
    case True
    then have l: "x < int (length a)" "y < int (length b)" "look a x = Some (a ! nat x)" "look b y = Some (b ! nat y)"
      "a ! nat x = b ! nat y" by (auto simp: same_at_def look_def)
    obtain x' where x': "snake a b (x + 1) (y + 1) = Some (x', x' - (x - y))" "run a b (x - y) (x + 1) x'"
      "\<not> same_at a b x' (x' - (x - y))" using "1.IH" [OF _ l(3,4,5)] "1.prems" l(1,2) by auto
    have "snake a b x y = Some (x', x' - (x - y))" using x'(1) l by (subst snake.simps) simp
    moreover have "run a b (x - y) x x'"
      unfolding run_def
    proof (intro conjI allI impI)
      show "x \<le> x'" using x'(2) by (simp add: run_def)
      fix i assume "x \<le> i \<and> i < x'"
      then show "same_at a b i (i - (x - y))" using x'(2) True by (cases "i = x") (auto simp: run_def)
    qed
    ultimately show ?thesis using x'(3) by blast
  next
    case False
    have "snake a b x y = Some (x, y)" using False "1.prems" by (subst snake.simps) (auto simp: look_def same_at_def)
    then show ?thesis using False by (intro exI [of _ x]) (simp add: run_refl)
  qed
qed

text \<open>The start of the search on diagonal \<open>k\<close> from the furthest points of the distance before.\<close>

definition first_x :: "(int \<Rightarrow> int) \<Rightarrow> nat \<Rightarrow> int \<Rightarrow> int" where
  "first_x V d k = (if k = - int d \<or> k \<noteq> int d \<and> V (k - 1) < V (k + 1) then V (k + 1) else V (k - 1) + 1)"

definition row_ok :: "string list \<Rightarrow> string list \<Rightarrow> nat \<Rightarrow> (int \<Rightarrow> int) \<Rightarrow> bool" where
  "row_ok a b d V \<longleftrightarrow> (\<forall>k. - int d \<le> k \<and> k \<le> int d \<and> even (k + int d) \<longrightarrow> furthest a b d k (V k))"

lemma near:
  assumes "- int (Suc d) \<le> k" and "k \<le> int (Suc d)" and "even (k + int (Suc d))"
  shows "k \<noteq> int (Suc d) \<Longrightarrow> - int d \<le> k + 1 \<and> k + 1 \<le> int d \<and> even (k + 1 + int d)"
    and "k \<noteq> - int (Suc d) \<Longrightarrow> - int d \<le> k - 1 \<and> k - 1 \<le> int d \<and> even (k - 1 + int d)"
  using assms by presburger+

lemma first_x_path:
  assumes "row_ok a b d V" and "- int (Suc d) \<le> k" and "k \<le> int (Suc d)" and "even (k + int (Suc d))"
  shows "path a b (Suc d) (first_x V (Suc d) k) (first_x V (Suc d) k - k)"
proof (cases "k = - int (Suc d) \<or> k \<noteq> int (Suc d) \<and> V (k - 1) < V (k + 1)")
  case True
  then have "k \<noteq> int (Suc d)" using assms(2) by auto
  then have "path a b d (V (k + 1)) (V (k + 1) - (k + 1))" using assms(1) near(1) [OF assms(2-4)] by (auto simp: row_ok_def furthest_def)
  from path.ins [OF this] show ?thesis using True by (simp add: first_x_def)
next
  case False
  then have "path a b d (V (k - 1)) (V (k - 1) - (k - 1))" using assms(1) near(2) [OF assms(2-4)] by (auto simp: row_ok_def furthest_def)
  from path.del [OF this] have "path a b (Suc d) (V (k - 1) + 1) (V (k - 1) + 1 - k)" by (simp add: algebra_simps)
  moreover have "first_x V (Suc d) k = V (k - 1) + 1" using False by (simp only: first_x_def if_False)
  ultimately show ?thesis by (simp only:)
qed

lemma first_x_best:
  assumes "row_ok a b d V" and "- int (Suc d) \<le> k" and "k \<le> int (Suc d)" and "even (k + int (Suc d))"
  shows "path a b d (x - 1) (x - k) \<Longrightarrow> x \<le> first_x V (Suc d) k" and "path a b d x (x - k - 1) \<Longrightarrow> x \<le> first_x V (Suc d) k"
proof -
  assume p: "path a b d (x - 1) (x - k)"
  then have "k \<noteq> - int (Suc d)" using path_range [OF p] by simp
  note n = near(2) [OF assms(2-4) this]
  have "x - 1 \<le> V (k - 1)" using assms(1) n p by (auto simp: row_ok_def furthest_def)
  then show "x \<le> first_x V (Suc d) k" using \<open>k \<noteq> - int (Suc d)\<close> by (auto simp: first_x_def)
next
  assume p: "path a b d x (x - k - 1)"
  then have "k \<noteq> int (Suc d)" using path_range [OF p] by simp
  note n = near(1) [OF assms(2-4) this]
  have "x \<le> V (k + 1)" using assms(1) n p by (auto simp: row_ok_def furthest_def algebra_simps)
  then show "x \<le> first_x V (Suc d) k" using \<open>k \<noteq> int (Suc d)\<close> by (auto simp: first_x_def)
qed

lemma furthest_Suc:
  assumes "row_ok a b d V" and "- int (Suc d) \<le> k" and "k \<le> int (Suc d)" and "even (k + int (Suc d))"
    and "run a b k (first_x V (Suc d) k) x'" and "\<not> same_at a b x' (x' - k)"
  shows "furthest a b (Suc d) k x'"
  unfolding furthest_def
proof (intro conjI allI impI)
  show "path a b (Suc d) x' (x' - k)"
    using path_run [OF _ first_x_path [OF assms(1-4)], of x'] assms(5) by simp
  fix z assume z: "path a b (Suc d) z (z - k)"
  obtain x0 where x0: "run a b k x0 z" "path a b d (x0 - 1) (x0 - k) \<or> path a b d x0 (x0 - k - 1)"
    using path_last_edit [OF z] by auto
  have "x0 \<le> first_x V (Suc d) k" using first_x_best [OF assms(1-4)] x0(2) by blast
  then have "x0 \<le> x'" using assms(5) by (simp add: run_def)
  then show "z \<le> x'" using x0(1) assms(6) by (meson not_le run_def)
qed

lemma furthest_0:
  assumes "run a b 0 0 x'" and "\<not> same_at a b x' x'"
  shows "furthest a b 0 0 x'"
proof -
  have p: "path a b 0 x' x'" using path_run [of a b 0 0 x' 0] assms(1) path.start by simp
  have run0: "run a b 0 0 z" if "path a b d z y" "d = 0" for d z y
    using that
  proof (induction rule: path.induct)
    case (diag d x y)
    have "x = y" using path_range [OF diag.hyps(1)] diag.prems by simp
    then show ?case using diag by (intro run_snoc) simp_all
  qed (simp_all add: run_refl)
  have "z \<le> x'" if "path a b 0 z z" for z
  proof (rule ccontr)
    assume "\<not> z \<le> x'"
    then have "same_at a b x' (x' - 0)" using run0 [OF that refl] path_range [OF p] unfolding run_def by force
    then show False using assms(2) by simp
  qed
  then show ?thesis using p by (simp add: furthest_def)
qed

section \<open>The search reaches the furthest points\<close>

definition vx :: "int \<Rightarrow> int list \<Rightarrow> int \<Rightarrow> int" where
  "vx M v k = v ! nat (M + k)"

lemma look_vx: "length v = nat (2 * M + 1) \<Longrightarrow> - M \<le> k \<Longrightarrow> k \<le> M \<Longrightarrow> look v (M + k) = Some (vx M v k)"
  by (simp add: look_def vx_def)

lemma vx_update:
  "length v = nat (2 * M + 1) \<Longrightarrow> - M \<le> k \<Longrightarrow> k \<le> M \<Longrightarrow> - M \<le> k' \<Longrightarrow>
   vx M (v[nat (M + k) := x]) k' = (if k' = k then x else vx M v k')"
  by (auto simp: vx_def nth_list_update)

lemma start_x:
  assumes "length v = nat (2 * M + 1)" and "1 \<le> M" and "int d \<le> M" and "- int d \<le> k" and "k \<le> int d"
  shows "\<exists>dn. down v M (int d) k = Some dn \<and> dn = (k = - int d \<or> k \<noteq> int d \<and> vx M v (k - 1) < vx M v (k + 1)) \<and>
    (if dn then look v (M + k + 1) else map_option (\<lambda>l. l + 1) (look v (M + k - 1))) = Some (first_x (vx M v) d k)"
proof -
  have up: "look v (M + k + 1) = Some (vx M v (k + 1))" if "k \<noteq> int d \<or> k = - int d"
  proof -
    have "- M \<le> k + 1" "k + 1 \<le> M" using that assms(2-5) by linarith+
    then show ?thesis using look_vx [OF assms(1), of "k + 1"] by (simp add: add.assoc)
  qed
  have dn: "look v (M + k - 1) = Some (vx M v (k - 1))" if "k \<noteq> - int d"
  proof -
    have "- M \<le> k - 1" "k - 1 \<le> M" using that assms(2-5) by linarith+
    then show ?thesis using look_vx [OF assms(1), of "k - 1"] by (simp add: add_diff_eq)
  qed
  consider "k = - int d" | "k \<noteq> - int d" "k = int d" | "k \<noteq> - int d" "k \<noteq> int d" by blast
  then show ?thesis
  proof cases
    case 1
    then show ?thesis using up by (auto simp: down_def first_x_def)
  next
    case 2
    then show ?thesis using dn by (intro exI [of _ False]) (auto simp: down_def first_x_def)
  next
    case 3
    then show ?thesis using up dn by (simp add: down_def first_x_def)
  qed
qed

text \<open>What the array holds before the step to distance \<open>d\<close>.\<close>

definition before :: "string list \<Rightarrow> string list \<Rightarrow> int \<Rightarrow> nat \<Rightarrow> int list \<Rightarrow> bool" where
  "before a b M d v \<longleftrightarrow> length v = nat (2 * M + 1) \<and> (case d of 0 \<Rightarrow> vx M v 1 = 0 | Suc e \<Rightarrow> row_ok a b e (vx M v))"

lemma before_update:
  assumes "before a b M d v" and "int d \<le> M" and "- int d \<le> k" and "k \<le> int d" and "even (k + int d)"
  shows "before a b M d (v[nat (M + k) := x])"
proof (cases d)
  case 0
  then show ?thesis using assms vx_update [of v M k 1 x] by (auto simp: before_def)
next
  case (Suc e)
  have "vx M (v[nat (M + k) := x]) k' = vx M v k'" if "- int e \<le> k' \<and> k' \<le> int e \<and> even (k' + int e)" for k'
  proof -
    have "k' \<noteq> k" using that assms(5) Suc by auto
    then show ?thesis using assms(1-4) Suc that by (subst vx_update) (auto simp: before_def)
  qed
  then show ?thesis using assms(1) Suc by (simp add: before_def row_ok_def)
qed

lemma step_ok:
  assumes "before a b M d v" and "- int d \<le> k" and "k \<le> int d" and "even (k + int d)"
  shows "0 \<le> first_x (vx M v) d k \<and> 0 \<le> first_x (vx M v) d k - k"
    and "run a b k (first_x (vx M v) d k) x' \<Longrightarrow> \<not> same_at a b x' (x' - k) \<Longrightarrow> furthest a b d k x'"
proof -
  have 0: "first_x (vx M v) d k = 0 \<and> k = 0" if "d = 0" using that assms by (auto simp: before_def first_x_def)
  have S: "row_ok a b e (vx M v)" if "d = Suc e" for e using that assms(1) by (simp add: before_def)
  show "0 \<le> first_x (vx M v) d k \<and> 0 \<le> first_x (vx M v) d k - k"
  proof (cases d)
    case (Suc e)
    then show ?thesis using path_range [OF first_x_path [OF S [OF Suc]]] assms(2-4) by simp
  qed (use 0 in auto)
  show "furthest a b d k x'" if "run a b k (first_x (vx M v) d k) x'" "\<not> same_at a b x' (x' - k)"
  proof (cases d)
    case (Suc e)
    then show ?thesis using furthest_Suc [OF S [OF Suc]] assms(2-4) that by simp
  qed (use 0 that furthest_0 [of a b x'] in auto)
qed

text \<open>A point at or behind the end of both files, at the first distance that has one, is the end.\<close>

lemma end_reached:
  assumes "path a b d x (x - k)" and "int (length a) \<le> x" and "int (length b) \<le> x - k"
    and "\<forall>d' < d. \<not> path a b d' (int (length a)) (int (length b))"
  shows "x = int (length a)" and "x - k = int (length b)"
proof -
  obtain d' where d': "path a b d' (int (length a)) (int (length b))"
    "int d' + (x - int (length a)) + (x - k - int (length b)) \<le> int d"
    using path_clamp [OF assms(1)] assms(2,3) by (auto simp: min_absorb2)
  then have "d \<le> d'" using assms(4) not_le_imp_less by blast
  then show "x = int (length a)" "x - k = int (length b)" using d'(2) assms(2,3) by linarith+
qed

lemma inner_ok:
  assumes "1 \<le> M" and "int d \<le> M" and "\<forall>d' < d. \<not> path a b d' (int (length a)) (int (length b))"
  shows "before a b M d v \<Longrightarrow> - int d \<le> k \<Longrightarrow> even (k + int d) \<Longrightarrow>
    (\<forall>k'. - int d \<le> k' \<and> k' < k \<and> even (k' + int d) \<longrightarrow>
       furthest a b d k' (vx M v k') \<and> \<not> (int (length a) \<le> vx M v k' \<and> int (length b) \<le> vx M v k' - k')) \<Longrightarrow>
    \<exists>stop v'. inner a b M (int d) k v = Some (stop, v') \<and> length v' = nat (2 * M + 1) \<and>
      (if stop then furthest a b d (int (length a) - int (length b)) (int (length a))
       else row_ok a b d (vx M v') \<and> \<not> path a b d (int (length a)) (int (length b)))"
proof (induction "nat (int d - k + 2)" arbitrary: k v rule: less_induct)
  case less
  let ?n = "int (length a)" and ?m = "int (length b)"
  show ?case
  proof (cases "k > int d")
    case True
    have row: "row_ok a b d (vx M v)" using less.prems(4) True by (auto simp: row_ok_def)
    have "\<not> path a b d ?n ?m"
    proof
      assume p: "path a b d ?n ?m"
      let ?k = "?n - ?m"
      have k: "- int d \<le> ?k" "?k \<le> int d" "even (?k + int d)" using path_range [OF p] by simp_all
      then have f: "furthest a b d ?k (vx M v ?k)" "\<not> (?n \<le> vx M v ?k \<and> ?m \<le> vx M v ?k - ?k)"
        using less.prems(4) True by auto
      have "?n \<le> vx M v ?k" using f(1) p by (simp add: furthest_def)
      then show False using f(2) by linarith
    qed
    then show ?thesis using True row less.prems(1)
      by (subst inner.simps, intro exI [of _ False] exI [of _ v]) (simp add: before_def)
  next
    case False
    then have k: "- int d \<le> k" "k \<le> int d" "even (k + int d)" using less.prems by simp_all
    have len: "length v = nat (2 * M + 1)" using less.prems(1) by (simp add: before_def)
    let ?x0 = "first_x (vx M v) d k"
    obtain dn where dn: "down v M (int d) k = Some dn"
      "(if dn then look v (M + k + 1) else map_option (\<lambda>l. l + 1) (look v (M + k - 1))) = Some ?x0"
      using start_x [OF len assms(1,2) k(1,2)] by blast
    have nn: "0 \<le> ?x0" "0 \<le> ?x0 - k" using step_ok(1) [OF less.prems(1) k] by simp_all
    obtain x where x: "snake a b ?x0 (?x0 - k) = Some (x, x - k)" "run a b k ?x0 x" "\<not> same_at a b x (x - k)"
      using snake_run [OF nn, of a b] by auto
    have f: "furthest a b d k x" by (rule step_ok(2) [OF less.prems(1) k x(2,3)])
    let ?v = "v[nat (M + k) := x]"
    have st: "store v (M + k) x = Some ?v" using len k assms(2) by (simp add: store_def)
    have step: "inner a b M (int d) k v =
        (if ?n \<le> x \<and> ?m \<le> x - k then Some (True, ?v) else inner a b M (int d) (k + 2) ?v)"
      using False by (subst inner.simps) (simp add: dn x(1) st)
    show ?thesis
    proof (cases "?n \<le> x \<and> ?m \<le> x - k")
      case True
      have "path a b d x (x - k)" using f by (simp add: furthest_def)
      from end_reached [OF this conjunct1 [OF True] conjunct2 [OF True] assms(3)] have "x = ?n" "x - k = ?m" .
      then have "k = ?n - ?m" "x = ?n" by linarith+
      then show ?thesis using True step f len by (intro exI [of _ True] exI [of _ ?v]) simp
    next
      case not_end: False
      have b: "before a b M d ?v" by (rule before_update [OF less.prems(1) assms(2) k])
      have "furthest a b d k' (vx M ?v k') \<and> \<not> (?n \<le> vx M ?v k' \<and> ?m \<le> vx M ?v k' - k')"
        if "- int d \<le> k' \<and> k' < k + 2 \<and> even (k' + int d)" for k'
      proof (cases "k' = k")
        case True
        then show ?thesis using f not_end len k assms(2) by (simp add: vx_update)
      next
        case False
        have "k' \<noteq> k + 1" using that k(3) by auto
        then have "k' < k" using that False by linarith
        then show ?thesis using that less.prems(4) len k assms(2) False by (simp add: vx_update)
      qed
      then show ?thesis using less.hyps [of "k + 2" ?v] b k False step not_end by simp
    qed
  qed
qed

definition rows_ok :: "string list \<Rightarrow> string list \<Rightarrow> int \<Rightarrow> nat \<Rightarrow> int list list \<Rightarrow> bool" where
  "rows_ok a b M d trace \<longleftrightarrow>
     d \<le> length trace \<and> (\<forall>e < d. length (trace ! e) = nat (2 * M + 1) \<and> row_ok a b e (vx M (trace ! e)))"

lemma outer_ok:
  assumes "1 \<le> M" and "M = int (length a) + int (length b)"
  shows "int d \<le> M \<Longrightarrow> before a b M d v \<Longrightarrow> length trace = d \<Longrightarrow> rows_ok a b M d trace \<Longrightarrow>
    \<forall>d' < d. \<not> path a b d' (int (length a)) (int (length b)) \<Longrightarrow>
    \<exists>D trace'. outer a b M (int d) v trace = Some (int D, trace') \<and> int D \<le> M \<and> rows_ok a b M D trace' \<and>
      furthest a b D (int (length a) - int (length b)) (int (length a)) \<and>
      (\<forall>d' < D. \<not> path a b d' (int (length a)) (int (length b)))"
proof (induction "nat (M - int d)" arbitrary: d v trace rule: less_induct)
  case less
  let ?n = "int (length a)" and ?m = "int (length b)"
  obtain stop v' where i: "inner a b M (int d) (- int d) v = Some (stop, v')" "length v' = nat (2 * M + 1)"
    "if stop then furthest a b d (?n - ?m) ?n else row_ok a b d (vx M v') \<and> \<not> path a b d ?n ?m"
    using inner_ok [OF assms(1) less.prems(1,5,2), of "- int d"] by auto
  have o: "outer a b M (int d) v trace =
      (if stop then Some (int d, trace @ [v']) else outer a b M (int d + 1) v' (trace @ [v']))"
    using less.prems(1) i(1) by (subst outer.simps) simp
  have rows: "rows_ok a b M d (trace @ [v'])" using less.prems(3,4) by (auto simp: rows_ok_def nth_append)
  show ?case
  proof (cases stop)
    case True
    then show ?thesis using o i rows less.prems(1,5) by (intro exI [of _ d] exI [of _ "trace @ [v']"]) simp
  next
    case False
    then have row: "row_ok a b d (vx M v')" "\<not> path a b d ?n ?m" using i(3) by simp_all
    then have none: "\<forall>d' < Suc d. \<not> path a b d' ?n ?m" using less.prems(5) by (auto simp: less_Suc_eq)
    have "int d \<noteq> M" using row(2) path_all [of a b "length a" "length b"] assms(2) by (auto simp flip: of_nat_add)
    then have d: "int (Suc d) \<le> M" using less.prems(1) by simp
    have "rows_ok a b M (Suc d) (trace @ [v'])"
      using less.prems(3,4) row(1) i(2) by (auto simp: rows_ok_def nth_append less_Suc_eq)
    moreover have "before a b M (Suc d) v'" using row(1) i(2) by (simp add: before_def)
    ultimately show ?thesis using less.hyps [of "Suc d" v' "trace @ [v']"] d none less.prems(3) o False by (simp add: add.commute)
  qed
qed

section \<open>The way back\<close>

definition old_side :: "diffItem list \<Rightarrow> string list" where
  "old_side s = map di_text (filter (\<lambda>i. di_op i \<in> {opEq, opDel, opIgnoredDel}) s)"

definition new_side :: "diffItem list \<Rightarrow> string list" where
  "new_side s = map di_text (filter (\<lambda>i. di_op i \<in> {opEq, opIns, opIgnoredIns}) s)"

definition edits :: "diffItem list \<Rightarrow> nat" where
  "edits s = length (filter (\<lambda>i. di_op i \<noteq> opEq) s)"

definition plain_script :: "diffItem list \<Rightarrow> bool" where
  "plain_script s \<longleftrightarrow> list_all (\<lambda>i. di_op i \<in> {opEq, opDel, opIns}) s"

lemmas side_defs = old_side_def new_side_def edits_def plain_script_def item_def

text \<open>The script covers the rest of the files from a point on.\<close>

definition covers :: "string list \<Rightarrow> string list \<Rightarrow> int \<Rightarrow> int \<Rightarrow> nat \<Rightarrow> diffItem list \<Rightarrow> bool" where
  "covers a b x y e s \<longleftrightarrow> 0 \<le> x \<and> x \<le> int (length a) \<and> 0 \<le> y \<and> y \<le> int (length b) \<and>
     old_side s = drop (nat x) a \<and> new_side s = drop (nat y) b \<and> edits s = e \<and> plain_script s"

lemma drop_look: "0 \<le> x \<Longrightarrow> x < int (length a) \<Longrightarrow> drop (nat x) a = a ! nat x # drop (nat (x + 1)) a"
  by (simp add: nat_add_distrib Cons_nth_drop_Suc)

lemma covers_eq:
  assumes "covers a b x y e s" and "same_at a b (x - 1) (y - 1)"
  shows "look a (x - 1) = Some (a ! nat (x - 1))" and "covers a b (x - 1) (y - 1) e (item opEq (a ! nat (x - 1)) # s)"
  using assms drop_look [of "x - 1" a] drop_look [of "y - 1" b] by (auto simp: covers_def same_at_def look_def side_defs)

lemma covers_del:
  assumes "covers a b x y e s" and "1 \<le> x"
  shows "look a (x - 1) = Some (a ! nat (x - 1))" and "covers a b (x - 1) y (Suc e) (item opDel (a ! nat (x - 1)) # s)"
  using assms drop_look [of "x - 1" a] by (auto simp: covers_def look_def side_defs)

lemma covers_ins:
  assumes "covers a b x y e s" and "1 \<le> y"
  shows "look b (y - 1) = Some (b ! nat (y - 1))" and "covers a b x (y - 1) (Suc e) (item opIns (b ! nat (y - 1)) # s)"
  using assms drop_look [of "y - 1" b] by (auto simp: covers_def look_def side_defs)

lemma run_at: "run a b k x x' \<Longrightarrow> x \<le> i \<Longrightarrow> i < x' \<Longrightarrow> same_at a b i (i - k)"
  by (simp add: run_def)

lemma eq_run_ok:
  "run a b (x - y) startX x \<Longrightarrow> covers a b x y e s \<Longrightarrow>
   \<exists>s'. eq_run a startX x y s = Some (startX, startX - (x - y), s') \<and> covers a b startX (startX - (x - y)) e s'"
proof (induction a startX x y s rule: eq_run.induct)
  case (1 a startX x y s)
  show ?case
  proof (cases "x > startX")
    case True
    then have same: "same_at a b (x - 1) (y - 1)" using run_at [OF "1.prems"(1), of "x - 1"] by simp
    have r: "run a b (x - 1 - (y - 1)) startX (x - 1)" using "1.prems"(1) True by (auto simp: run_def)
    note c = covers_eq [OF "1.prems"(2) same]
    show ?thesis using "1.IH" [OF True c(1) r c(2)] c(1) True by (subst eq_run.simps) simp
  next
    case False
    then have "x = startX" using "1.prems"(1) by (simp add: run_def)
    then show ?thesis using "1.prems"(2) by (subst eq_run.simps) simp
  qed
qed

lemma eq_rest_ok:
  "run a b 0 0 x \<Longrightarrow> covers a b x x e s \<Longrightarrow> \<exists>s'. eq_rest a x x s = Some s' \<and> covers a b 0 0 e s'"
proof (induction "nat x" arbitrary: x s)
  case 0
  then show ?case by (subst eq_rest.simps) (auto simp: run_def)
next
  case (Suc j)
  then have same: "same_at a b (x - 1) (x - 1)" by (auto simp: run_def)
  have r: "run a b 0 0 (x - 1)" using Suc.prems(1) Suc.hyps(2) by (auto simp: run_def)
  note c = covers_eq [OF Suc.prems(2) same]
  show ?case using Suc.hyps(1) [OF _ r c(2)] Suc.hyps(2) c(1) by (subst eq_rest.simps) auto
qed

lemma furthest_run:
  assumes "row_ok a b e V" and "furthest a b (Suc e) k x"
  shows "run a b k (first_x V (Suc e) k) x"
proof -
  let ?x0 = "first_x V (Suc e) k"
  have k: "- int (Suc e) \<le> k" "k \<le> int (Suc e)" "even (k + int (Suc e))"
    using path_range [of a b "Suc e" x "x - k"] assms(2) by (simp_all add: furthest_def)
  have "0 \<le> ?x0" "0 \<le> ?x0 - k" using path_range [OF first_x_path [OF assms(1) k]] by simp_all
  then obtain x' where x': "run a b k ?x0 x'" "\<not> same_at a b x' (x' - k)" using snake_run [of ?x0 "?x0 - k" a b] by auto
  have "x' = x" by (rule furthest_unique [OF furthest_Suc [OF assms(1) k x'] assms(2)])
  then show ?thesis using x'(1) by simp
qed

lemma furthest_run_0:
  assumes "furthest a b 0 k x"
  shows "k = 0" and "run a b 0 0 x"
proof -
  show k: "k = 0" using path_range [of a b 0 x "x - k"] assms by (simp add: furthest_def)
  obtain x' where x': "run a b 0 0 x'" "\<not> same_at a b x' x'" using snake_run [of 0 0 a b] by auto
  have "x' = x" by (rule furthest_unique [OF furthest_0 [OF x'] assms [unfolded k]])
  then show "run a b 0 0 x" using x'(1) by simp
qed

lemma backtrack_ok:
  assumes "1 \<le> M"
  shows "int d \<le> M \<Longrightarrow> rows_ok a b M d trace \<Longrightarrow> furthest a b d (x - y) x \<Longrightarrow> covers a b x y e s \<Longrightarrow>
    \<exists>s'. backtrack a b trace M (int d) x y s = Some s' \<and> covers a b 0 0 (d + e) s'"
proof (induction d arbitrary: x y e s)
  case 0
  then show ?case using eq_rest_ok furthest_run_0 by (subst backtrack.simps) fastforce
next
  case (Suc d)
  let ?v = "trace ! d" and ?k = "x - y"
  have v: "length ?v = nat (2 * M + 1)" "row_ok a b d (vx M ?v)" "look trace (int (Suc d) - 1) = Some ?v"
    using Suc.prems(2) by (auto simp: rows_ok_def look_def)
  have k: "- int (Suc d) \<le> ?k" "?k \<le> int (Suc d)" "even (?k + int (Suc d))"
    using path_range [of a b "Suc d" x "x - ?k"] Suc.prems(3) by (simp_all add: furthest_def)
  let ?x0 = "first_x (vx M ?v) (Suc d) ?k"
  obtain dn where dn: "down ?v M (int (Suc d)) ?k = Some dn" "dn = (?k = - int (Suc d) \<or> ?k \<noteq> int (Suc d) \<and> vx M ?v (?k - 1) < vx M ?v (?k + 1))"
    using start_x [OF v(1) assms Suc.prems(1) k(1,2)] by blast
  obtain s1 where s1: "eq_run a ?x0 x y s = Some (?x0, ?x0 - ?k, s1)" "covers a b ?x0 (?x0 - ?k) e s1"
    using eq_run_ok [OF furthest_run [OF v(2) Suc.prems(3)] Suc.prems(4)] by blast
  have rows: "rows_ok a b M d trace" "int d \<le> M" using Suc.prems(1,2) by (auto simp: rows_ok_def)
  show ?case
  proof (cases dn)
    case True
    let ?p = "vx M ?v (?k + 1)"
    have x0: "?x0 = ?p" using True dn(2) by (simp only: first_x_def if_True)
    have "?k \<noteq> int (Suc d)" using True dn(2) k(1) by auto
    note n = near(1) [OF k this]
    have "furthest a b d (?k + 1) ?p" using v(2) n unfolding row_ok_def by blast
    moreover have "?p - (?p - ?k - 1) = ?k + 1" by simp
    ultimately have f: "furthest a b d (?p - (?p - ?k - 1)) ?p" by (simp only:)
    have l: "look ?v (M + (?k + 1)) = Some ?p" using look_vx [OF v(1)] n rows(2) by simp
    have "1 \<le> ?p - ?k" using path_range [of a b d ?p "?p - (?k + 1)"] f by (simp add: furthest_def algebra_simps)
    note c = covers_ins [OF s1(2) [unfolded x0] this]
    obtain s' where s': "backtrack a b trace M (int d) ?p (?p - ?k - 1) (item opIns (b ! nat (?p - ?k - 1)) # s1) = Some s'"
      "covers a b 0 0 (d + Suc e) s'" using Suc.IH [OF rows(2,1) f c(2)] by blast
    show ?thesis using s' v(3) dn(1) True l s1(1) [unfolded x0] c(1)
      by (subst backtrack.simps) simp
  next
    case False
    let ?p = "vx M ?v (?k - 1)"
    have x0: "?x0 = ?p + 1" using False dn(2) by (simp only: first_x_def if_False)
    have "?k \<noteq> - int (Suc d)" using False dn(2) by auto
    note n = near(2) [OF k this]
    have "furthest a b d (?k - 1) ?p" using v(2) n unfolding row_ok_def by blast
    moreover have "?p - (?p + 1 - ?k) = ?k - 1" by simp
    ultimately have f: "furthest a b d (?p - (?p + 1 - ?k)) ?p" by (simp only:)
    have l: "look ?v (M + (?k - 1)) = Some ?p" using look_vx [OF v(1)] n rows(2) by simp
    have "1 \<le> ?p + 1" using path_range [of a b d ?p "?p - (?k - 1)"] f by (simp add: furthest_def algebra_simps)
    note c = covers_del [OF s1(2) [unfolded x0] this]
    obtain s' where s': "backtrack a b trace M (int d) ?p (?p + 1 - ?k) (item opDel (a ! nat ?p) # s1) = Some s'"
      "covers a b 0 0 (d + Suc e) s'" using Suc.IH [OF rows(2,1) f, of "Suc e"] c(2) by auto
    show ?thesis using s' v(3) dn(1) False l s1(1) [unfolded x0] c(1)
      by (subst backtrack.simps) simp
  qed
qed

section \<open>Every script is a path\<close>

lemma script_path:
  "path a b d (int x) (int y) \<Longrightarrow> old_side s = drop x a \<Longrightarrow> new_side s = drop y b \<Longrightarrow>
   x \<le> length a \<Longrightarrow> y \<le> length b \<Longrightarrow> path a b (d + edits s) (int (length a)) (int (length b))"
proof (induction s arbitrary: d x y)
  case Nil
  then have "length a = x" "length b = y" by (simp_all add: old_side_def new_side_def)
  then show ?case using Nil.prems(1) by (simp add: edits_def)
next
  case (Cons i s)
  have a: "drop x a = a ! x # drop (Suc x) a \<and> x < length a" if "drop x a \<noteq> []"
    using that by (metis Cons_nth_drop_Suc drop_eq_Nil not_le)
  have b: "drop y b = b ! y # drop (Suc y) b \<and> y < length b" if "drop y b \<noteq> []"
    using that by (metis Cons_nth_drop_Suc drop_eq_Nil not_le)
  consider "di_op i = opEq" | "di_op i = opDel \<or> di_op i = opIgnoredDel" | "di_op i = opIns \<or> di_op i = opIgnoredIns"
    by (cases "di_op i") auto
  then show ?case
  proof cases
    case 1
    then have s: "di_text i # old_side s = drop x a" "di_text i # new_side s = drop y b"
      using Cons.prems(2,3) by (simp_all add: old_side_def new_side_def)
    then have n: "drop x a \<noteq> []" "drop y b \<noteq> []" by auto
    then have "same_at a b (int x) (int y)" using s a b by (auto simp: same_at_def)
    from path.diag [OF Cons.prems(1) this] have "path a b d (int (Suc x)) (int (Suc y))" by (simp add: add.commute)
    then show ?thesis using Cons.IH [of d "Suc x" "Suc y"] s a [OF n(1)] b [OF n(2)] 1 by (simp add: edits_def)
  next
    case 2
    then have s: "di_text i # old_side s = drop x a" "new_side s = drop y b"
      using Cons.prems(2,3) by (auto simp: old_side_def new_side_def)
    then have n: "drop x a \<noteq> []" by auto
    have "path a b (Suc d) (int (Suc x)) (int y)" using path.del [OF Cons.prems(1)] by (simp add: add.commute)
    then show ?thesis using Cons.IH [of "Suc d" "Suc x" y] s a [OF n] Cons.prems(5) 2 by (auto simp: edits_def)
  next
    case 3
    then have s: "old_side s = drop x a" "di_text i # new_side s = drop y b"
      using Cons.prems(2,3) by (auto simp: old_side_def new_side_def)
    then have n: "drop y b \<noteq> []" by auto
    have "path a b (Suc d) (int x) (int (Suc y))" using path.ins [OF Cons.prems(1)] by (simp add: add.commute)
    then show ?thesis using Cons.IH [of "Suc d" x "Suc y"] s b [OF n] Cons.prems(4) 3 by (auto simp: edits_def)
  qed
qed

lemma Diff_shortest:
  "\<exists>s. Diff a b = Some s \<and> plain_script s \<and> old_side s = a \<and> new_side s = b \<and>
     path a b (edits s) (int (length a)) (int (length b)) \<and> (\<forall>d' < edits s. \<not> path a b d' (int (length a)) (int (length b)))"
proof (cases "a = [] \<and> b = []")
  case True
  then show ?thesis by (auto simp: Diff_def side_defs path.start)
next
  case False
  let ?n = "int (length a)" and ?m = "int (length b)"
  let ?M = "?n + ?m" and ?v = "replicate (nat (2 * (?n + ?m) + 1)) (0 :: int)"
  have M: "1 \<le> ?M" using False by (cases a; cases b) auto
  have "vx ?M ?v 1 = 0" using M by (simp add: vx_def)
  then have b0: "before a b ?M 0 ?v" by (simp add: before_def)
  obtain D trace where o: "outer a b ?M 0 ?v [] = Some (int D, trace)" "int D \<le> ?M" "rows_ok a b ?M D trace"
    "furthest a b D (?n - ?m) ?n" "\<forall>d' < D. \<not> path a b d' ?n ?m"
    using outer_ok [OF M refl, of 0 ?v "[]"] b0 M by (auto simp: rows_ok_def)
  have c0: "covers a b ?n ?m 0 []" by (simp add: covers_def side_defs)
  obtain s where s: "backtrack a b trace ?M (int D) ?n ?m [] = Some s" "covers a b 0 0 D s"
    using backtrack_ok [OF M o(2,3,4) c0] by auto
  have "Diff a b = Some s" using M o(1) s(1) by (simp add: Diff_def Let_def)
  moreover have "path a b D ?n ?m" using o(4) by (simp add: furthest_def)
  ultimately show ?thesis using s(2) o(5) by (intro exI [of _ s]) (simp add: covers_def)
qed

section \<open>Applying hunks\<close>

text \<open>What a unified hunk says: at its position the file has the lines of its old side, and they become the lines of its new
  side.  Lines are counted from \<open>pos\<close> lines before the rest of the file.\<close>

definition old_lines :: "string list \<Rightarrow> string list" where
  "old_lines ls = map tl (filter (\<lambda>l. hd l \<noteq> CHR ''+'') ls)"

definition new_lines :: "string list \<Rightarrow> string list" where
  "new_lines ls = map tl (filter (\<lambda>l. hd l \<noteq> CHR ''-'') ls)"

fun apply_hunks :: "nat \<Rightarrow> string list \<Rightarrow> Hunk list \<Rightarrow> string list option" where
  "apply_hunks pos rest [] = Some rest"
| "apply_hunks pos rest (h # hs) =
     (let gap = nat (H_OldStart h) - 1 - pos; n = nat (H_OldLines h)
      in if pos + gap = nat (H_OldStart h) - 1 \<and> take n (drop gap rest) = old_lines (H_Lines h) \<and> gap + n \<le> length rest
         then map_option (\<lambda>r. take gap rest @ new_lines (H_Lines h) @ r) (apply_hunks (pos + gap + n) (drop (gap + n) rest) hs)
         else None)"

lemma hunk_line_sides:
  "old_lines (map hunk_line s) = old_side s" "new_lines (map hunk_line s) = new_side s"
  "length (filter in_old s) = length (old_side s)" "length (filter in_new s) = length (new_side s)"
  by (induction s)
    (auto simp: old_lines_def new_lines_def old_side_def new_side_def hunk_line_def in_old_def in_new_def split: diffOp.splits)

lemma side_append: "old_side (s @ t) = old_side s @ old_side t" "new_side (s @ t) = new_side s @ new_side t"
  by (simp_all add: old_side_def new_side_def)

lemma unchanged_sides: "plain_script s \<Longrightarrow> \<forall>i \<in> set s. \<not> changed i \<Longrightarrow> old_side s = new_side s"
  by (induction s) (auto simp: plain_script_def old_side_def new_side_def changed_def)

lemma plain_append: "plain_script (s @ t) \<longleftrightarrow> plain_script s \<and> plain_script t"
  by (simp add: plain_script_def)

lemma takeWhile_drop: "n \<le> length (takeWhile P xs) \<Longrightarrow> takeWhile P (drop n xs) = drop n (takeWhile P xs)"
proof (induction xs arbitrary: n)
  case (Cons x xs)
  then show ?case by (cases n) (auto split: if_splits)
qed simp

lemma drop_takeWhile_all: "length xs \<le> length (takeWhile P xs) \<Longrightarrow> \<forall>x \<in> set xs. P x"
  by (metis takeWhile_eq_take take_all set_takeWhileD)

text \<open>From an index on, no change follows, or none within the context.\<close>

definition settled :: "diffItem list \<Rightarrow> nat \<Rightarrow> nat \<Rightarrow> bool" where
  "settled s c i \<longleftrightarrow> (\<forall>j \<in> set (drop i s). \<not> changed j) \<or> c \<le> length (takeWhile (\<lambda>i. \<not> changed i) (drop i s))"

definition index_bound :: nat where "index_bound = 2 ^ 61"

lemma wrap64_sum: "x < index_bound \<Longrightarrow> y < index_bound \<Longrightarrow> wrap64 (int x + int y) = int (x + y)"
  by (simp add: index_bound_def wrap64_id MinInt64_def MaxInt64_def)

lemma find_end_ok:
  "length s < index_bound \<Longrightarrow> c < index_bound \<Longrightarrow> j < length s \<Longrightarrow> changed (s ! j) \<Longrightarrow>
   \<exists>e. find_end s (int c) j = int e \<and> j < e \<and> e \<le> length s \<and> settled s c e"
proof (induction "length s - j" arbitrary: j rule: less_induct)
  case less
  let ?u = "\<lambda>i. \<not> changed i"
  define eqStart where "eqStart = j + length (takeWhile changed (drop j s))"
  define eqCount where "eqCount = length (takeWhile ?u (drop eqStart s))"
  have "takeWhile changed (drop j s) \<noteq> []" using less.prems(3,4) by (simp add: takeWhile_eq_Nil_iff hd_drop_conv_nth)
  then have js: "j < eqStart" by (simp add: eqStart_def)
  have "length (takeWhile changed (drop j s)) \<le> length (drop j s)" by (rule length_takeWhile_le)
  then have sl: "eqStart \<le> length s" using less.prems(3) by (simp add: eqStart_def)
  have "eqCount \<le> length (drop eqStart s)" unfolding eqCount_def by (rule length_takeWhile_le)
  then have nl: "eqStart + eqCount \<le> length s" using sl by simp
  have w: "wrap64 (int eqStart + int c) = int (eqStart + c)" "wrap64 (2 * int c) = int (2 * c)"
    using less.prems(1,2) sl wrap64_sum [of eqStart c] wrap64_sum [of c c] by simp_all
  have fe: "find_end s (int c) j =
      (if length s \<le> eqStart + eqCount then (if eqCount > c then int (eqStart + c) else int (length s))
       else if eqCount > 2 * c then int (eqStart + c) else find_end s (int c) (eqStart + eqCount))"
    using less.prems(3) w by (subst find_end.simps) (simp add: Let_def flip: eqStart_def eqCount_def)
  have after: "takeWhile ?u (drop (eqStart + c) s) = drop c (takeWhile ?u (drop eqStart s))" if "c \<le> eqCount"
    using takeWhile_drop [of c ?u "drop eqStart s"] that by (simp add: eqCount_def add.commute)
  consider "length s \<le> eqStart + eqCount" "eqCount > c" | "length s \<le> eqStart + eqCount" "\<not> eqCount > c"
    | "eqStart + eqCount < length s" "eqCount > 2 * c" | "eqStart + eqCount < length s" "\<not> eqCount > 2 * c" by linarith
  then show ?case
  proof cases
    case 1
    have "length (drop (eqStart + c) s) \<le> length (takeWhile ?u (drop (eqStart + c) s))"
      using after 1 nl by (simp flip: eqCount_def)
    then have "settled s c (eqStart + c)" unfolding settled_def using drop_takeWhile_all by blast
    then show ?thesis using 1 fe js nl by (intro exI [of _ "eqStart + c"]) simp
  next
    case 2
    then show ?thesis using fe less.prems(3) by (intro exI [of _ "length s"]) (simp add: settled_def)
  next
    case 3
    have "c \<le> eqCount - c" using 3(2) by linarith
    then have "settled s c (eqStart + c)" using after 3 by (simp add: settled_def flip: eqCount_def)
    then show ?thesis using 3 fe js nl by (intro exI [of _ "eqStart + c"]) simp
  next
    case 4
    have "\<not> ?u (drop eqStart s ! eqCount)"
      unfolding eqCount_def by (rule nth_length_takeWhile) (use 4 in \<open>simp flip: eqCount_def\<close>)
    then have "changed (s ! (eqStart + eqCount))" using sl by simp
    moreover have "length s - (eqStart + eqCount) < length s - j" using 4(1) js by linarith
    ultimately obtain e where "find_end s (int c) (eqStart + eqCount) = int e" "eqStart + eqCount < e" "e \<le> length s" "settled s c e"
      using less.hyps [of "eqStart + eqCount"] less.prems(1,2) 4 js by auto
    then show ?thesis using 4 fe js by (intro exI [of _ e]) simp
  qed
qed

lemma apply_hunk_step:
  assumes "apply_hunks (length (old_side (p @ u @ w))) (old_side r) hs = Some (new_side r)" and "old_side u = new_side u"
    and "H_OldStart h = 1 + int (length (old_side (p @ u)))" and "H_OldLines h = int (length (old_side w))" and "H_Lines h = map hunk_line w"
  shows "apply_hunks (length (old_side p)) (old_side (u @ w @ r)) (h # hs) = Some (new_side (u @ w @ r))"
proof -
  have "nat (H_OldStart h) = Suc (length (old_side p) + length (old_side u))" using assms(3) by (simp add: side_append)
  moreover have "nat (H_OldLines h) = length (old_side w)" using assms(4) by simp
  ultimately show ?thesis using assms(1,2,5) by (simp add: side_append hunk_line_sides Let_def add.assoc)
qed

lemma drop_split: "i \<le> k \<Longrightarrow> drop i s = drop i (take k s) @ drop k s"
  by (metis append_take_drop_id drop_append length_take take_all drop_eq_Nil append_Nil2 diff_is_0_eq drop_0 min_def)

lemma hunks_from_ok:
  assumes "plain_script s" and "length s < index_bound" and "c < index_bound"
  shows "i \<le> length s \<Longrightarrow> i = 0 \<or> settled s c i \<Longrightarrow>
    \<exists>hs. hunks_from s (int c) (int i) acc = Some (acc @ hs) \<and>
      apply_hunks (length (old_side (take i s))) (old_side (drop i s)) hs = Some (new_side (drop i s)) \<and>
      (\<forall>h \<in> set hs. \<exists>st e. h = mk_hunk s st e)"
proof (induction "length s - i" arbitrary: i acc rule: less_induct)
  case less
  let ?u = "\<lambda>i. \<not> changed i"
  define run where "run = length (takeWhile ?u (drop i s))"
  have plain: "plain_script (drop k s)" "plain_script (take k s)" for k
    using assms(1) plain_append [of "take k s" "drop k s"] by simp_all
  show ?case
  proof (cases "i + run < length s")
    case False
    then have "\<forall>j \<in> set (drop i s). \<not> changed j" using drop_takeWhile_all [of "drop i s" ?u] by (simp add: run_def)
    then have "old_side (drop i s) = new_side (drop i s)" using plain by (intro unchanged_sides)
    then show ?thesis using False less.prems(1)
      by (intro exI [of _ "[]"]) (simp add: hunks_from.simps [of s "int c" "int i"] Let_def run_def)
  next
    case True
    let ?j = "i + run" and ?st = "i + run - c"
    have "\<not> ?u (drop i s ! run)" unfolding run_def by (rule nth_length_takeWhile) (use True in \<open>simp flip: run_def\<close>)
    then have ch: "changed (s ! ?j)" using less.prems(1) by simp
    obtain e where e: "find_end s (int c) ?j = int e" "?j < e" "e \<le> length s" "settled s c e"
      using find_end_ok [OF assms(2,3) True ch] by blast
    have "drop i s ! run \<in> set (drop i s)" using True by (intro nth_mem) simp
    then have ist: "i \<le> ?st" using less.prems(2) ch less.prems(1) by (auto simp: settled_def simp flip: run_def)
    let ?h = "mk_hunk s (int ?st) (int e)"
    have "wrap64 (int ?j - int c) = int ?j - int c"
      using assms(2,3) True by (intro wrap64_id) (simp_all add: MinInt64_def MaxInt64_def index_bound_def)
    then have mx: "max 0 (wrap64 (int ?j - int c)) = int ?st" "\<not> int (length s) < int ?st" using True by (simp_all add: max_def nat_minus_as_int)
    have step: "hunks_from s (int c) (int i) acc = hunks_from s (int c) (int e) (acc @ [?h])"
      using True e(1,3) mx by (subst hunks_from.simps) (simp add: Let_def min_def flip: run_def)
    have "length s - e < length s - i" using e(2,3) by linarith
    then obtain hs where hs: "hunks_from s (int c) (int e) (acc @ [?h]) = Some ((acc @ [?h]) @ hs)"
      "apply_hunks (length (old_side (take e s))) (old_side (drop e s)) hs = Some (new_side (drop e s))"
      "\<forall>h \<in> set hs. \<exists>st e. h = mk_hunk s st e"
      using less.hyps [of e "acc @ [?h]"] e True by auto
    define p u w r where "p = take i s" and "u = drop i (take ?st s)" and "w = drop ?st (take e s)" and "r = drop e s"
    have st: "?st \<le> e" using e(2) by simp
    have pu: "take ?st s = p @ u" unfolding p_def u_def using ist by (metis append_take_drop_id min.absorb1 take_take)
    have puw: "take e s = p @ u @ w" unfolding w_def using pu st by (metis append.assoc append_take_drop_id min.absorb1 take_take)
    have uwr: "drop i s = u @ w @ r" unfolding u_def w_def r_def using drop_split [OF ist, of s] drop_split [OF st, of s] by (simp only:)
    have "u = take (?st - i) (drop i s)" unfolding u_def by (simp add: drop_take)
    then have "u = take (?st - i) (takeWhile ?u (drop i s))"
      using takeWhile_eq_take [of ?u "drop i s"] by (simp add: min_def flip: run_def)
    then have un: "\<forall>j \<in> set u. \<not> changed j" by (metis in_set_takeD set_takeWhileD)
    have "plain_script u" using plain_append [of p u] plain(2) [of ?st] pu by simp
    then have "old_side u = new_side u" using un by (rule unchanged_sides)
    moreover have "H_OldStart ?h = 1 + int (length (old_side (p @ u)))" "H_OldLines ?h = int (length (old_side w))"
      "H_Lines ?h = map hunk_line w" using pu by (simp_all add: mk_hunk_def Let_def hunk_line_sides w_def)
    ultimately have "apply_hunks (length (old_side p)) (old_side (u @ w @ r)) (?h # hs) = Some (new_side (u @ w @ r))"
      using hs(2) unfolding puw r_def by (intro apply_hunk_step)
    moreover have "\<forall>h \<in> set (?h # hs). \<exists>st e. h = mk_hunk s st e" using hs(3) by auto
    ultimately show ?thesis using step hs(1) unfolding uwr p_def by (intro exI [of _ "?h # hs"]) simp
  qed
qed

lemma BuildHunks_ok:
  assumes "plain_script s" and "length s < index_bound" and "c < index_bound"
  shows "\<exists>hs. BuildHunks s (int c) = Some hs \<and> apply_hunks 0 (old_side s) hs = Some (new_side s) \<and>
    (\<forall>h \<in> set hs. \<exists>st e. h = mk_hunk s st e)"
  using hunks_from_ok [OF assms, of 0 "[]"] by (simp add: BuildHunks_def old_side_def)

section \<open>From the script to the files\<close>

lemma retext_ok:
  "plain_script raw \<Longrightarrow> old_side raw = map f (drop x l1) \<Longrightarrow> new_side raw = map f (drop y l2) \<Longrightarrow>
   \<exists>s. retext l1 l2 (int x) (int y) raw = Some s \<and> plain_script s \<and> old_side s = drop x l1 \<and>
     map f (new_side s) = map f (drop y l2) \<and> map di_op s = map di_op raw"
proof (induction raw arbitrary: x y)
  case Nil
  then show ?case by (simp add: side_defs)
next
  case (Cons i raw)
  have pl: "plain_script raw" using Cons.prems(1) by (simp add: plain_script_def)
  have l1: "x < length l1 \<and> look l1 (int x) = Some (l1 ! x) \<and> drop x l1 = l1 ! x # drop (Suc x) l1" if "drop x l1 \<noteq> []"
    using that by (simp add: look_def Cons_nth_drop_Suc)
  have l2: "y < length l2 \<and> look l2 (int y) = Some (l2 ! y) \<and> drop y l2 = l2 ! y # drop (Suc y) l2" if "drop y l2 \<noteq> []"
    using that by (simp add: look_def Cons_nth_drop_Suc)
  consider "di_op i = opEq" | "di_op i = opDel" | "di_op i = opIns" using Cons.prems(1) by (auto simp: plain_script_def)
  then show ?case
  proof cases
    case 1
    then have s: "di_text i # old_side raw = map f (drop x l1)" "di_text i # new_side raw = map f (drop y l2)"
      using Cons.prems(2,3) by (simp_all add: old_side_def new_side_def)
    then have n: "drop x l1 \<noteq> []" "drop y l2 \<noteq> []" by auto
    note a = l1 [OF n(1)] and b = l2 [OF n(2)]
    obtain r where "retext l1 l2 (int x + 1) (int y + 1) raw = Some r" "plain_script r" "old_side r = drop (Suc x) l1"
      "map f (new_side r) = map f (drop (Suc y) l2)" "map di_op r = map di_op raw"
      using Cons.IH [OF pl, of "Suc x" "Suc y"] s a b by (auto simp: add.commute)
    then show ?thesis using 1 a b s by (auto simp: side_defs)
  next
    case 2
    then have s: "di_text i # old_side raw = map f (drop x l1)" "new_side raw = map f (drop y l2)"
      using Cons.prems(2,3) by (simp_all add: old_side_def new_side_def)
    then have n: "drop x l1 \<noteq> []" by auto
    note a = l1 [OF n]
    obtain r where "retext l1 l2 (int x + 1) (int y) raw = Some r" "plain_script r" "old_side r = drop (Suc x) l1"
      "map f (new_side r) = map f (drop y l2)" "map di_op r = map di_op raw"
      using Cons.IH [OF pl, of "Suc x" y] s a by (auto simp: add.commute)
    then show ?thesis using 2 a s by (auto simp: side_defs)
  next
    case 3
    then have s: "old_side raw = map f (drop x l1)" "di_text i # new_side raw = map f (drop y l2)"
      using Cons.prems(2,3) by (simp_all add: old_side_def new_side_def)
    then have n: "drop y l2 \<noteq> []" by auto
    note b = l2 [OF n]
    obtain r where "retext l1 l2 (int x) (int y + 1) raw = Some r" "plain_script r" "old_side r = drop x l1"
      "map f (new_side r) = map f (drop (Suc y) l2)" "map di_op r = map di_op raw"
      using Cons.IH [OF pl, of x "Suc y"] s b by (auto simp: add.commute)
    then show ?thesis using 3 b s by (auto simp: side_defs)
  qed
qed

lemma script_length: "plain_script s \<Longrightarrow> length s \<le> length (old_side s) + length (new_side s)"
  by (induction s) (auto simp: plain_script_def old_side_def new_side_def)

lemma path_same: "path a a 0 (int (length a)) (int (length a))"
proof -
  have "k \<le> length a \<Longrightarrow> path a a 0 (int k) (int k)" for k
  proof (induction k)
    case (Suc k)
    then have "same_at a a (int k) (int k)" by (simp add: same_at_def)
    from path.diag [OF Suc.IH this] show ?case using Suc.prems by (simp add: add.commute)
  qed (simp add: path.start)
  then show ?thesis by simp
qed

lemma plain_changed: "plain_script s \<Longrightarrow> list_ex changed s \<longleftrightarrow> 0 < edits s"
  by (induction s) (auto simp: plain_script_def changed_def edits_def)

lemma changed_ops: "map di_op s = map di_op t \<Longrightarrow> list_ex changed s = list_ex changed t"
proof -
  have "list_ex changed u = list_ex (\<lambda>p. p = opDel \<or> p = opIns) (map di_op u)" for u by (induction u) (simp_all add: changed_def)
  then show "map di_op s = map di_op t \<Longrightarrow> list_ex changed s = list_ex changed t" by simp
qed

lemma Diff_changed:
  assumes "Diff a b = Some s"
  shows "list_ex changed s \<longleftrightarrow> a \<noteq> b"
proof -
  obtain t where t: "Diff a b = Some t" "plain_script t" "old_side t = a" "new_side t = b"
    "\<forall>d' < edits t. \<not> path a b d' (int (length a)) (int (length b))" using Diff_shortest by blast
  have s: "t = s" using t(1) assms by simp
  have "edits s = 0" if "a = b" using t(5) path_same [of a] that s by auto
  moreover have "a = b" if "\<not> list_ex changed s"
    using unchanged_sides [OF t(2)] that t(3,4) s by (auto simp: list_ex_iff)
  ultimately show ?thesis using plain_changed [OF t(2)] s by auto
qed

lemma comp_lines_map: "\<exists>f. comp_lines sp asp = map f"
proof (cases "asp \<or> sp")
  case True
  then show ?thesis by (cases asp) (auto simp: comp_lines_def stripAllSpace_def normalizeSpace_def)
next
  case False
  then have "comp_lines sp asp = map id" by (simp add: comp_lines_def fun_eq_iff)
  then show ?thesis by blast
qed

lemma GenerateDiff_script:
  assumes "length (text_lines c1) + length (text_lines c2) < index_bound" and "c < index_bound"
  shows "\<exists>s hs. GenerateDiff c1 c2 (int c) sp asp False = Some (list_ex changed s, hs) \<and> plain_script s \<and>
    old_side s = text_lines c1 \<and> comp_lines sp asp (new_side s) = comp_lines sp asp (text_lines c2) \<and>
    list_ex changed s = (comp_lines sp asp (text_lines c1) \<noteq> comp_lines sp asp (text_lines c2)) \<and>
    apply_hunks 0 (old_side s) hs = Some (new_side s) \<and> (\<forall>h \<in> set hs. \<exists>st e. h = mk_hunk s st e)"
proof -
  obtain f where f: "comp_lines sp asp = map f" using comp_lines_map by blast
  let ?l1 = "text_lines c1" and ?l2 = "text_lines c2"
  obtain raw where raw: "Diff (map f ?l1) (map f ?l2) = Some raw" "plain_script raw" "old_side raw = map f ?l1"
    "new_side raw = map f ?l2" using Diff_shortest by blast
  obtain s where s: "retext ?l1 ?l2 0 0 raw = Some s" "plain_script s" "old_side s = ?l1"
    "map f (new_side s) = map f ?l2" "map di_op s = map di_op raw"
    using retext_ok [OF raw(2), of f 0 ?l1 0 ?l2] raw(3,4) by auto
  have "length (new_side s) = length ?l2" using s(4) by (metis length_map)
  then have "length s < index_bound" using script_length [OF s(2)] s(3) assms(1) by simp
  then obtain hs where hs: "BuildHunks s (int c) = Some hs" "apply_hunks 0 (old_side s) hs = Some (new_side s)"
    "\<forall>h \<in> set hs. \<exists>st e. h = mk_hunk s st e" using BuildHunks_ok [OF s(2) _ assms(2)] by blast
  have "list_ex changed s = (map f ?l1 \<noteq> map f ?l2)" using Diff_changed [OF raw(1)] changed_ops [OF s(5)] by simp
  moreover have "GenerateDiff c1 c2 (int c) sp asp False = Some (list_ex changed s, hs)"
    using raw(1) s(1) hs(1) by (simp add: GenerateDiff_def f Let_def)
  ultimately show ?thesis using s(2-4) hs(2,3) f by (intro exI [of _ s] exI [of _ hs]) simp
qed

section \<open>Properties\<close>

text \<open>C7. \<^verbatim>\<open>Diff\<close> returns a shortest edit script for any two lists of lines: no index leaves its arrays, the deleted and
  kept lines are the first file, the inserted and kept lines the second, and no script that does this has fewer edits.\<close>

theorem diff_shortest:
  "\<exists>s. Diff a b = Some s \<and> old_side s = a \<and> new_side s = b \<and> \<not> (\<exists>t. old_side t = a \<and> new_side t = b \<and> edits t < edits s)"
proof -
  obtain s where s: "Diff a b = Some s" "old_side s = a" "new_side s = b"
    "\<forall>d' < edits s. \<not> path a b d' (int (length a)) (int (length b))" using Diff_shortest by blast
  have "path a b (edits t) (int (length a)) (int (length b))" if "old_side t = a" "new_side t = b" for t
    using script_path [of a b 0 0 0 t] that path.start by simp
  then show ?thesis using s by blast
qed

text \<open>C9. The hunks of \<^verbatim>\<open>diff\<close> turn the first file into the second, for every number of context lines below \<open>2 ^ 61\<close>: each hunk finds its old
  lines at the place its header names, hunks do not overlap, and putting in their new lines gives the lines of the
  second file, up to blanks with \<^verbatim>\<open>-b\<close> and \<^verbatim>\<open>-w\<close>; and a difference is reported exactly when the compared lines differ.\<close>

theorem diff_hunks_apply:
  assumes "length (text_lines c1) + length (text_lines c2) < index_bound" and "c < index_bound"
  shows "\<exists>differ hs new. GenerateDiff c1 c2 (int c) sp asp False = Some (differ, hs) \<and>
    apply_hunks 0 (text_lines c1) hs = Some new \<and> comp_lines sp asp new = comp_lines sp asp (text_lines c2) \<and>
    differ = (comp_lines sp asp (text_lines c1) \<noteq> comp_lines sp asp (text_lines c2))"
proof -
  obtain s hs where "GenerateDiff c1 c2 (int c) sp asp False = Some (list_ex changed s, hs)" "old_side s = text_lines c1"
    "comp_lines sp asp (new_side s) = comp_lines sp asp (text_lines c2)"
    "list_ex changed s = (comp_lines sp asp (text_lines c1) \<noteq> comp_lines sp asp (text_lines c2))"
    "apply_hunks 0 (old_side s) hs = Some (new_side s)" using GenerateDiff_script [OF assms] by blast
  then show ?thesis by (intro exI [of _ "list_ex changed s"] exI [of _ hs] exI [of _ "new_side s"]) simp
qed

theorem diff_hunks_apply_witness:
  "\<exists>differ hs new. GenerateDiff (''a'' @ [NL] @ ''b'' @ [NL]) (''a'' @ [NL]) (int 3) True False False = Some (differ, hs) \<and>
    apply_hunks 0 (text_lines (''a'' @ [NL] @ ''b'' @ [NL])) hs = Some new \<and>
    comp_lines True False new = comp_lines True False (text_lines (''a'' @ [NL])) \<and>
    differ = (comp_lines True False (text_lines (''a'' @ [NL] @ ''b'' @ [NL])) \<noteq> comp_lines True False (text_lines (''a'' @ [NL])))"
proof -
  have "text_lines (''a'' @ [NL] @ ''b'' @ [NL]) = [''a'', ''b'']" "text_lines (''a'' @ [NL]) = [''a'']" by code_simp+
  then show ?thesis by (intro diff_hunks_apply) (simp_all add: index_bound_def)
qed

text \<open>A file that differs only in its last newline counts as equal, and a context near the largest integer makes the end of
  a hunk negative, which panics.\<close>

lemma diff_last_newline:
  "text_lines ''a'' = text_lines (''a'' @ [NL])" "GenerateDiff ''a'' (''a'' @ [NL]) 3 False False False = Some (False, [])"
proof -
  show l: "text_lines ''a'' = text_lines (''a'' @ [NL])" by code_simp
  have t: "text_lines ''a'' = [''a'']" "text_lines [CHR ''a'', NL] = [''a'']" by code_simp+
  have "Diff [''a''] [''a''] = Some [item opEq ''a'']" by code_simp
  then show "GenerateDiff ''a'' (''a'' @ [NL]) 3 False False False = Some (False, [])"
    by (simp add: GenerateDiff_def t comp_lines_def item_def look_def BuildHunks_def hunks_from.simps changed_def Let_def)
qed

lemma diff_context_panics:
  "BuildHunks [item opEq ''a'', item opDel ''b'', item opEq ''c'', item opDel ''d''] MaxInt64 = None"
  by (simp add: BuildHunks_def hunks_from.simps find_end.simps item_def changed_def wrap64_def MaxInt64_def Let_def)

end
