(* ===== verification/Patch.thy ===== *)
theory Patch
  imports Diff
begin

text \<open>
  The utility \<^verbatim>\<open>patch\<close>: \<^verbatim>\<open>pkg/patch/patch.go\<close>.  Positions are 64-bit integers that wrap around, as a hunk header can name any
  number; an index out of range is a panic, the value \<^const>\<open>None\<close>.
\<close>

section \<open>Hunks on lines\<close>

record PHunk =
  P_OldStart :: int
  P_OldCount :: int
  P_NewStart :: int
  P_NewCount :: int
  P_Lines :: "string list"

record Patch =
  OldFile :: string
  NewFile :: string
  Hunks :: "PHunk list"

definition reverse_line :: "string \<Rightarrow> string" where
  "reverse_line l = (if prefix ''+'' l then CHR ''-'' # tl l else if prefix ''-'' l then CHR ''+'' # tl l else l)"

definition reverseHunk :: "PHunk \<Rightarrow> PHunk" where
  "reverseHunk h = \<lparr>P_OldStart = P_NewStart h, P_OldCount = P_NewCount h, P_NewStart = P_OldStart h, P_NewCount = P_OldCount h,
     P_Lines = map reverse_line (P_Lines h)\<rparr>"

fun verify_lines :: "string list \<Rightarrow> int \<Rightarrow> string list \<Rightarrow> bool option" where
  "verify_lines lines off [] = Some True"
| "verify_lines lines off (l # ls) =
     (let len = int (length lines); next = wrap64 (off + 1)
      in if prefix ''-'' l then
           (if off < len then do { t \<leftarrow> look lines off; if t \<noteq> tl l then Some False else verify_lines lines next ls }
            else verify_lines lines next ls)
         else if l = [] \<or> prefix '' '' l then
           (if off < len then do { t \<leftarrow> look lines off; if t \<noteq> tl l then Some False else verify_lines lines next ls }
            else if tl l \<noteq> [] then Some False
            else verify_lines lines next ls)
         else verify_lines lines off ls)"

definition verifyHunk :: "string list \<Rightarrow> PHunk \<Rightarrow> int \<Rightarrow> bool option" where
  "verifyHunk lines h pos = (if pos < 0 then Some False else verify_lines lines pos (P_Lines h))"

definition result_lines :: "string list \<Rightarrow> string list" where
  "result_lines ls = map tl (filter (\<lambda>l. prefix ''+'' l \<or> l = [] \<or> prefix '' '' l) ls)"

text \<open>\<^verbatim>\<open>applyAt\<close>; the position is never negative.\<close>

definition applyAt :: "string list \<Rightarrow> PHunk \<Rightarrow> int \<Rightarrow> string list option" where
  "applyAt lines h pos =
     (let len = int (length lines); afterPos = wrap64 (pos + P_OldCount h);
          result = (if pos < len then take (nat pos) lines else lines) @ result_lines (P_Lines h)
      in if afterPos < len then (if afterPos < 0 then None else Some (result @ drop (nat afterPos) lines)) else Some result)"

definition expected_lines :: "string list \<Rightarrow> string list" where
  "expected_lines ls = map tl (filter (\<lambda>l. prefix ''+'' l \<or> \<not> prefix ''-'' l \<and> l \<noteq> []) ls)"

fun match_at :: "string list \<Rightarrow> int \<Rightarrow> string list \<Rightarrow> bool option" where
  "match_at lines p [] = Some True"
| "match_at lines p (e # es) = do { t \<leftarrow> look lines p; if t \<noteq> e then Some False else match_at lines (wrap64 (p + 1)) es }"

partial_function (option) search_applied :: "string list \<Rightarrow> string list \<Rightarrow> int \<Rightarrow> int \<Rightarrow> bool option" where
  "search_applied lines expected end pos =
     (let stop = wrap64 (pos + int (length expected))
      in if stop \<le> end \<and> stop \<le> int (length lines)
         then do { m \<leftarrow> match_at lines pos expected; if m then Some True else search_applied lines expected end (wrap64 (pos + 1)) }
         else Some False)"

declare search_applied.simps [code]

definition alreadyApplied :: "string list \<Rightarrow> PHunk \<Rightarrow> bool option" where
  "alreadyApplied lines h =
     (let expected = expected_lines (P_Lines h);
          start = max 0 (wrap64 (P_OldStart h - 1));
          end = min (wrap64 (start + int (length expected) + 10)) (int (length lines))
      in if expected = [] then Some False else search_applied lines expected end start)"

text \<open>The search for another position, by growing distance, backwards first.  At its end the reversed hunk is looked for,
  which changes nothing.\<close>

function slide :: "string list \<Rightarrow> PHunk \<Rightarrow> int \<Rightarrow> int \<Rightarrow> (string list \<times> bool) option" where
  "slide lines h pos offset =
     (if offset > int (length lines) then map_option (\<lambda>_. (lines, False)) (alreadyApplied lines (reverseHunk h))
      else do {
        back \<leftarrow> (if pos - offset \<ge> 0 then verifyHunk lines h (pos - offset) else Some False);
        if back then map_option (\<lambda>ls. (ls, True)) (applyAt lines h (pos - offset))
        else do {
          fwd \<leftarrow> (if wrap64 (pos + offset + P_OldCount h) \<le> int (length lines) then verifyHunk lines h (wrap64 (pos + offset)) else Some False);
          if fwd then map_option (\<lambda>ls. (ls, True)) (applyAt lines h (wrap64 (pos + offset)))
          else slide lines h pos (offset + 1)
        }
      })"
  by pat_completeness auto
termination by (relation "measure (\<lambda>(lines, h, pos, offset). nat (int (length lines) - offset + 1))") auto

declare slide.simps [simp del]

definition applyHunk :: "string list \<Rightarrow> PHunk \<Rightarrow> bool \<Rightarrow> (string list \<times> bool) option" where
  "applyHunk lines h ignoreApplied =
     (if P_OldCount h = 0 then map_option (\<lambda>ls. (ls, True)) (applyAt lines h 0)
      else do {
        applied \<leftarrow> alreadyApplied lines h;
        if applied then Some (lines, ignoreApplied)
        else (let pos = max 0 (wrap64 (P_OldStart h - 1)) in do {
          here \<leftarrow> (if wrap64 (pos + P_OldCount h) \<le> int (length lines) then verifyHunk lines h pos else Some False);
          if here then map_option (\<lambda>ls. (ls, True)) (applyAt lines h pos) else slide lines h pos 1
        })
      })"

section \<open>Reading a patch\<close>

text \<open>\<^verbatim>\<open>parseHunkHeader\<close>; the errors of \<^verbatim>\<open>Atoi\<close> are dropped.\<close>

definition parse_range :: "string \<Rightarrow> int \<times> int" where
  "parse_range s =
     (case IndexByte s (CHR '','') of
        Some i \<Rightarrow> (Atoi_value (take i s), Atoi_value (drop (i + 1) s))
      | None \<Rightarrow> (Atoi_value s, 1))"

definition parseHunkHeader :: "string \<Rightarrow> PHunk option" where
  "parseHunkHeader line =
     (let rest = TrimPrefix line ''@@ '';
          ranges = (case Index rest '' @@'' of Some i \<Rightarrow> take i rest | None \<Rightarrow> rest)
      in case Fields ranges of
        o1 # n1 # _ \<Rightarrow>
          (let (os, oc) = parse_range (TrimPrefix o1 ''-''); (ns, nc) = parse_range (TrimPrefix n1 ''+'')
           in Some \<lparr>P_OldStart = os, P_OldCount = oc, P_NewStart = ns, P_NewCount = nc, P_Lines = []\<rparr>)
      | _ \<Rightarrow> None)"

record parse_state =
  ps_patches :: "Patch list"
  ps_current :: "Patch option"
  ps_hunk :: "PHunk option"
  ps_inHunk :: bool

definition close_hunk :: "PHunk option \<Rightarrow> Patch \<Rightarrow> Patch" where
  "close_hunk h p = (case h of None \<Rightarrow> p | Some x \<Rightarrow> p\<lparr>Hunks := Hunks p @ [x]\<rparr>)"

definition parse_line :: "parse_state \<Rightarrow> string \<Rightarrow> parse_state" where
  "parse_line st line =
     (if prefix ''--- '' line then
        (case ps_current st of
           None \<Rightarrow> st\<lparr>ps_current := Some \<lparr>OldFile = drop 4 line, NewFile = [], Hunks = []\<rparr>, ps_inHunk := False\<rparr>
         | Some p \<Rightarrow> st\<lparr>ps_patches := ps_patches st @ [close_hunk (ps_hunk st) p], ps_hunk := None,
             ps_current := Some \<lparr>OldFile = drop 4 line, NewFile = [], Hunks = []\<rparr>, ps_inHunk := False\<rparr>)
      else if prefix ''+++ '' line then
        (case ps_current st of None \<Rightarrow> st | Some p \<Rightarrow> st\<lparr>ps_current := Some (p\<lparr>NewFile := drop 4 line\<rparr>)\<rparr>)
      else if prefix ''@@ '' line then
        (case ps_current st of
           None \<Rightarrow> st
         | Some p \<Rightarrow>
             (let st' = st\<lparr>ps_current := Some (close_hunk (ps_hunk st) p)\<rparr>
              in case parseHunkHeader line of
                   Some h \<Rightarrow> st'\<lparr>ps_hunk := Some h, ps_inHunk := True\<rparr>
                 | None \<Rightarrow> st'))
      else
        (case ps_hunk st of
           Some h \<Rightarrow>
             if \<not> ps_inHunk st then st
             else if line = [] \<or> prefix '' '' line \<or> prefix ''+'' line \<or> prefix ''-'' line \<or> line = no_newline
             then st\<lparr>ps_hunk := Some (h\<lparr>P_Lines := P_Lines h @ [line]\<rparr>)\<rparr>
             else st\<lparr>ps_inHunk := False\<rparr>
         | None \<Rightarrow> st))"

definition finish_patches :: "parse_state \<Rightarrow> Patch list" where
  "finish_patches st =
     (case ps_current st of None \<Rightarrow> ps_patches st | Some p \<Rightarrow> ps_patches st @ [close_hunk (ps_hunk st) p])"

definition ParsePatch :: "string \<Rightarrow> Patch list \<times> bool" where
  "ParsePatch r =
     (let (ls, ok) = Scanner r
      in (finish_patches (foldl parse_line \<lparr>ps_patches = [], ps_current = None, ps_hunk = None, ps_inHunk = False\<rparr> ls), ok))"

section \<open>The command\<close>

fun strip_scan :: "int \<Rightarrow> int \<Rightarrow> bool \<Rightarrow> string \<Rightarrow> string option" where
  "strip_scan n components inComponent [] = None"
| "strip_scan n components inComponent (c # cs) =
     (if c = SL then
        (if inComponent then
           (if components + 1 = n then Some (dropWhile (\<lambda>c. c = SL) cs) else strip_scan n (components + 1) False cs)
         else strip_scan n components False cs)
      else strip_scan n components True cs)"

definition stripPath :: "string \<Rightarrow> int \<Rightarrow> string" where
  "stripPath path0 n =
     (let p = takeWhile (\<lambda>c. c \<noteq> CHR 0x09) path0
      in if n \<le> 0 then p
         else case strip_scan n 0 False p of
                Some rest \<Rightarrow> rest
              | None \<Rightarrow> rev (takeWhile (\<lambda>c. c \<noteq> SL) (dropWhile (\<lambda>c. c = SL) (rev p))))"

record PatchResult =
  PR_File :: string
  PR_Applied :: int
  PR_Rejected :: int
  PR_IsNew :: bool
  PR_Msg :: string

definition failed_message :: "string list \<Rightarrow> nat \<Rightarrow> PHunk \<Rightarrow> string option" where
  "failed_message lines hi h = do {
     applied \<leftarrow> alreadyApplied lines h;
     Some ((if applied then ''Possibly reversed hunk '' @ Itoa (int hi + 1) @ '' at '' @ Itoa (wrap64 (P_NewStart h + P_NewCount h)) @ [NL] else [])
       @ ''Hunk '' @ Itoa (int hi + 1) @ '' FAILED 1/1.'' @ [NL] @ println_all (P_Lines h))
   }"

text \<open>The loop over the hunks, up to the first that is rejected: the lines, the number applied, and the message of the rejected one.\<close>

fun apply_all :: "bool \<Rightarrow> bool \<Rightarrow> string list \<Rightarrow> nat \<Rightarrow> PHunk list \<Rightarrow> (string list \<times> nat \<times> string option) option" where
  "apply_all rv ignoreApplied lines hi [] = Some (lines, hi, None)"
| "apply_all rv ignoreApplied lines hi (h # hs) = do {
     (newLines, ok) \<leftarrow> applyHunk lines (if rv then reverseHunk h else h) ignoreApplied;
     if ok then apply_all rv ignoreApplied newLines (Suc hi) hs
     else do { msg \<leftarrow> failed_message lines hi h; Some (lines, hi, Some msg) }
   }"

text \<open>The target's content, or an error with whether the file does not exist; and the error of writing it.\<close>

type_synonym pfiles = "string \<Rightarrow> (bool \<times> string) + string"

definition target_lines :: "string \<Rightarrow> string list" where
  "target_lines original =
     (let ls = Split original [NL] in if original \<noteq> [] \<and> last original = NL then butlast ls else ls)"

record patch_outcome =
  po_result :: "PatchResult option"
  po_error :: "string option"
  po_written :: "(string \<times> string) option"

definition patch_Run ::
  "pfiles \<Rightarrow> (string \<Rightarrow> string option) \<Rightarrow> string \<Rightarrow> string \<Rightarrow> int \<Rightarrow> bool \<Rightarrow> bool \<Rightarrow> patch_outcome option" where
  "patch_Run fs writeErr patchData targetPath stripLevel rv ignoreApplied =
     (let none = (\<lambda>e. Some \<lparr>po_result = None, po_error = Some e, po_written = None\<rparr>);
          (patches, scanned) = ParsePatch patchData
      in if \<not> scanned then none (''parse patch: '' @ scan_error)
         else case patches of
           [] \<Rightarrow> none ''no patches found in input''
         | p # _ \<Rightarrow>
             (let oldFile = stripPath (OldFile p) stripLevel; newFile = stripPath (NewFile p) stripLevel;
                  target = (if targetPath = [] then newFile else targetPath);
                  isNewFile = (oldFile = ''/dev/null'' \<or> OldFile p = ''/dev/null'');
                  base = \<lparr>PR_File = target, PR_Applied = 0, PR_Rejected = 0, PR_IsNew = isNewFile, PR_Msg = []\<rparr>
              in case (if isNewFile then Inr [] else fs target) of
                   Inl (missing, e) \<Rightarrow>
                     (let msg = (if missing then ''No such file or directory'' else e);
                          text = ''can'' @ [CHR 0x27] @ ''t open '' @ [CHR 0x27] @ target @ [CHR 0x27] @ '': '' @ msg
                      in Some \<lparr>po_result = Some (base\<lparr>PR_Rejected := int (length (Hunks p)), PR_IsNew := False, PR_Msg := ''patch: '' @ text\<rparr>),
                               po_error = Some text, po_written = None\<rparr>)
                 | Inr original \<Rightarrow> do {
                     (lines, applied, rejected) \<leftarrow>
                       apply_all rv ignoreApplied (if isNewFile then [] else target_lines original) 0 (Hunks p);
                     let result = base\<lparr>PR_Applied := int applied, PR_Rejected := (if rejected = None then 0 else 1),
                       PR_Msg := (case rejected of None \<Rightarrow> [] | Some m \<Rightarrow> m)\<rparr>;
                     let output = Join lines [NL] @ (if isNewFile \<or> original \<noteq> [] \<and> last original = NL then [NL] else []);
                     let err = (if rejected = None then None else Some ''1 hunk(s) failed'');
                     Some (if applied > 0
                       then (case writeErr target of
                               Some e \<Rightarrow> \<lparr>po_result = Some result, po_error = Some (''write '' @ target @ '': '' @ e), po_written = None\<rparr>
                             | None \<Rightarrow> \<lparr>po_result = Some result, po_error = err, po_written = Some (target, output)\<rparr>)
                       else \<lparr>po_result = Some result, po_error = err, po_written = None\<rparr>)
                   }))"

definition patch_spec :: FlagSpec where
  "patch_spec = mkSpec [mkFlag ''p'' [] FlagValue, mkFlag ''R'' [] FlagBool, mkFlag ''N'' [] FlagBool, mkFlag [] ''json'' FlagBool]"

definition PatchResult_json :: "PatchResult \<Rightarrow> json" where
  "PatchResult_json r = JObj ([(''file'', JStr (PR_File r)), (''applied'', JInt (PR_Applied r)), (''rejected'', JInt (PR_Rejected r))]
     @ (if PR_IsNew r then [(''is_new'', JBool True)] else []) @ (if PR_Msg r = [] then [] else [(''message'', JStr (PR_Msg r))]))"

definition patch_report :: "PatchResult \<Rightarrow> string option \<Rightarrow> string" where
  "patch_report r err =
     (if PR_Applied r > 0 \<or> PR_Rejected r > 0
      then (if PR_IsNew r then ''creating'' else ''patching file'') @ '' '' @ PR_File r @ [NL] else [])
     @ (if err \<noteq> None \<and> PR_Msg r \<noteq> [] then PR_Msg r @ (if suffix [NL] (PR_Msg r) then [] else [NL]) else [])"

text \<open>The exit code, the two streams and the file written.\<close>

definition patchRun ::
  "pfiles \<Rightarrow> (string \<Rightarrow> string option) \<Rightarrow> string \<Rightarrow> string list \<Rightarrow> (int \<times> string \<times> string \<times> (string \<times> string) option) option" where
  "patchRun fs writeErr stdin args =
     (case ParseFlags args patch_spec of
        Inl e \<Rightarrow> (case flag_failure ''patch'' args e 2 of (c, out, err) \<Rightarrow> Some (c, out, err, None))
      | Inr flags \<Rightarrow>
          (let jsonMode = Has flags ''json'';
               stripLevel = (if Get flags ''p'' \<noteq> [] then Atoi_value (Get flags ''p'') else 0);
               go = (\<lambda>target patchData.
                 do {
                   r \<leftarrow> patch_Run fs writeErr patchData target stripLevel (Has flags ''R'') (Has flags ''N'');
                   let c = (if po_error r = None then 0 else 1);
                   Some (case (po_result r, po_error r) of
                       (Some res, err) \<Rightarrow> (c, Render ''patch'' (PatchResult_json res) jsonMode [], if jsonMode then [] else patch_report res err, po_written r)
                     | (None, Some e) \<Rightarrow> (c, RenderError ''patch'' c ''EPATCH'' e jsonMode, if jsonMode then [] else ''patch: '' @ e @ [NL], po_written r)
                     | (None, None) \<Rightarrow> (c, [], [], po_written r))
                 })
           in case Positional flags of
                [] \<Rightarrow> go [] stdin
              | [target] \<Rightarrow> go target stdin
              | target # patchFile # _ \<Rightarrow>
                  (case fs patchFile of
                     Inl (missing, e) \<Rightarrow> Some (2, RenderError ''patch'' 2 ''ENOENT'' e jsonMode,
                       if jsonMode then [] else ''patch: '' @ patchFile @ '': '' @ e @ [NL], None)
                   | Inr data \<Rightarrow> go target data)))"

section \<open>A hunk at its place\<close>

definition hunk_lines :: "string list \<Rightarrow> bool" where
  "hunk_lines ls \<longleftrightarrow> list_all (\<lambda>l. l \<noteq> [] \<and> hd l \<in> {CHR '' '', CHR ''+'', CHR ''-''}) ls"

lemma prefix1: "prefix [c] l \<longleftrightarrow> l \<noteq> [] \<and> hd l = c"
  by (cases l) auto

lemma hunk_lines_result: "hunk_lines ls \<Longrightarrow> result_lines ls = new_lines ls"
  by (induction ls) (auto simp: hunk_lines_def result_lines_def new_lines_def prefix1)

lemma hunk_lines_expected: "hunk_lines ls \<Longrightarrow> expected_lines ls = new_lines ls"
  by (induction ls) (auto simp: hunk_lines_def expected_lines_def new_lines_def prefix1)

lemma wrap64_small: "0 \<le> i \<Longrightarrow> i < 2 ^ 63 \<Longrightarrow> wrap64 i = i"
  by (simp add: wrap64_id MinInt64_def MaxInt64_def)

lemma verify_lines_ok:
  "hunk_lines ls \<Longrightarrow> length lines < index_bound \<Longrightarrow> off + length (old_lines ls) \<le> length lines \<Longrightarrow>
   take (length (old_lines ls)) (drop off lines) = old_lines ls \<Longrightarrow> verify_lines lines (int off) ls = Some True"
proof (induction ls arbitrary: off)
  case (Cons l ls)
  have hl: "hunk_lines ls" "l \<noteq> []" "hd l = CHR '' '' \<or> hd l = CHR ''+'' \<or> hd l = CHR ''-''"
    using Cons.prems(1) by (auto simp: hunk_lines_def)
  show ?case
  proof (cases "hd l = CHR ''+''")
    case True
    then show ?thesis using Cons hl by (simp add: prefix1 old_lines_def)
  next
    case False
    then have o: "old_lines (l # ls) = tl l # old_lines ls" using hl by (simp add: old_lines_def)
    then have off: "off < length lines" using Cons.prems(3) by simp
    then have d: "drop off lines = lines ! off # drop (Suc off) lines" by (simp add: Cons_nth_drop_Suc)
    have "lines ! off = tl l" "take (length (old_lines ls)) (drop (Suc off) lines) = old_lines ls"
      using Cons.prems(4) unfolding o d by simp_all
    moreover have "wrap64 (int off + 1) = int (Suc off)" using off Cons.prems(2) by (simp add: wrap64_small index_bound_def)
    moreover have "Suc off + length (old_lines ls) \<le> length lines" using Cons.prems(3) o by simp
    ultimately show ?thesis using Cons.IH [OF hl(1) Cons.prems(2), of "Suc off"] hl False off
      by (auto simp: prefix1 look_def Let_def)
  qed
qed simp

lemma applyAt_ok:
  assumes "hunk_lines (P_Lines h)" and "P_OldCount h = int (length old)" and "length (pre @ old @ post) < index_bound"
  shows "applyAt (pre @ old @ post) h (int (length pre)) = Some (pre @ new_lines (P_Lines h) @ post)"
proof -
  have w: "wrap64 (int (length pre) + P_OldCount h) = int (length pre + length old)"
    using assms(2,3) by (simp add: wrap64_small index_bound_def)
  have t: "(if int (length pre) < int (length (pre @ old @ post)) then take (nat (int (length pre))) (pre @ old @ post) else pre @ old @ post) = pre"
    by (cases old; cases post) auto
  show ?thesis unfolding applyAt_def w t hunk_lines_result [OF assms(1)] Let_def by (cases post) auto
qed

lemma match_at_total:
  "length lines < index_bound \<Longrightarrow> 0 \<le> p \<Longrightarrow> p + int (length es) \<le> int (length lines) \<Longrightarrow> match_at lines p es \<noteq> None"
proof (induction es arbitrary: p)
  case (Cons e es)
  then have "look lines p \<noteq> None" "wrap64 (p + 1) = p + 1" by (simp_all add: look_def wrap64_small index_bound_def)
  then show ?case using Cons by auto
qed simp

lemma search_total:
  assumes "length lines < index_bound" and "length es < index_bound"
  shows "0 \<le> p \<Longrightarrow> p < int index_bound \<Longrightarrow> search_applied lines es end p \<noteq> None"
proof (induction "nat (int (length lines) - p)" arbitrary: p rule: less_induct)
  case less
  have w: "wrap64 (p + int (length es)) = p + int (length es)" "wrap64 (p + 1) = p + 1"
    using less.prems assms(2) by (simp_all add: wrap64_small index_bound_def)
  show ?case
  proof (cases "p + int (length es) \<le> end \<and> p + int (length es) \<le> int (length lines)")
    case True
    obtain m where m: "match_at lines p es = Some m" using match_at_total [OF assms(1) less.prems(1)] True by auto
    show ?thesis
    proof (cases m)
      case False
      then have "es \<noteq> []" using m by auto
      then have "p < int (length lines)" using True by (cases es) auto
      then have "search_applied lines es end (p + 1) \<noteq> None" using less.hyps [of "p + 1"] less.prems assms(1) by simp
      then show ?thesis using True m False w by (subst search_applied.simps) (simp add: Let_def)
    qed (use True m w in \<open>subst search_applied.simps; simp add: Let_def\<close>)
  next
    case False
    then show ?thesis using w by (subst search_applied.simps) (auto simp: Let_def)
  qed
qed

lemma alreadyApplied_total:
  assumes "length lines < index_bound" and "length (P_Lines h) < index_bound" and "0 \<le> P_OldStart h" and "P_OldStart h < int index_bound"
  shows "alreadyApplied lines h \<noteq> None"
proof -
  have "wrap64 (P_OldStart h - 1) = P_OldStart h - 1" using assms(3,4) by (simp add: wrap64_id MinInt64_def MaxInt64_def index_bound_def)
  moreover have "length (expected_lines (P_Lines h)) < index_bound"
    using assms(2) le_less_trans [OF length_filter_le] by (simp add: expected_lines_def)
  ultimately show ?thesis using search_total [OF assms(1)] assms(3,4) by (auto simp: alreadyApplied_def Let_def max_def)
qed

lemma applyHunk_ok:
  assumes "hunk_lines (P_Lines h)" and "old_lines (P_Lines h) = old" and "old \<noteq> []" and "P_OldCount h = int (length old)"
    and "P_OldStart h = int (length pre) + 1" and "length (pre @ old @ post) < index_bound"
    and "alreadyApplied (pre @ old @ post) h = Some False"
  shows "applyHunk (pre @ old @ post) h ign = Some (pre @ new_lines (P_Lines h) @ post, True)"
proof -
  have w: "max 0 (wrap64 (P_OldStart h - 1)) = int (length pre)"
    using assms(5,6) by (simp add: wrap64_small index_bound_def)
  have w2: "wrap64 (int (length pre) + P_OldCount h) = int (length pre + length old)"
    using assms(4,6) by (simp add: wrap64_small index_bound_def)
  have "verify_lines (pre @ old @ post) (int (length pre)) (P_Lines h) = Some True"
    by (rule verify_lines_ok [OF assms(1,6)]) (simp_all add: assms(2))
  then have v: "verifyHunk (pre @ old @ post) h (int (length pre)) = Some True" by (simp add: verifyHunk_def)
  have "P_OldCount h \<noteq> 0" using assms(3,4) by simp
  then show ?thesis using assms(7) w w2 v applyAt_ok [OF assms(1,4,6)] by (simp add: applyHunk_def Let_def)
qed


section \<open>Reading what \<^verbatim>\<open>diff\<close> prints\<close>

definition to_patch :: "Hunk \<Rightarrow> PHunk" where
  "to_patch h = \<lparr>P_OldStart = (if H_OldLines h = 0 then H_OldStart h - 1 else H_OldStart h), P_OldCount = H_OldLines h,
     P_NewStart = (if H_NewLines h = 0 then H_NewStart h - 1 else H_NewStart h), P_NewCount = H_NewLines h, P_Lines = H_Lines h\<rparr>"

definition small_range :: "int \<Rightarrow> int \<Rightarrow> bool" where
  "small_range start n \<longleftrightarrow> 1 \<le> start \<and> start < 2 ^ 63 \<and> 0 \<le> n \<and> n < 2 ^ 63"

text \<open>A line of a hunk that the reader does not take for a file header: a deleted line may not start with two dashes and a blank.\<close>

definition safe_line :: "string \<Rightarrow> bool" where
  "safe_line l \<longleftrightarrow> plain_line l \<and> \<not> prefix ''--- '' l \<and> \<not> prefix ''+++ '' l"

definition sound_hunk :: "Hunk \<Rightarrow> bool" where
  "sound_hunk h \<longleftrightarrow> small_range (H_OldStart h) (H_OldLines h) \<and> small_range (H_NewStart h) (H_NewLines h) \<and>
     hunk_lines (H_Lines h) \<and> list_all safe_line (H_Lines h)"

definition range_char :: "char \<Rightarrow> bool" where
  "range_char c \<longleftrightarrow> isDecDigit c \<or> c = CHR '',''"

lemma Itoa_digits: "0 \<le> n \<Longrightarrow> Itoa n \<noteq> [] \<and> list_all isDecDigit (Itoa n)"
  using itoa_nat_digits by (simp add: Itoa_def)

lemma not_digit: "isDecDigit c \<Longrightarrow> c \<noteq> CHR '','' \<and> c \<noteq> CHR ''@'' \<and> c \<noteq> CHR ''-'' \<and> c \<noteq> CHR ''+'' \<and> 33 \<le> code c \<and> code c < 127"
  by (auto simp: isDecDigit_def code_def)

lemma range_char_plain: "range_char c \<Longrightarrow> c \<noteq> CHR ''@'' \<and> 33 \<le> code c \<and> code c < 127 \<and> c \<noteq> NL \<and> c \<noteq> CHR 0x0D"
  by (auto simp: range_char_def isDecDigit_def code_def)

lemma digits_range: "list_all isDecDigit s \<Longrightarrow> list_all range_char s"
  by (simp add: list_all_iff range_char_def)

lemma range_text_chars: "small_range s n \<Longrightarrow> range_text s n \<noteq> [] \<and> list_all range_char (range_text s n)"
  using Itoa_digits [of s] Itoa_digits [of "s - 1"] Itoa_digits [of n]
  by (auto simp: range_text_def small_range_def digits_range range_char_def isDecDigit_def code_def)

lemma itoa_nat_length: "n < 10 ^ Suc k \<Longrightarrow> length (itoa_nat n) \<le> Suc k"
proof (induction k arbitrary: n)
  case (Suc k)
  have "n div 10 < 10 ^ Suc k" using Suc.prems by (simp add: less_mult_imp_div_less)
  then show ?case using Suc.IH [of "n div 10"] by (simp add: itoa_nat.simps [of n])
qed (simp add: itoa_nat.simps)

lemma Itoa_length: "0 \<le> n \<Longrightarrow> n < 2 ^ 63 \<Longrightarrow> length (Itoa n) \<le> 19"
  using itoa_nat_length [of "nat n" 18] by (simp add: Itoa_def)

lemma range_text_length: "small_range s n \<Longrightarrow> length (range_text s n) \<le> 39"
  using Itoa_length [of s] Itoa_length [of "s - 1"] Itoa_length [of n] by (auto simp: range_text_def small_range_def)

lemma IndexByte_digits: "list_all isDecDigit s \<Longrightarrow> IndexByte (s @ CHR '','' # t) (CHR '','') = Some (length s) \<and> IndexByte s (CHR '','') = None"
  by (induction s) (auto dest: not_digit)

lemma Atoi_Itoa: "0 \<le> n \<Longrightarrow> n < 2 ^ 63 \<Longrightarrow> Atoi_value (Itoa n) = n"
  by (simp add: Atoi_value_def ParseInt_Itoa MinInt64_def MaxInt64_def)

lemma Atoi_zero: "Atoi_value ''0'' = 0"
  by code_simp

lemma parse_range_text: "small_range s n \<Longrightarrow> parse_range (range_text s n) = (if n = 0 then s - 1 else s, n)"
  using IndexByte_digits [of "Itoa s"] IndexByte_digits [of "Itoa (s - 1)"] Itoa_digits [of s] Itoa_digits [of "s - 1"]
    Atoi_Itoa [of s] Atoi_Itoa [of "s - 1"] Atoi_Itoa [of n] Atoi_zero
  by (auto simp: parse_range_def range_text_def small_range_def)

lemma Index_end: "CHR ''@'' \<notin> set s \<Longrightarrow> Index (s @ '' @@'') '' @@'' = Some (length s)"
proof (induction s)
  case (Cons x xs)
  then show ?case by (cases xs) auto
qed simp

lemma range_word: "r \<noteq> [] \<and> list_all range_char r \<Longrightarrow> 33 \<le> code c \<Longrightarrow> code c < 127 \<Longrightarrow> plain_word (c # r)"
  by (auto simp: plain_word_def list_all_iff dest: range_char_plain)

lemma hunk_header_parses:
  assumes "sound_hunk h"
  shows "parseHunkHeader (''@@ -'' @ range_text (H_OldStart h) (H_OldLines h) @ '' +'' @ range_text (H_NewStart h) (H_NewLines h) @ '' @@'')
    = Some (to_patch h\<lparr>P_Lines := []\<rparr>)"
proof -
  define r1 r2 where "r1 = range_text (H_OldStart h) (H_OldLines h)" and "r2 = range_text (H_NewStart h) (H_NewLines h)"
  have r: "r1 \<noteq> [] \<and> list_all range_char r1" "r2 \<noteq> [] \<and> list_all range_char r2"
    using assms range_text_chars unfolding r1_def r2_def sound_hunk_def by blast+
  let ?ranges = "CHR ''-'' # r1 @ '' +'' @ r2"
  have "CHR ''@'' \<notin> set ?ranges" using r by (auto simp: list_all_iff dest: range_char_plain)
  then have i: "Index (?ranges @ '' @@'') '' @@'' = Some (length ?ranges)" by (rule Index_end)
  have "plain_word (CHR ''-'' # r1)" "plain_word (CHR ''+'' # r2)" using r by (auto intro!: range_word simp: code_def)
  then have "Fields (Join [CHR ''-'' # r1, CHR ''+'' # r2] '' '') = [CHR ''-'' # r1, CHR ''+'' # r2]" by (intro Fields_words) simp
  then have f: "Fields ?ranges = [CHR ''-'' # r1, CHR ''+'' # r2]" by simp
  have p: "parse_range r1 = (P_OldStart (to_patch h), P_OldCount (to_patch h))" "parse_range r2 = (P_NewStart (to_patch h), P_NewCount (to_patch h))"
    using assms by (simp_all add: r1_def r2_def parse_range_text sound_hunk_def to_patch_def)
  have t: "TrimPrefix (''@@ -'' @ r1 @ '' +'' @ r2 @ '' @@'') ''@@ '' = ?ranges @ '' @@''" by (simp add: TrimPrefix_def)
  have k: "take (length ?ranges) (?ranges @ '' @@'') = ?ranges" by simp
  have m: "TrimPrefix (CHR ''-'' # r1) ''-'' = r1" "TrimPrefix (CHR ''+'' # r2) ''+'' = r2" by (simp_all add: TrimPrefix_def)
  have "parseHunkHeader (''@@ -'' @ r1 @ '' +'' @ r2 @ '' @@'') = Some (to_patch h\<lparr>P_Lines := []\<rparr>)"
    unfolding parseHunkHeader_def t Let_def i option.case k f list.case m p prod.case by (simp add: to_patch_def)
  then show ?thesis by (simp only: r1_def r2_def)
qed

lemma parse_hunk_lines:
  "hunk_lines ls \<Longrightarrow> list_all safe_line ls \<Longrightarrow>
   foldl parse_line \<lparr>ps_patches = ps, ps_current = Some p, ps_hunk = Some h, ps_inHunk = True\<rparr> ls
   = \<lparr>ps_patches = ps, ps_current = Some p, ps_hunk = Some (h\<lparr>P_Lines := P_Lines h @ ls\<rparr>), ps_inHunk = True\<rparr>"
proof (induction ls arbitrary: h)
  case (Cons l ls)
  have l: "l \<noteq> []" "hd l \<in> {CHR '' '', CHR ''+'', CHR ''-''}" "\<not> prefix ''--- '' l" "\<not> prefix ''+++ '' l" "hunk_lines ls" "list_all safe_line ls"
    using Cons.prems by (auto simp: hunk_lines_def list_all_iff safe_line_def)
  then have "\<not> prefix ''@@ '' l" by (cases l) auto
  then have "parse_line \<lparr>ps_patches = ps, ps_current = Some p, ps_hunk = Some h, ps_inHunk = True\<rparr> l
    = \<lparr>ps_patches = ps, ps_current = Some p, ps_hunk = Some (h\<lparr>P_Lines := P_Lines h @ [l]\<rparr>), ps_inHunk = True\<rparr>"
    using l by (auto simp: parse_line_def prefix1)
  then show ?case using Cons.IH [OF l(5,6)] by simp
qed simp

text \<open>The marker after a hunk whose last line is the unfinished last line of its file, the lines printed for a hunk, and the hunk read back.\<close>

definition marker_line :: "bool \<Rightarrow> bool \<Rightarrow> Hunk \<Rightarrow> string list" where
  "marker_line b1 b2 h =
     (let ls = H_Lines h
      in if ls \<noteq> [] \<and> last ls \<noteq> [] \<and> (hd (last ls) = CHR ''-'' \<and> \<not> b1 \<or> hd (last ls) = CHR ''+'' \<and> \<not> b2) then [no_newline] else [])"

definition hunk_print :: "bool \<Rightarrow> bool \<Rightarrow> Hunk \<Rightarrow> string list" where
  "hunk_print b1 b2 h =
     (''@@ -'' @ range_text (H_OldStart h) (H_OldLines h) @ '' +'' @ range_text (H_NewStart h) (H_NewLines h) @ '' @@'')
     # H_Lines h @ marker_line b1 b2 h"

definition read_back :: "bool \<Rightarrow> bool \<Rightarrow> Hunk \<Rightarrow> PHunk" where
  "read_back b1 b2 h = (to_patch h)\<lparr>P_Lines := H_Lines h @ marker_line b1 b2 h\<rparr>"

lemma read_back_finished [simp]: "read_back True True h = to_patch h"
  by (simp add: read_back_def marker_line_def to_patch_def)

lemma hunk_text_print: "hunk_text b1 b2 h = println_all (hunk_print b1 b2 h)"
  by (simp add: hunk_text_def hunk_print_def marker_line_def Let_def)

lemma marker_plain: "l \<in> set (marker_line b1 b2 h) \<Longrightarrow> plain_line l"
  by (auto simp: marker_line_def no_newline_def plain_line_def token_limit_def Let_def split: if_splits)

lemma parse_marker:
  "foldl parse_line \<lparr>ps_patches = ps, ps_current = Some p, ps_hunk = Some x, ps_inHunk = True\<rparr> (marker_line b1 b2 h)
   = \<lparr>ps_patches = ps, ps_current = Some p, ps_hunk = Some (x\<lparr>P_Lines := P_Lines x @ marker_line b1 b2 h\<rparr>), ps_inHunk = True\<rparr>"
  by (simp add: marker_line_def parse_line_def no_newline_def Let_def)

lemma hunk_print_plain:
  assumes "sound_hunk h"
  shows "\<forall>l \<in> set (hunk_print b1 b2 h). plain_line l"
proof -
  define r1 r2 where "r1 = range_text (H_OldStart h) (H_OldLines h)" and "r2 = range_text (H_NewStart h) (H_NewLines h)"
  have g: "small_range (H_OldStart h) (H_OldLines h)" "small_range (H_NewStart h) (H_NewLines h)" using assms by (simp_all add: sound_hunk_def)
  have r: "list_all range_char r1" "list_all range_char r2" unfolding r1_def r2_def using range_text_chars g by simp_all
  have c: "NL \<notin> set r1" "NL \<notin> set r2" "CHR 0x0D \<notin> set r1" "CHR 0x0D \<notin> set r2"
    using r range_char_plain [of NL] range_char_plain [of "CHR 0x0D"] by (auto simp: list_all_iff)
  have "length r1 \<le> 39" "length r2 \<le> 39" unfolding r1_def r2_def using range_text_length g by simp_all
  then have "length (''@@ -'' @ r1 @ '' +'' @ r2 @ '' @@'') < token_limit" by (simp add: token_limit_def)
  then have "plain_line (''@@ -'' @ r1 @ '' +'' @ r2 @ '' @@'')" using c by (simp add: plain_line_def)
  moreover have "\<forall>l \<in> set (H_Lines h). plain_line l" using assms by (simp add: sound_hunk_def list_all_iff safe_line_def)
  ultimately show ?thesis using marker_plain by (auto simp: hunk_print_def r1_def r2_def)
qed

lemma parse_hunk_print:
  assumes "sound_hunk h"
  shows "foldl parse_line \<lparr>ps_patches = ps, ps_current = Some p, ps_hunk = ho, ps_inHunk = b\<rparr> (hunk_print b1 b2 h)
    = \<lparr>ps_patches = ps, ps_current = Some (close_hunk ho p), ps_hunk = Some (read_back b1 b2 h), ps_inHunk = True\<rparr>"
proof -
  have "parse_line \<lparr>ps_patches = ps, ps_current = Some p, ps_hunk = ho, ps_inHunk = b\<rparr>
      (''@@ -'' @ range_text (H_OldStart h) (H_OldLines h) @ '' +'' @ range_text (H_NewStart h) (H_NewLines h) @ '' @@'')
    = \<lparr>ps_patches = ps, ps_current = Some (close_hunk ho p), ps_hunk = Some (to_patch h\<lparr>P_Lines := []\<rparr>), ps_inHunk = True\<rparr>"
    unfolding parse_line_def hunk_header_parses [OF assms] by (simp add: Let_def)
  then show ?thesis using parse_hunk_lines parse_marker assms by (simp add: hunk_print_def sound_hunk_def read_back_def)
qed

lemma parse_hunks:
  "list_all sound_hunk hs \<Longrightarrow>
   finish_patches (foldl parse_line \<lparr>ps_patches = [], ps_current = Some p, ps_hunk = ho, ps_inHunk = b\<rparr> (concat (map (hunk_print b1 b2) hs)))
   = [(close_hunk ho p)\<lparr>Hunks := Hunks (close_hunk ho p) @ map (read_back b1 b2) hs\<rparr>]"
proof (induction hs arbitrary: p ho b)
  case (Cons h hs)
  then show ?case by (simp add: parse_hunk_print) (simp add: close_hunk_def)
qed (simp add: finish_patches_def)

lemma unified_print:
  "unified_text n1 n2 b1 b2 hs = println_all ((''--- '' @ n1) # (''+++ '' @ n2) # concat (map (hunk_print b1 b2) hs))"
proof -
  have "concat (map (hunk_text b1 b2) hs) = println_all (concat (map (hunk_print b1 b2) hs))"
    by (induction hs) (simp_all add: hunk_text_print println_all_def)
  then show ?thesis by (simp add: unified_text_def println_all_def)
qed

lemma ParsePatch_unified:
  assumes "list_all sound_hunk hs" and "plain_line (''--- '' @ n1)" and "plain_line (''+++ '' @ n2)"
  shows "ParsePatch (unified_text n1 n2 b1 b2 hs) = ([\<lparr>OldFile = n1, NewFile = n2, Hunks = map (read_back b1 b2) hs\<rparr>], True)"
proof -
  have "Scanner (unified_text n1 n2 b1 b2 hs) = ((''--- '' @ n1) # (''+++ '' @ n2) # concat (map (hunk_print b1 b2) hs), True)"
    unfolding unified_print using assms hunk_print_plain by (intro Scanner_println) (auto simp: list_all_iff)
  moreover have "parse_line (parse_line \<lparr>ps_patches = [], ps_current = None, ps_hunk = None, ps_inHunk = False\<rparr> (''--- '' @ n1)) (''+++ '' @ n2)
    = \<lparr>ps_patches = [], ps_current = Some \<lparr>OldFile = n1, NewFile = n2, Hunks = []\<rparr>, ps_hunk = None, ps_inHunk = False\<rparr>"
    by (simp add: parse_line_def)
  ultimately show ?thesis using parse_hunks [OF assms(1)] by (simp add: ParsePatch_def close_hunk_def)
qed

section \<open>Applying what \<^verbatim>\<open>diff\<close> prints\<close>

text \<open>A line that survives the printed form of a hunk.\<close>

definition patchable :: "string \<Rightarrow> bool" where
  "patchable l \<longleftrightarrow> NL \<notin> set l \<and> CHR 0x0D \<notin> set l \<and> length l + 1 < token_limit \<and> \<not> prefix ''-- '' l \<and> \<not> prefix ''++ '' l"

lemma hunk_line_safe: "patchable (di_text i) \<Longrightarrow> safe_line (hunk_line i)"
  by (cases "di_op i") (auto simp: patchable_def safe_line_def hunk_line_def plain_line_def)

lemma hunk_line_head: "hunk_lines (map hunk_line s)"
  by (auto simp: hunk_lines_def list_all_iff hunk_line_def split: diffOp.splits)

lemma mk_hunk_sound:
  assumes "plain_script s" and "length s < index_bound" and "\<forall>l \<in> set (old_side s) \<union> set (new_side s). patchable l"
  shows "sound_hunk (mk_hunk s st e)"
proof -
  define before part where "before = take (nat st) s" and "part = drop (nat st) (take (nat e) s)"
  have sub: "set part \<subseteq> set s" unfolding part_def by (meson set_drop_subset set_take_subset subset_trans)
  have len: "length before \<le> length s" "length part \<le> length s" by (simp_all add: before_def part_def)
  have "patchable (di_text i)" if "i \<in> set s" for i
    using that assms(1,3) by (cases "di_op i") (auto simp: plain_script_def side_defs list_all_iff)
  then have "list_all safe_line (map hunk_line part)" using sub hunk_line_safe by (auto simp: list_all_iff)
  moreover have "length (filter P before) < index_bound" "length (filter P part) < index_bound" for P
    using len assms(2) length_filter_le [of P before] length_filter_le [of P part] by linarith+
  then have b: "int (length (filter P before)) < 2 ^ 61" "int (length (filter P part)) < 2 ^ 61" for P
    by (simp_all add: index_bound_def)
  have "small_range (1 + int (length (filter P before))) (int (length (filter P part)))" for P
    using b(1) [of P] b(2) [of P] by (simp add: small_range_def)
  ultimately show ?thesis using hunk_line_head by (simp add: sound_hunk_def mk_hunk_def Let_def flip: before_def part_def)
qed

lemma mk_hunk_lines: "H_Lines (mk_hunk s st e) = map hunk_line (drop (nat st) (take (nat e) s))"
  by (simp add: mk_hunk_def Let_def)

lemma Join_println: "ls \<noteq> [] \<Longrightarrow> Join ls [NL] @ [NL] = println_all ls"
proof (induction ls)
  case (Cons l ls)
  then show ?case by (cases ls) (simp_all add: println_all_def)
qed simp

lemma println_last: "ls \<noteq> [] \<Longrightarrow> println_all ls \<noteq> [] \<and> last (println_all ls) = NL"
  using Join_println [of ls] by (metis append_is_Nil_conv last_snoc list.distinct(1))

lemma target_lines_println: "ls \<noteq> [] \<Longrightarrow> \<forall>l \<in> set ls. NL \<notin> set l \<Longrightarrow> target_lines (println_all ls) = ls"
  using split_char_println [of ls "[]"] println_last [of ls] split_aux_char [of NL "[]" "println_all ls"]
  by (cases ls) (simp_all add: target_lines_def Split_def Let_def butlast_append)

lemma patch_Run_one:
  assumes "ParsePatch d = ([\<lparr>OldFile = n1, NewFile = n2, Hunks = [ph]\<rparr>], True)" and "takeWhile (\<lambda>c. c \<noteq> CHR 0x09) n1 \<noteq> ''/dev/null''"
    and "target \<noteq> []" and "fs target = Inr (println_all ls)" and "writeErr target = None" and "ls \<noteq> []" and "\<forall>l \<in> set ls. NL \<notin> set l"
    and "applyHunk ls (if rv then reverseHunk ph else ph) ign = Some (ls', True)" and "ls' \<noteq> []"
  shows "patch_Run fs writeErr d target 0 rv ign = Some \<lparr>po_result = Some \<lparr>PR_File = target, PR_Applied = 1, PR_Rejected = 0,
    PR_IsNew = False, PR_Msg = []\<rparr>, po_error = None, po_written = Some (target, println_all ls')\<rparr>"
proof -
  have "n1 \<noteq> ''/dev/null''" using assms(2) by auto
  then show ?thesis using assms target_lines_println println_last [OF assms(6)] Join_println [OF assms(9)]
    by (simp add: patch_Run_def stripPath_def Let_def)
qed

lemma apply_one_hunk:
  assumes "apply_hunks 0 ls [h] = Some new" and "1 \<le> H_OldStart h" and "0 \<le> H_OldLines h"
  obtains pre post where "ls = pre @ old_lines (H_Lines h) @ post" and "new = pre @ new_lines (H_Lines h) @ post"
    and "H_OldStart h = int (length pre) + 1" and "H_OldLines h = int (length (old_lines (H_Lines h)))"
proof -
  define gap n where "gap = nat (H_OldStart h) - 1" and "n = nat (H_OldLines h)"
  have a: "take n (drop gap ls) = old_lines (H_Lines h)" "gap + n \<le> length ls" "new = take gap ls @ new_lines (H_Lines h) @ drop (gap + n) ls"
    using assms(1) by (auto simp: Let_def gap_def n_def split: if_splits)
  have "ls = take gap ls @ take n (drop gap ls) @ drop (gap + n) ls"
    by (metis append_take_drop_id drop_drop add.commute)
  then have split: "ls = take gap ls @ old_lines (H_Lines h) @ drop (gap + n) ls" unfolding a(1) .
  have len: "length (take gap ls) = gap" "length (old_lines (H_Lines h)) = n" using a(2) arg_cong [OF a(1), of length] by simp_all
  show thesis by (rule that [OF split a(3)]) (unfold len, use assms(2,3) in \<open>simp_all add: gap_def n_def\<close>)
qed


section \<open>Properties\<close>





text \<open>C8. Patching with the output of \<^verbatim>\<open>diff\<close> gives the second file: when the two files are lines of text without a carriage return, none of them over-long
  or starting with two dashes or two plus signs and a blank, the difference is one hunk with old lines, and its result is not already found near its place, \<^verbatim>\<open>patch\<close> reads the printed difference, applies
  it without an error and writes exactly the second file.\<close>

theorem diff_patch_roundtrip:
  assumes "\<forall>l \<in> set ls1 \<union> set ls2. patchable l" and "length ls1 + length ls2 < index_bound" and "c < index_bound" and "ls2 \<noteq> []"
    and "GenerateDiff (println_all ls1) (println_all ls2) (int c) False False False = Some (True, [h])" and "0 < H_OldLines h"
    and "alreadyApplied ls1 (to_patch h) \<noteq> Some True"
    and "plain_line (''--- '' @ n1)" and "plain_line (''+++ '' @ n2)" and "takeWhile (\<lambda>c. c \<noteq> CHR 0x09) n1 \<noteq> ''/dev/null''"
    and "target \<noteq> []" and "fs target = Inr (println_all ls1)" and "writeErr target = None"
  shows "patch_Run fs writeErr (unified_text n1 n2 True True [h]) target 0 False ign = Some \<lparr>po_result = Some \<lparr>PR_File = target,
    PR_Applied = 1, PR_Rejected = 0, PR_IsNew = False, PR_Msg = []\<rparr>, po_error = None, po_written = Some (target, println_all ls2)\<rparr>"
proof -
  have nl: "\<forall>l \<in> set ls1. NL \<notin> set l" "\<forall>l \<in> set ls2. NL \<notin> set l" using assms(1) by (auto simp: patchable_def)
  then have t: "text_lines (println_all ls1) = ls1" "text_lines (println_all ls2) = ls2" by (simp_all add: text_lines_println)
  have id: "comp_lines False False ls = ls" for ls by (simp add: comp_lines_def)
  obtain s st e where s: "plain_script s" "old_side s = ls1" "new_side s = ls2" "apply_hunks 0 ls1 [h] = Some ls2" "h = mk_hunk s st e"
    using GenerateDiff_script [of "println_all ls1" "println_all ls2" c False False] assms(2,3,5) t id by auto
  have len: "length s < index_bound" using script_length [OF s(1)] s(2,3) assms(2) by simp
  then have sound: "sound_hunk h" using mk_hunk_sound [OF s(1)] assms(1) s(2,3,5) by simp
  then have r: "1 \<le> H_OldStart h" "0 \<le> H_OldLines h" "hunk_lines (H_Lines h)" by (simp_all add: sound_hunk_def small_range_def)
  obtain pre post where p: "ls1 = pre @ old_lines (H_Lines h) @ post" "ls2 = pre @ new_lines (H_Lines h) @ post"
    "H_OldStart h = int (length pre) + 1" "H_OldLines h = int (length (old_lines (H_Lines h)))"
    using apply_one_hunk [OF s(4) r(1,2)] by blast
  have "length (H_Lines h) < index_bound" using len s(5) by (simp add: mk_hunk_lines)
  then have "alreadyApplied ls1 (to_patch h) \<noteq> None" using assms(2,6) p r(1)
    by (intro alreadyApplied_total) (simp_all add: to_patch_def index_bound_def)
  then have "alreadyApplied ls1 (to_patch h) = Some False" using assms(7) by auto
  then have "applyHunk (pre @ old_lines (H_Lines h) @ post) (to_patch h) ign = Some (pre @ new_lines (P_Lines (to_patch h)) @ post, True)"
    using p r(3) assms(2,6) by (intro applyHunk_ok) (auto simp: to_patch_def)
  then have "applyHunk ls1 (if False then reverseHunk (to_patch h) else to_patch h) ign = Some (ls2, True)" using p(1,2) by (simp add: to_patch_def)
  moreover have "ParsePatch (unified_text n1 n2 True True [h]) = ([\<lparr>OldFile = n1, NewFile = n2, Hunks = [to_patch h]\<rparr>], True)"
    using ParsePatch_unified [of "[h]"] sound assms(8,9) by simp
  moreover have "ls1 \<noteq> []" using p(1,4) assms(6) by auto
  ultimately show ?thesis using patch_Run_one assms(4,10-13) nl(1) by blast
qed

theorem diff_patch_roundtrip_witness:
  "patch_Run (\<lambda>_. Inr (println_all [''a'', ''b''])) (\<lambda>_. None)
     (unified_text ''f'' ''g'' True True [\<lparr>H_OldStart = 1, H_OldLines = 2, H_NewStart = 1, H_NewLines = 2, H_Lines = ['' a'', ''-b'', ''+c'']\<rparr>]) ''f'' 0 False False
   = Some \<lparr>po_result = Some \<lparr>PR_File = ''f'', PR_Applied = 1, PR_Rejected = 0, PR_IsNew = False, PR_Msg = []\<rparr>, po_error = None,
       po_written = Some (''f'', println_all [''a'', ''c''])\<rparr>"
proof (rule diff_patch_roundtrip [of "[''a'', ''b'']" "[''a'', ''c'']" 3])
  have t: "text_lines (println_all [''a'', ''b'']) = [''a'', ''b'']" "text_lines (println_all [''a'', ''c'']) = [''a'', ''c'']"
    by (simp_all add: text_lines_println)
  have "Diff [''a'', ''b''] [''a'', ''c''] = Some [item opEq ''a'', item opDel ''b'', item opIns ''c'']" by code_simp
  then show "GenerateDiff (println_all [''a'', ''b'']) (println_all [''a'', ''c'']) (int 3) False False False = Some (True, [\<lparr>H_OldStart = 1, H_OldLines = 2, H_NewStart = 1, H_NewLines = 2, H_Lines = ['' a'', ''-b'', ''+c'']\<rparr>])"
    by (simp add: GenerateDiff_def t comp_lines_def item_def look_def BuildHunks_def hunks_from.simps find_end.simps changed_def wrap64_def
      mk_hunk_def in_old_def in_new_def hunk_line_def Let_def)
qed (simp_all add: patchable_def plain_line_def token_limit_def index_bound_def to_patch_def alreadyApplied_def expected_lines_def
  search_applied.simps look_def wrap64_def Let_def)

text \<open>Three limits of the application.  A hunk with no old lines goes to the top of the file wherever its header puts it; the lines that
  an earlier hunk adds are not counted, so that a later hunk whose old lines also stand at its unshifted place changes the wrong
  ones; and a negative count in a header panics.\<close>

lemma patch_insertion_top:
  "applyHunk [''a'', ''b''] \<lparr>P_OldStart = 2, P_OldCount = 0, P_NewStart = 3, P_NewCount = 1, P_Lines = [''+x'']\<rparr> False
   = Some ([''x'', ''a'', ''b''], True)"
  by (simp add: applyHunk_def applyAt_def result_lines_def wrap64_def Let_def)

lemma patch_offset_ignored:
  assumes "hs = [\<lparr>H_OldStart = 1, H_OldLines = 1, H_NewStart = 1, H_NewLines = 2, H_Lines = [''-p'', ''+q'', ''+r'']\<rparr>,
    \<lparr>H_OldStart = 3, H_OldLines = 1, H_NewStart = 4, H_NewLines = 1, H_Lines = [''-x'', ''+y'']\<rparr>]"
  shows "apply_hunks 0 [''p'', ''x'', ''x'', ''x''] hs = Some [''q'', ''r'', ''x'', ''y'', ''x'']"
    and "apply_all False False [''p'', ''x'', ''x'', ''x''] 0 (map to_patch hs) = Some ([''q'', ''r'', ''y'', ''x'', ''x''], 2, None)"
proof -
  show "apply_hunks 0 [''p'', ''x'', ''x'', ''x''] hs = Some [''q'', ''r'', ''x'', ''y'', ''x'']"
    by (simp add: assms old_lines_def new_lines_def numeral_eq_Suc Let_def)
  show "apply_all False False [''p'', ''x'', ''x'', ''x''] 0 (map to_patch hs) = Some ([''q'', ''r'', ''y'', ''x'', ''x''], 2, None)"
    unfolding assms by code_simp
qed

lemma patch_negative_count:
  "parse_range ''1,-5'' = (1, -5)"
  "applyHunk [''a''] \<lparr>P_OldStart = 1, P_OldCount = -5, P_NewStart = 1, P_NewCount = 0, P_Lines = [''-a'']\<rparr> ign = None"
proof -
  show "parse_range ''1,-5'' = (1, -5)" by code_simp
  show "applyHunk [''a''] \<lparr>P_OldStart = 1, P_OldCount = -5, P_NewStart = 1, P_NewCount = 0, P_Lines = [''-a'']\<rparr> ign = None"
    by (simp add: applyHunk_def alreadyApplied_def expected_lines_def verifyHunk_def applyAt_def look_def wrap64_def Let_def)
qed

text \<open>A deleted line that starts with two dashes and a blank prints as a file header, and the reader starts a new patch there.  The
  footer of a mail from git is read as a deleted line.\<close>

lemma patch_dashes_header:
  "parse_line \<lparr>ps_patches = [], ps_current = Some p, ps_hunk = Some h, ps_inHunk = True\<rparr> (hunk_line (item opDel ''-- x''))
   = \<lparr>ps_patches = [close_hunk (Some h) p], ps_current = Some \<lparr>OldFile = ''x'', NewFile = [], Hunks = []\<rparr>, ps_hunk = None, ps_inHunk = False\<rparr>"
  by (simp add: parse_line_def hunk_line_def item_def)

lemma patch_footer_deletes:
  "parse_line \<lparr>ps_patches = [], ps_current = Some p, ps_hunk = Some h, ps_inHunk = True\<rparr> ''-- ''
   = \<lparr>ps_patches = [], ps_current = Some p, ps_hunk = Some (h\<lparr>P_Lines := P_Lines h @ [''-- '']\<rparr>), ps_inHunk = True\<rparr>"
  by (simp add: parse_line_def)

end
