(* ===== verification/Utilities.thy ===== *)
theory Utilities
  imports Complex_Main Dispatch Tsort Uniq Comm Cut Tr Fold Expr Testcmd Wc Factor Checksum Uucode Joincmd Sortcmd Patch
begin

text \<open>
  The registrations of the modelled utilities (their \<^verbatim>\<open>init\<close> functions), as commands of the registry.  The record \<open>uenv\<close>
  holds what their models take as arguments: the file system, the Unicode table, the traversal orders of the class
  table of \<^verbatim>\<open>tr\<close>, the regular expressions, \<^verbatim>\<open>%q\<close>, the parser of floating point numbers with their values as reals,
  base64, writing a file, the directories that \<^verbatim>\<open>diff\<close> walks, and the standard input of the process, which some commands read instead of the one they are given.
\<close>

section \<open>The commands\<close>

record uenv =
  u_files :: files
  u_test :: testfs
  u_create :: "string \<Rightarrow> string option"
  u_same :: "string \<Rightarrow> string \<Rightarrow> bool"
  u_lower :: "nat \<Rightarrow> nat"
  u_orders :: "nat \<Rightarrow> class_order"
  u_regex :: regex
  u_quote :: "string \<Rightarrow> string"
  u_floats :: "real floats"
  u_b64enc :: "string \<Rightarrow> string"
  u_b64dec :: "string \<Rightarrow> string + string"
  u_uufiles :: uufiles
  u_stdinMode :: "string option"
  u_write :: uuwriter
  u_diff :: difffs
  u_pfiles :: pfiles
  u_pwrite :: "string \<Rightarrow> string option"
  u_osStdin :: string
  u_panic :: "int \<times> string list \<times> string list"

text \<open>A command writes its two streams.  A panic is not an exit code of the command: it ends the process, the daemon
  included, so what a caller is left with is the argument \<open>u_panic\<close>, about which nothing is assumed.\<close>

definition streams :: "result \<Rightarrow> int \<times> string list \<times> string list" where
  "streams r = (case r of (c, out, err) \<Rightarrow> (c, [out], [err]))"

definition of_option :: "uenv \<Rightarrow> result option \<Rightarrow> int \<times> string list \<times> string list" where
  "of_option U r = (case r of None \<Rightarrow> u_panic U | Some x \<Rightarrow> streams x)"

definition of_outcome :: "uenv \<Rightarrow> result outcome \<Rightarrow> int \<times> string list \<times> string list" where
  "of_outcome U r = (case r of Returns x \<Rightarrow> streams x | _ \<Rightarrow> u_panic U)"

definition tsort_command :: "uenv \<Rightarrow> Command" where
  "tsort_command U = \<lparr>Name = ''tsort'', Usage = ''Topological sort of a directed graph'',
     Run = (\<lambda>args stdin cwd. of_option U (tsort_run (u_files U) stdin args))\<rparr>"

definition uniq_command :: "uenv \<Rightarrow> Command" where
  "uniq_command U = \<lparr>Name = ''uniq'', Usage = ''Report or omit repeated lines'',
     Run = (\<lambda>args stdin cwd. case uniqRun (u_lower U) (u_files U) (u_create U) (u_same U) stdin args of
              (c, out, err, file) \<Rightarrow> streams (c, out, err))\<rparr>"

definition comm_command :: "uenv \<Rightarrow> Command" where
  "comm_command U = \<lparr>Name = ''comm'', Usage = ''Compare two sorted files line by line'',
     Run = (\<lambda>args stdin cwd. streams (commRun (u_files U) stdin args))\<rparr>"

definition cut_command :: "uenv \<Rightarrow> Command" where
  "cut_command U = \<lparr>Name = ''cut'', Usage = ''Remove sections from each line of files'',
     Run = (\<lambda>args stdin cwd. streams (cutRun (u_files U) stdin args))\<rparr>"

definition tr_command :: "uenv \<Rightarrow> Command" where
  "tr_command U = \<lparr>Name = ''tr'', Usage = ''Translate, squeeze, and/or delete characters'',
     Run = (\<lambda>args stdin cwd. streams (trRun (u_orders U) stdin args))\<rparr>"

definition fold_command :: "uenv \<Rightarrow> Command" where
  "fold_command U = \<lparr>Name = ''fold'', Usage = ''Wrap input lines to a specified width'',
     Run = (\<lambda>args stdin cwd. of_option U (foldRun (u_files U) stdin args))\<rparr>"

definition expr_command :: "uenv \<Rightarrow> Command" where
  "expr_command U = \<lparr>Name = ''expr'', Usage = ''Evaluate expressions'',
     Run = (\<lambda>args stdin cwd. of_outcome U (expr_run (u_regex U) (u_quote U) args))\<rparr>"

definition test_command :: "uenv \<Rightarrow> Command" where
  "test_command U = \<lparr>Name = ''test'', Usage = ''Evaluate conditional expressions'',
     Run = (\<lambda>args stdin cwd. of_option U (runTest (u_quote U) (u_test U) args))\<rparr>"

definition bracket_command :: "uenv \<Rightarrow> Command" where
  "bracket_command U = \<lparr>Name = ''['', Usage = ''Evaluate conditional expressions (bracket form)'',
     Run = (\<lambda>args stdin cwd. of_option U (runBracket (u_quote U) (u_test U) args))\<rparr>"

definition wc_command :: "uenv \<Rightarrow> Command" where
  "wc_command U = \<lparr>Name = ''wc'', Usage = ''Print newline, word, and byte counts'',
     Run = (\<lambda>args stdin cwd. streams (wc_run (u_files U) stdin args))\<rparr>"

definition factor_command :: "uenv \<Rightarrow> Command" where
  "factor_command U = \<lparr>Name = ''factor'', Usage = ''Factorize numbers into prime components'',
     Run = (\<lambda>args stdin cwd. of_option U (factor_run stdin args))\<rparr>"

definition cksum_command :: "uenv \<Rightarrow> Command" where
  "cksum_command U = \<lparr>Name = ''cksum'', Usage = ''Print CRC checksum and byte count of files'',
     Run = (\<lambda>args stdin cwd. streams (cksum_run (u_files U) (u_osStdin U) args))\<rparr>"

definition sum_command :: "uenv \<Rightarrow> Command" where
  "sum_command U = \<lparr>Name = ''sum'', Usage = ''Compute checksum and block count'',
     Run = (\<lambda>args stdin cwd. streams (sumRun (u_files U) stdin args))\<rparr>"

definition uuencode_command :: "uenv \<Rightarrow> Command" where
  "uuencode_command U = \<lparr>Name = ''uuencode'', Usage = ''Encode a binary file'',
     Run = (\<lambda>args stdin cwd. streams (uuencode_run (u_b64enc U) (u_uufiles U) (u_stdinMode U) stdin cwd args))\<rparr>"

definition uudecode_command :: "uenv \<Rightarrow> Command" where
  "uudecode_command U = \<lparr>Name = ''uudecode'', Usage = ''Decode a uuencoded file'',
     Run = (\<lambda>args stdin cwd. streams (uudecode_run (u_b64dec U) (u_files U) (u_write U) stdin cwd args))\<rparr>"

definition join_command :: "uenv \<Rightarrow> Command" where
  "join_command U = \<lparr>Name = ''join'', Usage = ''Relational database join on sorted files'',
     Run = (\<lambda>args stdin cwd. streams (join_run (u_files U) (u_osStdin U) args))\<rparr>"

definition sort_command :: "uenv \<Rightarrow> Command" where
  "sort_command U = \<lparr>Name = ''sort'', Usage = ''Sort lines of text files'',
     Run = (\<lambda>args stdin cwd. of_option U (map_option (\<lambda>(c, out, err, file). (c, out, err))
              (sortRun (u_lower U) (u_floats U) (u_files U) (u_create U) stdin args)))\<rparr>"

definition diff_command :: "uenv \<Rightarrow> Command" where
  "diff_command U = \<lparr>Name = ''diff'', Usage = ''Compare files line by line'',
     Run = (\<lambda>args stdin cwd. of_option U (diff_run (u_diff U) (u_osStdin U) args))\<rparr>"

definition patch_command :: "uenv \<Rightarrow> Command" where
  "patch_command U = \<lparr>Name = ''patch'',
     Usage = ''patch [-pN] [-R] [-N] [--json] [file [patchfile]] '' @ [CHR 0xE2, CHR 0x80, CHR 0x94] @ '' apply a unified diff to files'',
     Run = (\<lambda>args stdin cwd. of_option U (map_option (\<lambda>(c, out, err, file). (c, out, err))
              (patchRun (u_pfiles U) (u_pwrite U) stdin args)))\<rparr>"

definition utility_commands :: "uenv \<Rightarrow> Command list" where
  "utility_commands U = [comm_command U, cut_command U, expr_command U, fold_command U, test_command U, bracket_command U,
     tr_command U, tsort_command U, uniq_command U, wc_command U, factor_command U, cksum_command U, sum_command U,
     uuencode_command U, uudecode_command U, join_command U, sort_command U,
     diff_command U, patch_command U]"

section \<open>Facts\<close>

lemmas command_defs = tsort_command_def uniq_command_def comm_command_def cut_command_def tr_command_def fold_command_def
  expr_command_def test_command_def bracket_command_def wc_command_def factor_command_def cksum_command_def sum_command_def
  uuencode_command_def uudecode_command_def join_command_def sort_command_def
  diff_command_def patch_command_def

lemma utilities_register:
  "\<exists>reg. RegisterAll (utility_commands U) [] = Inr reg \<and> (\<forall>c \<in> set (utility_commands U). Lookup reg (Name c) = Some c)"
  by (simp add: utility_commands_def command_defs Register_def Lookup_def)

text \<open>None of the modelled loops runs forever: the commands never take the branch for a value that is missing.\<close>

lemma commands_return:
  "tsort_run fs stdin args \<noteq> None" "foldRun fs stdin args \<noteq> None"
  "runTest quote tfs args \<noteq> None" "runBracket quote tfs args \<noteq> None" "expr_run re quote args \<noteq> Diverges"
proof -
  show "tsort_run fs stdin args \<noteq> None" by (rule tsort_run_returns)
  show "foldRun fs stdin args \<noteq> None" by (rule foldRun_returns)
  have "Evaluate tfs ts \<noteq> None" for ts using test_returns [of tfs ts] by auto
  then show "runTest quote tfs args \<noteq> None" "runBracket quote tfs args \<noteq> None"
    by (simp_all add: runTest_def runBracket_def Let_def del: not_None_eq)
  have "Eval re (filter (\<lambda>a. a \<noteq> ''--json'') args) \<noteq> Diverges" by (rule Eval_returns)
  then show "expr_run re quote args \<noteq> Diverges"
    by (cases "Eval re (filter (\<lambda>a. a \<noteq> ''--json'') args)") (auto simp: expr_run_def Let_def split: sum.split)
qed

lemma ascii_digits: "list_all isDecDigit s \<Longrightarrow> ascii s"
  by (auto simp: ascii_def list_all_iff isDecDigit_def)

lemma ascii_Itoa: "ascii (Itoa n)"
  using ascii_digits [OF conjunct2 [OF itoa_nat_digits]] by (auto simp: Itoa_def ascii_def code_def)

text \<open>The value of an expression with ASCII tokens is ASCII.\<close>

lemma ascii_bits: "ascii ''0''" "ascii ''1''"
  by (simp_all add: ascii_def code_def)

lemma acts_ascii: "k < 5 \<Longrightarrow> ascii x \<Longrightarrow> ascii y \<Longrightarrow> acts k o1 x y = Inr v \<Longrightarrow> ascii v"
  by (drule less5)
     (auto simp: acts_def orResult_def andResult_def cmpAct_def cmpResult_def addResult_def mulResult_def ascii_Itoa
       ascii_bits split: option.splits if_splits)

lemma ascii_show_ex: "list_all ascii (show_ex l (Op o1 a b)) \<Longrightarrow> list_all ascii (show_ex (op_level o1) a) \<and> list_all ascii (show_ex (Suc (op_level o1)) b)"
  by (auto simp: Let_def split: if_splits)

lemma ex_value_ascii: "ex_ok e \<Longrightarrow> list_all ascii (show_ex l e) \<Longrightarrow> ex_value e = Inr v \<Longrightarrow> ascii v"
proof (induction e arbitrary: l v)
  case (Op o1 a b)
  obtain x y where v: "ex_value a = Inr x" "ex_value b = Inr y" "acts (op_level o1) o1 x y = Inr v"
    using Op.prems(3) by (auto simp: res_bind_Inr_iff)
  note t = ascii_show_ex [OF Op.prems(2)]
  have ok: "op_level o1 < 5" "ex_ok a" "ex_ok b" using Op.prems(1) by auto
  have "ascii x" "ascii y" using Op.IH(1) [OF ok(2) conjunct1 [OF t] v(1)] Op.IH(2) [OF ok(3) conjunct2 [OF t] v(2)] .
  then show ?case using acts_ascii [OF ok(1) _ _ v(3)] by blast
qed simp

end
