(* ===== verification/Spec2Isabelle.thy ===== *)
theory Spec2Isabelle
  imports Prelude Gostd Float64 Json Flags Output Escape Ratelimit Paths Session Dispatch Io Decoder Observability Shell
    Server Forward Cli Tsort Uniq Comm Cut Tr Fold Cursor Expr Testcmd Wc Numbers Factor Checksum Uucode Joincmd
    Sortcmd Diff Patch Utilities
begin

text \<open>
  GoPOSIX is a set of POSIX utilities in one Go binary.  A utility is a package under \<^verbatim>\<open>src/pkg\<close> that registers a command; the
  binary runs the command its own name selects.  A daemon can run the same commands for clients: it reads JSON-RPC
  requests from a socket, keeps sessions with a working directory and an environment, confines the paths of a request to
  the directory of its session, limits the rate of requests and the size of outputs, and publishes counters.  The binary
  forwards a call to the daemon when one is running.

  \<^bold>\<open>How the model reads the code.\<close>  A Go string or byte slice is a \<^typ>\<open>string\<close>, an \<^verbatim>\<open>int\<close> is an \<^typ>\<open>int\<close> with
  the 64-bit wrap-around written out where it matters, a struct is a record, \<^verbatim>\<open>(T, error)\<close> is a sum with the
  error on the left.  State is passed explicitly.  What is outside the sources is an argument: the file system, the clock,
  the socket, the regular expressions, the Unicode tables above ASCII, \<^verbatim>\<open>%q\<close>, the shell interpreter, and the
  iteration orders of Go maps.  Output streams are the strings written to them.

  \<^bold>\<open>The foundation.\<close>
  \<^item> \<open>Prelude\<close>: results, association lists, prefixes, and the collections \<open>go_simps\<close> and \<open>go_len\<close>.
  \<^item> \<open>Gostd\<close>: \<^verbatim>\<open>strconv\<close>, UTF-8, \<^verbatim>\<open>strings\<close> and the line scanner; printing and parsing of integers and of runes are inverse.
  \<^item> \<open>Float64\<close>: the rounding of a number literal to a \<^verbatim>\<open>float64\<close> and the shortest text that is read back as it; integers below \<open>2 ^ 53\<close> are exact.
  \<^item> \<open>Json\<close>: the encoder and decoder of \<^verbatim>\<open>encoding/json\<close> for the values the program sends; decoding an encoded ASCII value gives it back.
    A value of type \<^verbatim>\<open>interface{}\<close> has its numbers as \<^verbatim>\<open>float64\<close> and the last of several equal keys.
  \<^item> \<open>Cli\<close>: what the utilities share, operands, the scanner with its token limit, formatting.

  \<^bold>\<open>The shared packages, \<^verbatim>\<open>src/pkg/common\<close>.\<close>
  \<^item> \<open>Flags\<close> (\<^verbatim>\<open>flags.go\<close>, \<^verbatim>\<open>compiled.go\<close>): an argument list parses as its options do without the operands, clusters and attached values mean the same
    as separate ones, errors are exactly two messages with exit code 2.
  \<^item> \<open>Output\<close> (\<^verbatim>\<open>output.go\<close>, \<^verbatim>\<open>flagerr.go\<close>, \<^verbatim>\<open>jsonrpc.go\<close>), \<open>Escape\<close> (\<^verbatim>\<open>escape.go\<close>), \<open>Io\<close> (\<^verbatim>\<open>io.go\<close> and the request reader).
    The locales \<open>io_writer\<close> and \<open>io_reader\<close> are the contracts of \<^verbatim>\<open>io.Writer\<close> and \<^verbatim>\<open>io.Reader\<close>; the limited writer is proved over any writer.
  \<^item> \<open>Paths\<close> (\<^verbatim>\<open>security.go\<close>): an accepted path lies inside the resolved base directory.
  \<^item> \<open>Cursor\<close> (\<^verbatim>\<open>cursor.go\<close>): the token cursor and the loops of the two expression parsers.  The locale \<open>precedence_parser\<close> proves once
    that printed trees parse back; \<open>Expr\<close> and \<open>Testcmd\<close> interpret it.

  \<^bold>\<open>The daemon, \<^verbatim>\<open>src/internal\<close>, and its client.\<close>
  \<^item> \<open>Session\<close> (\<^verbatim>\<open>session.go\<close>): the methods as atomic steps of a transition relation, each with the file system of its time; the confinement of every session is an
    invariant, over the locale \<open>path_guard\<close> that \<open>Paths\<close> provides.
  \<^item> \<open>Ratelimit\<close> (\<^verbatim>\<open>ratelimit.go\<close>): over every stretch of a run at most the burst plus rate times time is let through.
  \<^item> \<open>Dispatch\<close> (\<^verbatim>\<open>dispatch.go\<close>): the registry, behind the locale \<open>command_registry\<close>.
  \<^item> \<open>Observability\<close> (\<^verbatim>\<open>observability.go\<close>): counters and the health and metrics pages.
  \<^item> \<open>Shell\<close> (\<^verbatim>\<open>interpreter.go\<close>): the handlers around the interpreter.
  \<^item> \<open>Decoder\<close> (\<^verbatim>\<open>server.go\<close>): the stream decoder of a connection over the request reader; an object on a line is delivered in whatever pieces it
    arrives, or refused when it is over the limit.
  \<^item> \<open>Server\<close> (\<^verbatim>\<open>server.go\<close>): requests, batches on the worker pool as a step relation over all interleavings, and connections from their
    bytes to the answers, with the limits of size and rate.
  \<^item> \<open>Forward\<close> (\<^verbatim>\<open>goposix.go\<close>, \<^verbatim>\<open>forwarder.go\<close>): the multicall entry and the forwarded call, over a connection to the modelled daemon.

  \<^bold>\<open>The utilities, \<^verbatim>\<open>src/pkg/<name>\<close>.\<close>  Each theory holds the whole command, options and errors included.
  \<^item> \<open>Tsort\<close>: the output is a topological order and leaves out only words behind a cycle.
  \<^item> \<open>Comm\<close>: the merge refines multiset difference and intersection on sorted files.
  \<^item> \<open>Uniq\<close>: the single pass is a run-length encoding, and \<^verbatim>\<open>-c\<close> loses nothing.
  \<^item> \<open>Cut\<close>, \<open>Tr\<close>, \<open>Fold\<close>: selection of fields, translation, wrapping.
  \<^item> \<open>Expr\<close>, \<open>Testcmd\<close>: precedence and associativity of the grammars.
  \<^item> \<open>Wc\<close>: the windowed counter agrees with the counts of the whole text.
  \<^item> \<open>Sortcmd\<close>: keys, the comparison and the stable sort.  The locale \<open>comparison\<close> is the contract of a comparison; it proves once that
    insertion sort is sorted, stable and the only stable result.  The comparison of the lines interprets it on the lines
    on which it is consistent, which are all lines unless \<^verbatim>\<open>-M\<close> stands alone.
  \<^item> \<open>Diff\<close>: the greedy search returns a shortest edit script, and the hunks made from it turn the first file into the second.
  \<^item> \<open>Patch\<close>: the reader gets back what \<^verbatim>\<open>diff\<close> prints, a hunk at its place is applied there and its reverse undoes it, and patching
    with the printed difference writes the second file.
  \<^item> \<open>Joincmd\<close>: on sorted files the merge writes the pairs with equal keys and the lines without a partner.
  \<^item> \<open>Numbers\<close>, \<open>Factor\<close>: the number theory, Miller--Rabin, Pollard's rho and the factorisation; every loop ends and no
    128-bit division panics.
  \<^item> \<open>Checksum\<close> (\<^verbatim>\<open>cksum\<close>, \<^verbatim>\<open>sum\<close>): the CRC on 32-bit words notices every burst of four bytes.
  \<^item> \<open>Uucode\<close> (\<^verbatim>\<open>uuencode\<close>, \<^verbatim>\<open>uudecode\<close>): decoding gives back what was encoded.
  \<^item> \<open>Utilities\<close>: their \<^verbatim>\<open>init\<close> functions as commands of the registry.
  This theory composes them: a call of \<^verbatim>\<open>expr\<close> from the forwarder through the daemon to the parser and back.

  \<^bold>\<open>Loops, fuel and termination.\<close>  Most loops are structural or have a measure.  The parsers of \<open>Expr\<close> and \<open>Testcmd\<close>
  take a fuel that starts above the number of tokens, and the queue loop of \<open>Tsort\<close> one unit per
  node; each is proved to be enough, so running out is never a result.  The fuel of the decoder of \<open>Json\<close> is above the length
  of the text, as every level and element takes a byte.  The index of \<open>Fold\<close> moves back at a break: the loop is
  a partial function, proved to return on every input; so are the rho walk and the recursion of \<open>Factor\<close>, which return because
  two walks of different speed meet and the factor found is proper.  The decoder of a connection ends because every read takes a byte or a
  piece.  Two loops can run into an index out of range after a sum
  overflows, the one over the hunks of \<open>Diff\<close> and the search of \<open>Patch\<close> for an applied hunk: they are partial functions as well,
  and return for files and contexts below \<open>2 ^ 61\<close>.

  \<^bold>\<open>Idealisations.\<close>  \<^verbatim>\<open>float64\<close> tokens of the rate limiter are real numbers.  Each method that holds a mutex is one
  step.  Numbers of \<open>Sortcmd\<close> are any linear order with a parser, and its sorting routine is insertion sort.  That
  the twelve bases of Miller--Rabin decide primality below \<open>2 ^ 64\<close> is a published computation and not proved: a factor is shown to be
  prime below 1681 and to pass the test above.  Writes to the output streams succeed, and so do reads of an opened input: its content is a string, so the return of \<^verbatim>\<open>wc\<close> on a failed read has no counterpart.
  A connection handles its requests one after the other, and nothing reads from a closed one.  A panic ends the process, so in \<open>Utilities\<close> its result is an
  argument about which nothing is assumed.

  \<^bold>\<open>Not modelled.\<close>  Of the daemon: listening, accepting, shutdown, signals, process titles, the \<^verbatim>\<open>/status\<close> page.  The self
  upgrade.  The utilities that are system calls with little logic (files, processes, users, network, devices).  The
  compression, archive and digest utilities, whose work is in Go packages, and \<^verbatim>\<open>awk\<close>, which calls a third-party interpreter.  The other interpreters and the remaining
  text and number utilities (\<^verbatim>\<open>sed\<close>, \<^verbatim>\<open>bc\<close>, \<^verbatim>\<open>dc\<close>, \<^verbatim>\<open>printf\<close>, \<^verbatim>\<open>xxd\<close> and others) could be
  modelled in the same way and are not yet.
\<close>

section \<open>Properties that span components\<close>






end
